(* ===== verification/Prelude.thy ===== *)
theory Prelude
  imports Main "HOL-Library.Monad_Syntax" "HOL-Library.List_Lexorder" "HOL-Library.Char_ord"
begin

text \<open>
  What every theory of the development shares.

  Convention for effects. An operation of the program that can fail to return normally
  (an access outside a vector, a null pointer, \<open>abort ()\<close>, a loop that never ends) has a
  result of type \<open>'a option\<close>: \<open>None\<close> is "no normal return", \<open>Some (r, s)\<close> is the result
  together with the state afterwards. State is passed explicitly and sequenced with the
  \<open>do\<close> notation of the option monad.
\<close>

named_theorems frame_simps
  \<open>which fields of the state an operation leaves alone\<close>

named_theorems run_simps
  \<open>equations that evaluate a step of the model on a normal state\<close>

subsection \<open>Element access with the range check written out\<close>

text \<open>\<open>std::vector::operator[]\<close>: undefined outside the vector.\<close>

definition elem_at :: "'a list \<Rightarrow> nat \<Rightarrow> 'a option" where
  "elem_at xs i = (if i < length xs then Some (xs ! i) else None)"

definition put :: "'a list \<Rightarrow> nat \<Rightarrow> 'a \<Rightarrow> 'a list option" where
  "put xs i v = (if i < length xs then Some (xs[i := v]) else None)"

lemma elem_at_less [simp]: "i < length xs \<Longrightarrow> elem_at xs i = Some (xs ! i)"
  by (simp add: elem_at_def)

lemma elem_at_ge [simp]: "length xs \<le> i \<Longrightarrow> elem_at xs i = None"
  by (simp add: elem_at_def)

lemma elem_at_SomeD: "elem_at xs i = Some v \<Longrightarrow> i < length xs \<and> xs ! i = v"
  by (simp add: elem_at_def split: if_splits)

lemma put_less [simp]: "i < length xs \<Longrightarrow> put xs i v = Some (xs[i := v])"
  by (simp add: put_def)

lemma put_SomeD: "put xs i v = Some ys \<Longrightarrow> i < length xs \<and> ys = xs[i := v]"
  by (simp add: put_def split: if_splits)

text \<open>\<open>std::vector::resize\<close> with the value for the new elements.\<close>

definition resize_vec :: "nat \<Rightarrow> 'a \<Rightarrow> 'a list \<Rightarrow> 'a list" where
  "resize_vec n x xs = take n xs @ replicate (n - length xs) x"

lemma length_resize [simp]: "length (resize_vec n x xs) = n"
  by (simp add: resize_vec_def)

text \<open>An index of type \<open>int\<close>: a negative one lies outside.\<close>

definition elem_at_int :: "'a list \<Rightarrow> int \<Rightarrow> 'a option" where
  "elem_at_int xs i = (if i < 0 then None else elem_at xs (nat i))"

lemma elem_at_int_less [simp]: "0 \<le> i \<Longrightarrow> i < int (length xs) \<Longrightarrow> elem_at_int xs i = Some (xs ! nat i)"
  by (simp add: elem_at_int_def nat_less_iff)

subsection \<open>The option monad\<close>

lemma bind_Some_iff:
  "Option.bind m f = Some r \<longleftrightarrow> (\<exists>x. m = Some x \<and> f x = Some r)"
  by (cases m) auto

lemma bind_SomeE:
  assumes "Option.bind m f = Some r"
  obtains x where "m = Some x" and "f x = Some r"
  using assms by (cases m) auto

subsection \<open>Lists\<close>

lemma last_take_Suc: "i < length xs \<Longrightarrow> last (take (Suc i) xs) = xs ! i"
  by (simp add: take_Suc_conv_app_nth)

lemma successively_append_two:
  "successively P (xs @ [x]) \<Longrightarrow> P x y \<Longrightarrow> successively P (xs @ [x, y])"
  by (auto simp: successively_append_iff)

subsection \<open>\<open>std::map<std::string, T>\<close>\<close>

text \<open>
  An association list in increasing order of the keys (\<open>char\<close>s compare as unsigned bytes),
  which is the order the iterators follow. \<open>smap_put\<close> is \<open>m[k] = v\<close>, \<open>smap_insert\<close> is
  \<open>m.insert (...)\<close>, which keeps an old entry, \<open>smap_index\<close> is the read access \<open>m[k]\<close>,
  which creates a missing entry with a default value.
\<close>

type_synonym 'a smap = "(string \<times> 'a) list"

fun smap_put :: "string \<Rightarrow> 'a \<Rightarrow> 'a smap \<Rightarrow> 'a smap" where
  "smap_put k v [] = [(k, v)]"
| "smap_put k v ((k', v') # m) =
     (if k = k' then (k, v) # m
      else if k < k' then (k, v) # (k', v') # m
      else (k', v') # smap_put k v m)"

definition smap_insert :: "string \<Rightarrow> 'a \<Rightarrow> 'a smap \<Rightarrow> 'a smap" where
  "smap_insert k v m = (if map_of m k = None then smap_put k v m else m)"

definition smap_index :: "'a \<Rightarrow> 'a smap \<Rightarrow> string \<Rightarrow> 'a \<times> 'a smap" where
  "smap_index d m k = (case map_of m k of Some v \<Rightarrow> (v, m) | None \<Rightarrow> (d, smap_put k d m))"

definition smap_wf :: "'a smap \<Rightarrow> bool" where
  "smap_wf m \<longleftrightarrow> sorted_wrt (<) (map fst m)"

lemma smap_put_keys: "set (map fst (smap_put k v m)) = insert k (set (map fst m))"
  by (induction k v m rule: smap_put.induct) auto

lemma smap_wf_put [intro]: "smap_wf m \<Longrightarrow> smap_wf (smap_put k v m)"
proof (induction k v m rule: smap_put.induct)
  case (2 k v k' v' m)
  have keys: "\<forall>x \<in> set (smap_put k v m). fst x = k \<or> fst x \<in> fst ` set m"
    using smap_put_keys [of k v m] by auto
  have tail: "smap_wf m" "\<forall>x \<in> set m. k' < fst x" using "2.prems" by (auto simp: smap_wf_def)
  consider "k = k'" | "k < k'" | "k \<noteq> k'" "k' < k" by (meson linorder_neqE)
  then show ?case
  proof cases
    case 1
    then show ?thesis using tail by (simp add: smap_wf_def)
  next
    case 2
    then have "\<forall>x \<in> set m. k < fst x" using tail(2) by (meson less_trans)
    then show ?thesis using 2 tail by (simp add: smap_wf_def)
  next
    case 3
    then have "smap_wf (smap_put k v m)" using "2.IH" tail(1) by (meson less_asym)
    moreover have "\<forall>x \<in> set (smap_put k v m). k' < fst x" using keys tail(2) 3(2) by (metis imageE)
    moreover have "\<not> k < k'" using 3(2) by (rule less_not_sym)
    ultimately show ?thesis using 3(1) by (simp add: smap_wf_def)
  qed
qed (simp add: smap_wf_def)

lemma map_of_smap_put: "smap_wf m \<Longrightarrow> map_of (smap_put k v m) = (map_of m)(k \<mapsto> v)"
proof (induction k v m rule: smap_put.induct)
  case (2 k v k' v' m)
  then show ?case by (auto simp: smap_wf_def)
qed simp

lemma smap_wf_distinct: "smap_wf m \<Longrightarrow> distinct (map fst m)"
  by (simp add: smap_wf_def strict_sorted_iff)

lemma smap_wf_index: "smap_wf m \<Longrightarrow> smap_wf (snd (smap_index d m k))"
  by (auto simp: smap_index_def split: option.split)

lemma smap_wf_insert: "smap_wf m \<Longrightarrow> smap_wf (smap_insert k v m)"
  by (auto simp: smap_insert_def)

subsection \<open>Sequences of operations\<close>

text \<open>The operations are served in order; the first that does not return ends the run.\<close>

fun run_all :: "('r \<Rightarrow> 's \<Rightarrow> 's option) \<Rightarrow> 'r list \<Rightarrow> 's \<Rightarrow> 's option" where
  "run_all step [] s = Some s"
| "run_all step (r # rs) s = do { s1 \<leftarrow> step r s; run_all step rs s1 }"

text \<open>
  The contract of a component whose operations, when asked properly, return, keep an invariant
  and relate the new state to the old one.
\<close>

locale guarded_steps =
  fixes step :: "'r \<Rightarrow> 's \<Rightarrow> 's option"
    and ok :: "'r \<Rightarrow> bool"
    and inv :: "'s \<Rightarrow> bool"
    and rel :: "'s \<Rightarrow> 's \<Rightarrow> bool"
  assumes step_ok: "inv s \<Longrightarrow> ok r \<Longrightarrow> \<exists>s'. step r s = Some s' \<and> inv s' \<and> rel s s'"
    and rel_refl: "inv s \<Longrightarrow> rel s s"
    and rel_trans: "rel s t \<Longrightarrow> rel t u \<Longrightarrow> rel s u"
begin

lemma run_all_ok:
  "inv s \<Longrightarrow> \<forall>r \<in> set rs. ok r \<Longrightarrow> \<exists>s'. run_all step rs s = Some s' \<and> inv s' \<and> rel s s'"
proof (induction rs arbitrary: s)
  case (Cons r rs)
  obtain s1 where s1: "step r s = Some s1" "inv s1" "rel s s1" using step_ok [of s r] Cons.prems by auto
  then obtain s' where "run_all step rs s1 = Some s'" "inv s'" "rel s1 s'" using Cons.IH Cons.prems(2) by auto
  then show ?case using s1 rel_trans by auto
qed (simp add: rel_refl)

end

end
