(* ===== verification/Binary64.thy ===== *)
theory Binary64
  imports Complex_Main Prelude "HOL-Library.Log_Nat"
begin

text \<open>
  The C++ type \<open>double\<close> (IEEE 754 binary64, round to nearest, ties to even) as the program
  uses it: a value is not-a-number, an infinity (\<open>Inf True\<close> is the negative one) or a
  finite value, held as the rational number it denotes. Every arithmetic operation is the
  exact rational operation followed by \<open>rnd\<close>. The sign of a zero is not represented: of the
  operations here only a division by \<open>-0.0\<close> would tell it from \<open>0.0\<close>.
\<close>

datatype double = NaN | Inf bool | Fin rat

subsection \<open>Rounding\<close>

text \<open>\<open>ilog2 r\<close> is the exponent of the leading binary digit of \<open>r > 0\<close>.\<close>

definition ilog2 :: "rat \<Rightarrow> int" where
  "ilog2 r = (let (a, b) = quotient_of r; k = bitlen a - bitlen b
              in if 2 powi k \<le> r then k else k - 1)"

text \<open>Nearest integer, ties to the even one.\<close>

definition rne :: "rat \<Rightarrow> int" where
  "rne q = (let f = \<lfloor>q\<rfloor>; d = q - of_int f
            in if d < 1 / 2 then f else if 1 / 2 < d then f + 1 else if even f then f else f + 1)"

text \<open>
  53 significant binary digits, least exponent -1074 (subnormals), overflow to an infinity
  from \<open>2 ^ 1024\<close> on. The rounded value is \<open>n * 2 powi e\<close>, where \<open>n\<close> has 53 digits (or is
  \<open>2 ^ 53\<close>) unless the number is subnormal, so the exponents tell an overflow.
\<close>

definition rnd :: "rat \<Rightarrow> double" where
  "rnd q = (if q = 0 then Fin 0
            else let e = max (ilog2 \<bar>q\<bar> - 52) (-1074);
                     n = rne (q / 2 powi e)
                 in if 971 < e \<or> e = 971 \<and> 2 ^ 53 \<le> \<bar>n\<bar> then Inf (q < 0)
                    else Fin (of_int n * 2 powi e))"

subsection \<open>Operations\<close>

fun dneg :: "double \<Rightarrow> double" where
  "dneg NaN = NaN"
| "dneg (Inf s) = Inf (\<not> s)"
| "dneg (Fin q) = Fin (- q)"

fun dabs :: "double \<Rightarrow> double" where
  "dabs NaN = NaN"
| "dabs (Inf s) = Inf False"
| "dabs (Fin q) = Fin \<bar>q\<bar>"

fun dadd :: "double \<Rightarrow> double \<Rightarrow> double" where
  "dadd (Fin p) (Fin q) = rnd (p + q)"
| "dadd NaN _ = NaN"
| "dadd _ NaN = NaN"
| "dadd (Inf s) (Inf t) = (if s = t then Inf s else NaN)"
| "dadd (Inf s) (Fin _) = Inf s"
| "dadd (Fin _) (Inf t) = Inf t"

definition dsub :: "double \<Rightarrow> double \<Rightarrow> double" where
  "dsub x y = dadd x (dneg y)"

fun dmul :: "double \<Rightarrow> double \<Rightarrow> double" where
  "dmul (Fin p) (Fin q) = rnd (p * q)"
| "dmul NaN _ = NaN"
| "dmul _ NaN = NaN"
| "dmul (Inf s) (Inf t) = Inf (s \<noteq> t)"
| "dmul (Inf s) (Fin q) = (if q = 0 then NaN else Inf (s \<noteq> (q < 0)))"
| "dmul (Fin p) (Inf t) = (if p = 0 then NaN else Inf ((p < 0) \<noteq> t))"

fun ddiv :: "double \<Rightarrow> double \<Rightarrow> double" where
  "ddiv (Fin p) (Fin q) =
     (if q = 0 then (if p = 0 then NaN else Inf (p < 0)) else rnd (p / q))"
| "ddiv NaN _ = NaN"
| "ddiv _ NaN = NaN"
| "ddiv (Inf s) (Inf t) = NaN"
| "ddiv (Inf s) (Fin q) = Inf (s \<noteq> (q < 0))"
| "ddiv (Fin p) (Inf t) = Fin 0"

text \<open>Comparisons are false when an operand is not a number.\<close>

fun dlt :: "double \<Rightarrow> double \<Rightarrow> bool" where
  "dlt (Fin p) (Fin q) = (p < q)"
| "dlt (Fin _) (Inf t) = (\<not> t)"
| "dlt (Inf s) (Fin _) = s"
| "dlt (Inf s) (Inf t) = (s \<and> \<not> t)"
| "dlt NaN _ = False"
| "dlt _ NaN = False"

fun deq :: "double \<Rightarrow> double \<Rightarrow> bool" where
  "deq NaN _ = False"
| "deq _ NaN = False"
| "deq x y = (x = y)"

definition dle :: "double \<Rightarrow> double \<Rightarrow> bool" where
  "dle x y = (dlt x y \<or> deq x y)"

text \<open>
  The integer square root with \<open>k\<close> result bits, and from it the correctly rounded
  \<open>sqrt\<close>: the argument is scaled by an even power of two to at least \<open>2 ^ 104\<close>, so the
  integer root carries 53 digits, and the remainder decides the rounding.
\<close>

fun isqrt_bits :: "nat \<Rightarrow> int \<Rightarrow> int \<Rightarrow> int" where
  "isqrt_bits 0 n r = r"
| "isqrt_bits (Suc k) n r =
     (let r' = r + 2 ^ k in isqrt_bits k n (if r' * r' \<le> n then r' else r))"

definition sqrt_rat :: "rat \<Rightarrow> double" where
  "sqrt_rat q =
     (let e = ilog2 q div 2 - 52;
          s = q / 2 powi (2 * e);
          m = isqrt_bits 54 \<lfloor>s\<rfloor> 0;
          h = of_int m + 1 / 2
      in rnd (of_int (if s < h * h then m else m + 1) * 2 powi e))"

fun dsqrt :: "double \<Rightarrow> double" where
  "dsqrt NaN = NaN"
| "dsqrt (Inf s) = (if s then NaN else Inf False)"
| "dsqrt (Fin q) = (if q < 0 then NaN else if q = 0 then Fin 0 else sqrt_rat q)"

text \<open>Conversions: \<open>(double)i\<close>, and \<open>(unsigned int)x\<close>, undefined outside 32 bits.\<close>

definition of_int_d :: "int \<Rightarrow> double" where
  "of_int_d i = rnd (of_int i)"

fun to_uint :: "double \<Rightarrow> nat option" where
  "to_uint (Fin q) = (if - 1 < q \<and> q < 2 ^ 32 then Some (nat \<lfloor>q\<rfloor>) else None)"
| "to_uint _ = None"

definition M_PI :: double where
  "M_PI = Fin (884279719003555 / 281474976710656)"

definition two_pi :: double where
  "two_pi = Fin (884279719003555 / 140737488355328)"

subsection \<open>Facts about rounding\<close>

lemma powi_2_pos [simp]: "(0::rat) < 2 powi k"
  by (simp add: zero_less_power_int)

lemma ilog2_le:
  assumes "0 < r"
  shows "2 powi (ilog2 r) \<le> r"
proof -
  obtain a b where ab: "quotient_of r = (a, b)" by (cases "quotient_of r")
  have b: "0 < b" using quotient_of_denom_pos [OF ab] .
  have r: "r = of_int a / of_int b" using quotient_of_div [OF ab] .
  have a: "0 < a" using assms b r by (simp add: zero_less_divide_iff)
  have abit: "2 ^ nat (bitlen a - 1) \<le> a" and bbit: "b < 2 ^ nat (bitlen b)"
    using bitlen_bounds [OF a] bitlen_bounds [OF b] by simp_all
  have la: "1 \<le> bitlen a" using a bitlen_nonneg [of a] bitlen_eq_zero_iff [of a] by linarith
  have lb: "0 \<le> bitlen b" by (rule bitlen_nonneg)
  have "(2::rat) powi (bitlen a - 1) = of_int (2 ^ nat (bitlen a - 1))"
    using la by (simp add: power_int_def)
  also have "\<dots> \<le> of_int a" using abit by (simp only: of_int_le_iff)
  finally have pa: "(2::rat) powi (bitlen a - 1) \<le> of_int a" .
  have "of_int b < (of_int (2 ^ nat (bitlen b)) :: rat)" using bbit by (simp only: of_int_less_iff)
  also have "\<dots> = 2 powi bitlen b" using lb by (simp add: power_int_def)
  finally have pb: "(of_int b :: rat) < 2 powi bitlen b" .
  have "(2::rat) powi (bitlen a - bitlen b - 1) = 2 powi (bitlen a - 1) / 2 powi bitlen b"
    by (simp add: power_int_diff [symmetric] algebra_simps)
  also have "\<dots> \<le> of_int a / of_int b"
    using pa pb a b by (intro frac_le) auto
  finally have "(2::rat) powi (bitlen a - bitlen b - 1) \<le> r" using r by simp
  then show ?thesis by (simp add: ilog2_def ab Let_def)
qed

lemma ilog2_less:
  assumes "0 < r"
  shows "r < 2 powi (ilog2 r + 1)"
proof -
  obtain a b where ab: "quotient_of r = (a, b)" by (cases "quotient_of r")
  have b: "0 < b" using quotient_of_denom_pos [OF ab] .
  have r: "r = of_int a / of_int b" using quotient_of_div [OF ab] .
  have a: "0 < a" using assms b r by (simp add: zero_less_divide_iff)
  have abit: "a < 2 ^ nat (bitlen a)" and bbit: "2 ^ nat (bitlen b - 1) \<le> b"
    using bitlen_bounds [OF a] bitlen_bounds [OF b] by simp_all
  have lb: "1 \<le> bitlen b" using b bitlen_nonneg [of b] bitlen_eq_zero_iff [of b] by linarith
  have la: "0 \<le> bitlen a" by (rule bitlen_nonneg)
  have "(2::rat) powi (bitlen b - 1) = of_int (2 ^ nat (bitlen b - 1))"
    using lb by (simp add: power_int_def)
  also have "\<dots> \<le> of_int b" using bbit by (simp only: of_int_le_iff)
  finally have pb: "(2::rat) powi (bitlen b - 1) \<le> of_int b" .
  have "of_int a < (of_int (2 ^ nat (bitlen a)) :: rat)" using abit by (simp only: of_int_less_iff)
  also have "\<dots> = 2 powi bitlen a" using la by (simp add: power_int_def)
  finally have pa: "(of_int a :: rat) < 2 powi bitlen a" .
  have "r < 2 powi bitlen a / 2 powi (bitlen b - 1)"
    unfolding r using pa pb a b by (intro frac_less) auto
  also have "\<dots> = 2 powi (bitlen a - bitlen b + 1)"
    by (simp add: power_int_diff [symmetric] algebra_simps)
  finally have "r < 2 powi (bitlen a - bitlen b + 1)" .
  then show ?thesis by (simp add: ilog2_def ab Let_def)
qed

lemma ilog2_eqI:
  assumes "2 powi k \<le> r" and "r < 2 powi (k + 1)"
  shows "ilog2 r = k"
proof -
  have pos: "0 < r" using assms(1) powi_2_pos [of k] by linarith
  have "(2::rat) powi ilog2 r < 2 powi (k + 1)" using ilog2_le [OF pos] assms(2) by linarith
  then have "ilog2 r < k + 1" by (meson linorder_not_less one_le_numeral power_int_increasing)
  moreover have "(2::rat) powi k < 2 powi (ilog2 r + 1)" using ilog2_less [OF pos] assms(1) by linarith
  then have "k < ilog2 r + 1" by (meson linorder_not_less one_le_numeral power_int_increasing)
  ultimately show ?thesis by simp
qed

lemma rne_of_int [simp]: "rne (of_int n) = n"
  by (simp add: rne_def)

lemma rnd_0 [simp]: "rnd 0 = Fin 0"
  by (simp add: rnd_def)

lemma rne_eqI:
  assumes "\<bar>q - of_int n\<bar> < 1 / 2"
  shows "rne q = n"
proof (cases "of_int n \<le> q")
  case True
  then have "\<lfloor>q\<rfloor> = n" using assms by (intro floor_unique) linarith+
  then show ?thesis using assms True by (simp add: rne_def)
next
  case False
  then have "\<lfloor>q\<rfloor> = n - 1" using assms by (intro floor_unique) (simp; linarith)+
  then show ?thesis using assms False by (simp add: rne_def)
qed

text \<open>Evaluating a rounding: the exponent and the rounded significand are given and checked.\<close>

lemma rnd_eval:
  assumes "2 powi k \<le> \<bar>q\<bar>" and "\<bar>q\<bar> < 2 powi (k + 1)" and "- 1022 \<le> k" and "k < 1023"
    and "\<bar>q / 2 powi (k - 52) - of_int n\<bar> < 1 / 2"
  shows "rnd q = Fin (of_int n * 2 powi (k - 52))"
proof -
  have "q \<noteq> 0" using assms(1) powi_2_pos [of k] by (metis abs_zero leD)
  moreover have "max (ilog2 \<bar>q\<bar> - 52) (-1074) = k - 52" using ilog2_eqI [OF assms(1,2)] assms(3) by simp
  ultimately show ?thesis using rne_eqI [OF assms(5)] assms(4) by (simp add: rnd_def Let_def)
qed

text \<open>Integers of at most 53 binary digits are exact.\<close>

lemma rnd_of_int:
  assumes "\<bar>n\<bar> < 2 ^ 53"
  shows "rnd (of_int n) = Fin (of_int n)"
proof (cases "n = 0")
  case False
  let ?q = "of_int n :: rat"
  have pos: "0 < \<bar>?q\<bar>" using False by simp
  have "2 powi (ilog2 \<bar>?q\<bar>) \<le> \<bar>?q\<bar>" by (rule ilog2_le [OF pos])
  also have "\<dots> < 2 ^ 53"
    using assms by (metis of_int_abs of_int_less_numeral_power_cancel_iff)
  also have "\<dots> = (2::rat) powi 53" by simp
  finally have "ilog2 \<bar>?q\<bar> < 53"
    by (meson linorder_not_less one_le_numeral power_int_increasing)
  define e where "e = max (ilog2 \<bar>?q\<bar> - 52) (-1074)"
  have e: "e \<le> 0" using \<open>ilog2 \<bar>?q\<bar> < 53\<close> by (simp add: e_def)
  have scale: "?q / 2 powi e = of_int (n * 2 ^ nat (- e))"
    using e by (simp add: power_int_def field_simps power_inverse)
  have "of_int (n * 2 ^ nat (- e)) * (2::rat) powi e = ?q"
    using e by (simp add: power_int_def field_simps power_inverse)
  then have v: "of_int (rne (?q / 2 powi e)) * 2 powi e = ?q"
    by (simp only: scale rne_of_int)
  show ?thesis using False v e unfolding rnd_def e_def [symmetric] Let_def by simp
qed simp

lemma rnd_not_NaN [simp]: "rnd q \<noteq> NaN"
  by (simp add: rnd_def Let_def)

subsection \<open>Facts about comparison\<close>

lemma dlt_irrefl [simp]: "\<not> dlt x x"
  by (cases x) auto

lemma dlt_trans: "dlt x y \<Longrightarrow> dlt y z \<Longrightarrow> dlt x z"
  by (cases x; cases y; cases z) auto

lemma dlt_asym: "dlt x y \<Longrightarrow> \<not> dlt y x"
  using dlt_trans dlt_irrefl by blast

lemma dle_not_dlt: "dle x y \<Longrightarrow> \<not> dlt y x"
  by (cases x; cases y) (auto simp: dle_def)

lemma not_dlt_trans:
  "y \<noteq> NaN \<Longrightarrow> \<not> dlt x y \<Longrightarrow> \<not> dlt y z \<Longrightarrow> \<not> dlt x z"
  by (cases x; cases y; cases z) auto

lemma dlt_NaN [simp]: "\<not> dlt x NaN" "\<not> dlt NaN x"
  by (cases x; simp)+

lemma deq_refl [simp]: "deq x x \<longleftrightarrow> x \<noteq> NaN"
  by (cases x) auto

lemma deq_iff: "deq x y \<longleftrightarrow> x = y \<and> x \<noteq> NaN"
  by (cases x; cases y) auto

subsection \<open>The type \<open>float\<close>\<close>

text \<open>
  \<open>float\<close> (binary32) values are held in the same datatype; the operations round to 24
  significant binary digits. Only what the program computes with them is here.
\<close>

definition rnd32 :: "rat \<Rightarrow> double" where
  "rnd32 q = (if q = 0 then Fin 0
            else let e = max (ilog2 \<bar>q\<bar> - 23) (-149);
                     n = rne (q / 2 powi e)
                 in if 104 < e \<or> e = 104 \<and> 2 ^ 24 \<le> \<bar>n\<bar> then Inf (q < 0)
                    else Fin (of_int n * 2 powi e))"

text \<open>The powers of two in a form that evaluates quickly.\<close>

definition pow2 :: "int \<Rightarrow> rat" where
  "pow2 e = (if 0 \<le> e then of_int (2 ^ nat e) else 1 / of_int (2 ^ nat (- e)))"

lemma pow2_eq: "pow2 e = 2 powi e"
  by (simp add: pow2_def power_int_def power_one_over inverse_eq_divide)

lemmas pow2_code [code] =
  rnd_def [unfolded pow2_eq [symmetric]] rnd32_def [unfolded pow2_eq [symmetric]]
  ilog2_def [unfolded pow2_eq [symmetric]] sqrt_rat_def [unfolded pow2_eq [symmetric]]

text \<open>Integers of at most 24 binary digits are exact.\<close>

lemma rnd32_of_int:
  assumes "\<bar>n\<bar> < 2 ^ 24"
  shows "rnd32 (of_int n) = Fin (of_int n)"
proof (cases "n = 0")
  case False
  let ?q = "of_int n :: rat"
  have pos: "0 < \<bar>?q\<bar>" using False by simp
  have "2 powi (ilog2 \<bar>?q\<bar>) \<le> \<bar>?q\<bar>" by (rule ilog2_le [OF pos])
  also have "\<dots> < 2 ^ 24"
    using assms by (metis of_int_abs of_int_less_numeral_power_cancel_iff)
  also have "\<dots> = (2::rat) powi 24" by simp
  finally have "ilog2 \<bar>?q\<bar> < 24"
    by (meson linorder_not_less one_le_numeral power_int_increasing)
  define e where "e = max (ilog2 \<bar>?q\<bar> - 23) (-149)"
  have e: "e \<le> 0" using \<open>ilog2 \<bar>?q\<bar> < 24\<close> by (simp add: e_def)
  have scale: "?q / 2 powi e = of_int (n * 2 ^ nat (- e))"
    using e by (simp add: power_int_def field_simps power_inverse)
  have "of_int (n * 2 ^ nat (- e)) * (2::rat) powi e = ?q"
    using e by (simp add: power_int_def field_simps power_inverse)
  then have v: "of_int (rne (?q / 2 powi e)) * 2 powi e = ?q"
    by (simp only: scale rne_of_int)
  show ?thesis using False v e unfolding rnd32_def e_def [symmetric] Let_def by simp
qed (simp add: rnd32_def)

text \<open>The 64 integers below \<open>2 ^ 31\<close> are rounded up to it.\<close>

lemma rnd32_below_int_max:
  assumes "2147483584 \<le> n" and "n < 2147483648"
  shows "rnd32 (of_int n) = Fin 2147483648"
proof -
  let ?q = "of_int n :: rat"
  have q: "2147483584 \<le> ?q" "?q < 2147483648"
    using assms by (metis of_int_le_iff of_int_numeral, metis of_int_less_iff of_int_numeral)
  have "ilog2 ?q = 30" by (rule ilog2_eqI) (use q in simp_all)
  moreover have pos: "\<bar>?q\<bar> = ?q" "?q \<noteq> 0" using q by linarith+
  ultimately have e: "max (ilog2 \<bar>?q\<bar> - 23) (-149) = 7" by simp
  have "\<lfloor>?q / 128\<rfloor> = 16777215" using q by (intro floor_unique) simp_all
  then have "rne (?q / 2 powi 7) = 16777216" using q by (simp add: rne_def Let_def)
  then show ?thesis unfolding rnd32_def Let_def e using pos(2) by simp
qed

definition of_int_f :: "int \<Rightarrow> double" where
  "of_int_f i = rnd32 (of_int i)"

fun fmul :: "double \<Rightarrow> double \<Rightarrow> double" where
  "fmul (Fin p) (Fin q) = rnd32 (p * q)"
| "fmul x y = dmul x y"

fun fdiv :: "double \<Rightarrow> double \<Rightarrow> double" where
  "fdiv (Fin p) (Fin q) = (if q = 0 then ddiv (Fin p) (Fin q) else rnd32 (p / q))"
| "fdiv x y = ddiv x y"

text \<open>\<open>(int)x\<close>: towards zero, undefined outside 32 bits.\<close>

fun to_int :: "double \<Rightarrow> int option" where
  "to_int (Fin q) =
     (let i = (if q < 0 then \<lceil>q\<rceil> else \<lfloor>q\<rfloor>)
      in if - (2 ^ 31) \<le> i \<and> i < 2 ^ 31 then Some i else None)"
| "to_int _ = None"

end
