(* ===== verification/ConfigSpace.thy ===== *)
theory ConfigSpace
  imports Binary64
begin

text \<open>
  \<open>hrplib/hrpPlanner/Configuration.{h,cpp}\<close> and \<open>ConfigurationSpace.{h,cpp}\<close>: a robot
  posture as a vector of joint values, and the space of postures with its bounds, weights
  and unbounded rotations. Vector accesses are range checked: outside the vector the C++ is
  undefined, here \<open>None\<close>. Sizes (\<open>unsigned int\<close>) are natural numbers; a vector of
  \<open>2 ^ 32\<close> or more doubles is not considered.
\<close>

section \<open>Configuration\<close>

record Configuration =
  m_values :: "double list"

text \<open>The constructor: \<open>m_values.resize (n)\<close> fills with \<open>0.0\<close>.\<close>

definition Configuration_new :: "nat \<Rightarrow> Configuration" where
  "Configuration_new n = \<lparr>m_values = replicate n (Fin 0)\<rparr>"

definition cfg_value :: "Configuration \<Rightarrow> nat \<Rightarrow> double option" where
  "cfg_value cfg i = elem_at (m_values cfg) i"

definition cfg_set_value :: "Configuration \<Rightarrow> nat \<Rightarrow> double \<Rightarrow> Configuration option" where
  "cfg_set_value cfg i v =
     do { vs \<leftarrow> put (m_values cfg) i v; Some (cfg\<lparr>m_values := vs\<rparr>) }"

definition cfg_size :: "Configuration \<Rightarrow> nat" where
  "cfg_size cfg = length (m_values cfg)"

text \<open>The loops of \<open>operator!=\<close> and \<open>operator==\<close> return at the first difference.\<close>

fun neq_loop :: "double list \<Rightarrow> double list \<Rightarrow> bool" where
  "neq_loop (x # xs) (y # ys) = (if \<not> deq x y then True else neq_loop xs ys)"
| "neq_loop _ _ = False"

definition cfg_neq :: "Configuration \<Rightarrow> Configuration \<Rightarrow> bool" where
  "cfg_neq a b =
     (if cfg_size a \<noteq> cfg_size b then True else neq_loop (m_values a) (m_values b))"

fun eq_loop :: "double list \<Rightarrow> double list \<Rightarrow> bool" where
  "eq_loop (x # xs) (y # ys) = (if \<not> deq x y then False else eq_loop xs ys)"
| "eq_loop _ _ = True"

definition cfg_eq :: "Configuration \<Rightarrow> Configuration \<Rightarrow> bool" where
  "cfg_eq a b =
     (if cfg_size a \<noteq> cfg_size b then False else eq_loop (m_values a) (m_values b))"

section \<open>ConfigurationSpace\<close>

record ConfigurationSpace =
  m_size :: nat
  m_ubounds :: "double list"
  m_lbounds :: "double list"
  m_weights :: "double list"
  m_isUnboundedRotation :: "bool list"

definition ConfigurationSpace_new :: "nat \<Rightarrow> ConfigurationSpace" where
  "ConfigurationSpace_new n =
     \<lparr>m_size = n, m_ubounds = replicate n (Fin 0), m_lbounds = replicate n (Fin 0),
      m_weights = replicate n (Fin 1), m_isUnboundedRotation = replicate n False\<rparr>"

definition cs_weight :: "ConfigurationSpace \<Rightarrow> nat \<Rightarrow> double option" where
  "cs_weight cs i = elem_at (m_weights cs) i"

definition cs_set_weight :: "ConfigurationSpace \<Rightarrow> nat \<Rightarrow> double \<Rightarrow> ConfigurationSpace option" where
  "cs_set_weight cs i w = do { ws \<leftarrow> put (m_weights cs) i w; Some (cs\<lparr>m_weights := ws\<rparr>) }"

definition cs_bounds :: "ConfigurationSpace \<Rightarrow> nat \<Rightarrow> double \<Rightarrow> double \<Rightarrow> ConfigurationSpace option" where
  "cs_bounds cs i mn mx =
     do { us \<leftarrow> put (m_ubounds cs) i mx;
          ls \<leftarrow> put (m_lbounds cs) i mn;
          Some (cs\<lparr>m_ubounds := us, m_lbounds := ls\<rparr>) }"

definition cs_ubound :: "ConfigurationSpace \<Rightarrow> nat \<Rightarrow> double option" where
  "cs_ubound cs i = elem_at (m_ubounds cs) i"

definition cs_lbound :: "ConfigurationSpace \<Rightarrow> nat \<Rightarrow> double option" where
  "cs_lbound cs i = elem_at (m_lbounds cs) i"

definition cs_set_unboundedRotation :: "ConfigurationSpace \<Rightarrow> nat \<Rightarrow> bool \<Rightarrow> ConfigurationSpace option" where
  "cs_set_unboundedRotation cs i b =
     do { rs \<leftarrow> put (m_isUnboundedRotation cs) i b; Some (cs\<lparr>m_isUnboundedRotation := rs\<rparr>) }"

definition cs_unboundedRotation :: "ConfigurationSpace \<Rightarrow> nat \<Rightarrow> bool option" where
  "cs_unboundedRotation cs i = elem_at (m_isUnboundedRotation cs) i"

definition cs_size :: "ConfigurationSpace \<Rightarrow> nat" where
  "cs_size cs = m_size cs"

text \<open>
  \<open>isValid\<close>: the loop from index \<open>i\<close> on, \<open>k\<close> iterations left. A dof of weight zero is
  skipped (a weight that is not a number is not zero), an unbounded rotation is not
  compared.
\<close>

fun isValid_loop :: "ConfigurationSpace \<Rightarrow> Configuration \<Rightarrow> nat \<Rightarrow> nat \<Rightarrow> bool option" where
  "isValid_loop cs cfg 0 i = Some True"
| "isValid_loop cs cfg (Suc k) i =
     do { w \<leftarrow> cs_weight cs i;
          if deq w (Fin 0) then isValid_loop cs cfg k (Suc i)
          else do {
            v \<leftarrow> cfg_value cfg i;
            unb \<leftarrow> elem_at (m_isUnboundedRotation cs) i;
            if \<not> unb then do {
              u \<leftarrow> elem_at (m_ubounds cs) i;
              l \<leftarrow> elem_at (m_lbounds cs) i;
              if dlt u v \<or> dlt v l then Some False else isValid_loop cs cfg k (Suc i) }
            else isValid_loop cs cfg k (Suc i) } }"

definition isValid :: "ConfigurationSpace \<Rightarrow> Configuration \<Rightarrow> bool option" where
  "isValid cs cfg =
     (if m_size cs \<noteq> cfg_size cfg then Some False else isValid_loop cs cfg (m_size cs) 0)"

text \<open>
  \<open>random ()\<close>: \<open>rand ()\<close> and \<open>RAND_MAX\<close> are the C library's; the state of the generator
  is the number of calls made, \<open>rand_seq k\<close> the value of call \<open>k\<close>.
\<close>

record rand_source =
  RAND_MAX :: nat
  rand_seq :: "nat \<Rightarrow> nat"

definition rand_unit :: "rand_source \<Rightarrow> nat \<Rightarrow> double" where
  "rand_unit src k = ddiv (of_int_d (int (rand_seq src k))) (of_int_d (int (RAND_MAX src)))"

fun random_loop :: "ConfigurationSpace \<Rightarrow> rand_source \<Rightarrow> nat \<Rightarrow> nat \<Rightarrow> nat \<Rightarrow> Configuration \<Rightarrow> (Configuration \<times> nat) option" where
  "random_loop cs src 0 i k cfg = Some (cfg, k)"
| "random_loop cs src (Suc n) i k cfg =
     do { unb \<leftarrow> elem_at (m_isUnboundedRotation cs) i;
          cfg' \<leftarrow> (if unb
                   then cfg_set_value cfg i (dmul (dmul (rand_unit src k) (Fin 2)) M_PI)
                   else do {
                     u \<leftarrow> elem_at (m_ubounds cs) i;
                     l \<leftarrow> elem_at (m_lbounds cs) i;
                     cfg_set_value cfg i (dadd (dmul (rand_unit src k) (dsub u l)) l) });
          random_loop cs src n (Suc i) (Suc k) cfg' }"

definition cs_random :: "ConfigurationSpace \<Rightarrow> rand_source \<Rightarrow> nat \<Rightarrow> (Configuration \<times> nat) option" where
  "cs_random cs src k = random_loop cs src (m_size cs) 0 k (Configuration_new (m_size cs))"

section \<open>Properties\<close>

subsection \<open>The comparison operators\<close>

lemma neq_loop_eq_loop: "neq_loop xs ys = (\<not> eq_loop xs ys)"
  by (induction xs ys rule: neq_loop.induct) auto

lemma eq_loop_iff: "length xs = length ys \<Longrightarrow> eq_loop xs ys \<longleftrightarrow> xs = ys \<and> NaN \<notin> set xs"
  by (induction xs ys rule: list_induct2) (auto simp: deq_iff)

lemma cfg_eq_iff: "cfg_eq a b \<longleftrightarrow> a = b \<and> NaN \<notin> set (m_values a)"
  by (cases a; cases b) (auto simp: cfg_eq_def cfg_size_def eq_loop_iff)

text \<open>
  \<open>operator==\<close> and \<open>operator!=\<close> are complementary, and two configurations compare equal
  exactly when they are the same vector of numbers with no NaN in it.
\<close>

lemma cfg_comparison:
  "cfg_neq a b = (\<not> cfg_eq a b) \<and> (cfg_eq a b \<longleftrightarrow> a = b \<and> NaN \<notin> set (m_values a))"
proof
  show "cfg_neq a b = (\<not> cfg_eq a b)"
    by (simp add: cfg_neq_def cfg_eq_def neq_loop_eq_loop)
qed (rule cfg_eq_iff)

subsection \<open>Well-formed spaces\<close>

definition cs_wf :: "ConfigurationSpace \<Rightarrow> bool" where
  "cs_wf cs \<longleftrightarrow> length (m_ubounds cs) = m_size cs \<and> length (m_lbounds cs) = m_size cs
     \<and> length (m_weights cs) = m_size cs \<and> length (m_isUnboundedRotation cs) = m_size cs"

lemma cs_wf_new: "cs_wf (ConfigurationSpace_new n)"
  by (simp add: cs_wf_def ConfigurationSpace_new_def)

lemma cs_wf_bounds: "cs_wf cs \<Longrightarrow> cs_bounds cs i mn mx = Some cs' \<Longrightarrow> cs_wf cs'"
  by (auto simp: cs_wf_def cs_bounds_def bind_Some_iff dest!: put_SomeD)

lemma cs_wf_weight: "cs_wf cs \<Longrightarrow> cs_set_weight cs i w = Some cs' \<Longrightarrow> cs_wf cs'"
  by (auto simp: cs_wf_def cs_set_weight_def bind_Some_iff dest!: put_SomeD)

lemma cs_wf_unbounded: "cs_wf cs \<Longrightarrow> cs_set_unboundedRotation cs i b = Some cs' \<Longrightarrow> cs_wf cs'"
  by (auto simp: cs_wf_def cs_set_unboundedRotation_def bind_Some_iff dest!: put_SomeD)

text \<open>What \<open>isValid\<close> decides about one degree of freedom.\<close>

definition dof_ok :: "ConfigurationSpace \<Rightarrow> Configuration \<Rightarrow> nat \<Rightarrow> bool" where
  "dof_ok cs cfg i \<longleftrightarrow> deq (m_weights cs ! i) (Fin 0) \<or> m_isUnboundedRotation cs ! i
     \<or> (\<not> dlt (m_ubounds cs ! i) (m_values cfg ! i) \<and> \<not> dlt (m_values cfg ! i) (m_lbounds cs ! i))"

lemma isValid_loop_spec:
  assumes "cs_wf cs" and "cfg_size cfg = m_size cs"
  shows "i + k \<le> m_size cs \<Longrightarrow>
    isValid_loop cs cfg k i = Some (\<forall>j. i \<le> j \<and> j < i + k \<longrightarrow> dof_ok cs cfg j)"
proof (induction k arbitrary: i)
  case (Suc k)
  have i: "i < m_size cs" using Suc.prems by simp
  have split: "(\<forall>j. i \<le> j \<and> j < i + Suc k \<longrightarrow> dof_ok cs cfg j) \<longleftrightarrow>
      dof_ok cs cfg i \<and> (\<forall>j. Suc i \<le> j \<and> j < Suc i + k \<longrightarrow> dof_ok cs cfg j)"
    by (metis Suc_leD Suc_le_lessD add_Suc add_Suc_right le_eq_less_or_eq less_add_Suc1
        linorder_not_less not_less_eq_eq)
  have IH: "isValid_loop cs cfg k (Suc i) =
      Some (\<forall>j. Suc i \<le> j \<and> j < Suc i + k \<longrightarrow> dof_ok cs cfg j)"
    using Suc.prems by (intro Suc.IH) simp
  show ?case
    using i assms unfolding split
    by (auto simp: IH cs_wf_def cs_weight_def cfg_value_def cfg_size_def dof_ok_def)
qed auto

lemma isValid_eq:
  assumes "cs_wf cs"
  shows "isValid cs cfg = Some (cfg_size cfg = m_size cs \<and> (\<forall>i < m_size cs. dof_ok cs cfg i))"
  using isValid_loop_spec [OF assms, of cfg 0 "m_size cs"] by (auto simp: isValid_def)

lemma not_dlt_dle: "x \<noteq> NaN \<Longrightarrow> y \<noteq> NaN \<Longrightarrow> \<not> dlt x y \<Longrightarrow> dle y x"
  by (cases x; cases y) (auto simp: dle_def)

text \<open>
  What the comment in \<open>ConfigurationSpace.h\<close> promises to test: every element is inside its
  valid range (an unbounded rotation has none).
\<close>

definition all_in_range :: "ConfigurationSpace \<Rightarrow> Configuration \<Rightarrow> bool" where
  "all_in_range cs cfg \<longleftrightarrow> (\<forall>i < m_size cs. m_isUnboundedRotation cs ! i \<or>
     dle (m_lbounds cs ! i) (m_values cfg ! i) \<and> dle (m_values cfg ! i) (m_ubounds cs ! i))"

lemma all_in_range_ok: "all_in_range cs cfg \<Longrightarrow> i < m_size cs \<Longrightarrow> dof_ok cs cfg i"
  unfolding all_in_range_def dof_ok_def using dle_not_dlt by blast

lemma all_in_range_iff:
  assumes "\<forall>i < m_size cs. \<not> deq (m_weights cs ! i) (Fin 0)"
    and "\<forall>i < m_size cs. m_values cfg ! i \<noteq> NaN \<and> m_lbounds cs ! i \<noteq> NaN \<and> m_ubounds cs ! i \<noteq> NaN"
  shows "(\<forall>i < m_size cs. dof_ok cs cfg i) \<longleftrightarrow> all_in_range cs cfg"
  using assms all_in_range_ok [of cs cfg] not_dlt_dle unfolding dof_ok_def all_in_range_def by blast

lemma dof_ok_update:
  assumes "i < length (m_values cfg)"
    and "deq (m_weights cs ! i) (Fin 0) \<or> v = NaN \<and> dof_ok cs cfg i"
  shows "dof_ok cs (cfg\<lparr>m_values := (m_values cfg)[i := v]\<rparr>) j = dof_ok cs cfg j"
  using assms by (cases "j = i") (auto simp: dof_ok_def)

text \<open>
  C13: on a well-formed space \<open>isValid\<close> never reads outside a vector. It accepts the
  configurations of the space's size whose every dof is of weight zero, an unbounded rotation,
  or not above its upper and not below its lower bound. Every configuration all of whose
  elements are in range is accepted, and the two agree when no weight is zero and no value or
  bound is NaN; but a dof of weight zero may have any value, in range or not, and a NaN in an
  accepted configuration is accepted everywhere, so the test is weaker than its comment in
  \<open>ConfigurationSpace.h\<close> (all elements in the valid range) says.
\<close>

theorem isValid_spec:
  assumes "cs_wf cs"
  shows "isValid cs cfg =
      Some (cfg_size cfg = m_size cs \<and> (\<forall>i < m_size cs. dof_ok cs cfg i)) \<and>
    (cfg_size cfg = m_size cs \<and> all_in_range cs cfg \<longrightarrow> isValid cs cfg = Some True) \<and>
    ((\<forall>i < m_size cs. \<not> deq (m_weights cs ! i) (Fin 0)) \<and>
     (\<forall>i < m_size cs. m_values cfg ! i \<noteq> NaN \<and> m_lbounds cs ! i \<noteq> NaN \<and> m_ubounds cs ! i \<noteq> NaN) \<longrightarrow>
      isValid cs cfg = Some (cfg_size cfg = m_size cs \<and> all_in_range cs cfg)) \<and>
    (\<forall>i v. i < cfg_size cfg \<and> deq (m_weights cs ! i) (Fin 0) \<longrightarrow>
      isValid cs (cfg\<lparr>m_values := (m_values cfg)[i := v]\<rparr>) = isValid cs cfg) \<and>
    (\<forall>i. i < cfg_size cfg \<and> isValid cs cfg = Some True \<longrightarrow>
      isValid cs (cfg\<lparr>m_values := (m_values cfg)[i := NaN]\<rparr>) = Some True)"
proof (intro conjI impI allI)
  show eq: "isValid cs cfg = Some (cfg_size cfg = m_size cs \<and> (\<forall>i < m_size cs. dof_ok cs cfg i))"
    by (rule isValid_eq [OF assms])
  show "isValid cs cfg = Some True" if "cfg_size cfg = m_size cs \<and> all_in_range cs cfg"
    using that all_in_range_ok by (simp add: eq)
  show "isValid cs cfg = Some (cfg_size cfg = m_size cs \<and> all_in_range cs cfg)"
    if "(\<forall>i < m_size cs. \<not> deq (m_weights cs ! i) (Fin 0)) \<and>
      (\<forall>i < m_size cs. m_values cfg ! i \<noteq> NaN \<and> m_lbounds cs ! i \<noteq> NaN \<and> m_ubounds cs ! i \<noteq> NaN)"
    unfolding eq all_in_range_iff [OF conjunct1 [OF that] conjunct2 [OF that]] ..
  show "isValid cs (cfg\<lparr>m_values := (m_values cfg)[i := v]\<rparr>) = isValid cs cfg"
    if "i < cfg_size cfg \<and> deq (m_weights cs ! i) (Fin 0)" for i v
    using that dof_ok_update [of i cfg cs v] by (simp add: isValid_eq [OF assms] cfg_size_def)
  show "isValid cs (cfg\<lparr>m_values := (m_values cfg)[i := NaN]\<rparr>) = Some True"
    if "i < cfg_size cfg \<and> isValid cs cfg = Some True" for i
    using that dof_ok_update [of i cfg cs NaN] by (simp add: isValid_eq [OF assms] cfg_size_def)
qed

lemma cfg_size_set: "cfg_set_value cfg i v = Some cfg' \<Longrightarrow> cfg_size cfg' = cfg_size cfg"
  by (auto simp: cfg_set_value_def cfg_size_def bind_Some_iff dest!: put_SomeD)

lemma random_loop_total:
  assumes "cs_wf cs"
  shows "cfg_size cfg = m_size cs \<Longrightarrow> i + n \<le> m_size cs \<Longrightarrow>
    \<exists>cfg'. random_loop cs src n i k cfg = Some (cfg', k + n) \<and> cfg_size cfg' = m_size cs"
proof (induction n arbitrary: i k cfg)
  case (Suc n)
  have i: "i < m_size cs" using Suc.prems by simp
  define v where "v = (if m_isUnboundedRotation cs ! i
      then dmul (dmul (rand_unit src k) (Fin 2)) M_PI
      else dadd (dmul (rand_unit src k) (dsub (m_ubounds cs ! i) (m_lbounds cs ! i))) (m_lbounds cs ! i))"
  obtain cfg1 where c1: "cfg_set_value cfg i v = Some cfg1"
    using i Suc.prems by (simp add: cfg_set_value_def cfg_size_def)
  have step: "random_loop cs src (Suc n) i k cfg = random_loop cs src n (Suc i) (Suc k) cfg1"
    using i assms c1 by (cases "m_isUnboundedRotation cs ! i") (simp_all add: cs_wf_def v_def)
  show ?case
    unfolding step
    using Suc.IH [of cfg1 "Suc i" "Suc k"] cfg_size_set [OF c1] Suc.prems by simp
qed simp

text \<open>\<open>random ()\<close> returns a configuration of the right size after one \<open>rand ()\<close> per dof.\<close>

lemma cs_random_total:
  assumes "cs_wf cs"
  shows "\<exists>cfg. cs_random cs src k = Some (cfg, k + m_size cs) \<and> cfg_size cfg = m_size cs"
  using random_loop_total [OF assms, of "Configuration_new (m_size cs)" 0 "m_size cs"]
  by (simp add: cs_random_def Configuration_new_def cfg_size_def)

end
