(* ===== verification/CollisionCheck.thy ===== *)
theory CollisionCheck
  imports ConfigSpace
begin

text \<open>
  The collision checking part of \<open>PathPlanner\<close> (\<open>hrplib/hrpPlanner/PathPlanner.{h,cpp}\<close>):
  applying a configuration to the robot, the check of one posture with the custom or the
  default detector, and the check of a whole path, which visits the interior
  configurations in a coarse-to-fine order.

  The simulated world (link positions, collision models) is a type parameter \<open>'w\<close>. What
  the planner calls on it (\<open>m_applyConfigFunc\<close>, the virtual methods of
  \<open>CollisionDetector\<close>, \<open>hrp::ColdetModelPair\<close>, \<open>hrp::Body\<close>) is a field of the records
  below. The debug mode (\<open>debug_m\<close>, a CORBA viewer) is not modelled.
\<close>

section \<open>The planner's collision state\<close>

record 'w CollisionDetector =
  updatePositions :: "'w \<Rightarrow> 'w"
  detectorCheck :: "'w \<Rightarrow> bool"
  detectorPair :: "'w \<Rightarrow> string \<times> string"

record 'w ColdetModelPair =
  tolerance :: double
  pairCheckCollision :: "'w \<Rightarrow> bool"
  pairDetectIntersection :: "'w \<Rightarrow> bool"
  modelName0 :: string
  modelName1 :: string

record 'w Robot =
  numLinks :: nat
  setLinkPosition :: "nat \<Rightarrow> 'w \<Rightarrow> 'w"
  linkHitsPointCloud :: "nat \<Rightarrow> (double \<times> double \<times> double) list \<Rightarrow> double \<Rightarrow> 'w \<Rightarrow> bool"

text \<open>
  \<open>Mobility\<close> is abstract in the code: its virtual methods are fields here, \<open>None\<close> standing
  for a call that does not return (\<open>abort ()\<close>, an endless loop, an access outside a vector).
\<close>

record Mobility =
  isReversible :: bool
  interpolate :: "ConfigurationSpace \<Rightarrow> Configuration \<Rightarrow> Configuration \<Rightarrow> double \<Rightarrow> Configuration option"
  distance :: "ConfigurationSpace \<Rightarrow> Configuration \<Rightarrow> Configuration \<Rightarrow> double option"

text \<open>
  The fields of \<open>PathPlanner\<close> that collision checking and the mobilities use. Of the two
  \<open>TimeMeasure\<close> members only the call counts are kept; \<open>interpolationDistance_m\<close> is the
  static member of \<open>Mobility\<close>. Pointers that may be null are options.
\<close>

record 'w planner =
  m_applyConfigFunc :: "'w \<Rightarrow> Configuration \<Rightarrow> bool \<times> 'w"
  mobility_m :: "Mobility option"
  cspace_m :: ConfigurationSpace
  model_m :: "'w Robot option"
  world_m :: 'w
  timeCollisionCheck_calls :: nat
  timeForwardKinematics_calls :: nat
  checkPairs_m :: "'w ColdetModelPair list"
  pointCloud_m :: "(double \<times> double \<times> double) list"
  radius_m :: double
  collidingPair_m :: "string \<times> string"
  customCollisionDetector_m :: "'w CollisionDetector option"
  interpolationDistance_m :: double

section \<open>Checking one posture\<close>

definition setConfiguration :: "'w planner \<Rightarrow> Configuration \<Rightarrow> bool \<times> 'w planner" where
  "setConfiguration pl cfg =
     (let (ok, w) = m_applyConfigFunc pl (world_m pl) cfg in (ok, pl\<lparr>world_m := w\<rparr>))"

text \<open>
  The pairs in order, tolerance zero by the exact test, otherwise by the tolerance test;
  the first hit ends the loop and its names are recorded.
\<close>

fun pair_loop :: "'w \<Rightarrow> 'w ColdetModelPair list \<Rightarrow> (string \<times> string) option" where
  "pair_loop w [] = None"
| "pair_loop w (p # ps) =
     (if deq (tolerance p) (Fin 0) then
        (if pairCheckCollision p w then Some (modelName0 p, modelName1 p) else pair_loop w ps)
      else
        (if pairDetectIntersection p w then Some (modelName0 p, modelName1 p) else pair_loop w ps))"

definition defaultCheckCollision :: "'w planner \<Rightarrow> (bool \<times> 'w planner) option" where
  "defaultCheckCollision pl =
     (case model_m pl of
        None \<Rightarrow> None
      | Some m \<Rightarrow>
          let w = fold (setLinkPosition m) [0..<numLinks m] (world_m pl);
              pl1 = pl\<lparr>world_m := w,
                       timeForwardKinematics_calls := timeForwardKinematics_calls pl + 1,
                       timeCollisionCheck_calls := timeCollisionCheck_calls pl + 1\<rparr>
          in (case pair_loop w (checkPairs_m pl) of
                Some names \<Rightarrow> Some (True, pl1\<lparr>collidingPair_m := names\<rparr>)
              | None \<Rightarrow>
                  if pointCloud_m pl \<noteq> [] \<and>
                     list_ex (\<lambda>i. linkHitsPointCloud m i (pointCloud_m pl) (radius_m pl) w) [0..<numLinks m]
                  then Some (True, pl1)
                  else Some (False, pl1)))"

definition checkCollision_now :: "'w planner \<Rightarrow> (bool \<times> 'w planner) option" where
  "checkCollision_now pl =
     (case customCollisionDetector_m pl of
        Some cd \<Rightarrow>
          let w = updatePositions cd (world_m pl);
              ret = detectorCheck cd w;
              pl1 = pl\<lparr>world_m := w,
                       timeForwardKinematics_calls := timeForwardKinematics_calls pl + 1,
                       timeCollisionCheck_calls := timeCollisionCheck_calls pl + 1\<rparr>
          in Some (ret, if ret then pl1\<lparr>collidingPair_m := detectorPair cd w\<rparr> else pl1)
      | None \<Rightarrow> defaultCheckCollision pl)"

text \<open>A configuration that cannot be applied counts as colliding.\<close>

definition checkCollision_cfg :: "'w planner \<Rightarrow> Configuration \<Rightarrow> (bool \<times> 'w planner) option" where
  "checkCollision_cfg pl pos =
     (let (ok, pl1) = setConfiguration pl pos
      in if \<not> ok then Some (True, pl1) else checkCollision_now pl1)"

section \<open>Checking a path\<close>

text \<open>
  \<open>checkCollision (path)\<close> is written over the check of one configuration, \<open>chk\<close>. The inner
  loop visits \<open>step\<close>, \<open>2 * step\<close>, ...; with \<open>step = 0\<close> it would not end, so both loops are
  partial functions. Its result says whether a collision was found.
\<close>

partial_function (option) stride_loop ::
  "('s \<Rightarrow> Configuration \<Rightarrow> (bool \<times> 's) option) \<Rightarrow> Configuration list \<Rightarrow> nat \<Rightarrow> nat \<Rightarrow> nat \<Rightarrow> bool list \<Rightarrow> 's
     \<Rightarrow> (bool \<times> nat \<times> bool list \<times> 's) option" where
  "stride_loop chk path step i checked isVisited s =
     (if i < length path then
        do { v \<leftarrow> elem_at isVisited i;
             if \<not> v then
               do { (hit, s') \<leftarrow> chk s (path ! i);
                    if hit then Some (True, checked + 1, isVisited, s')
                    else stride_loop chk path step (i + step) (checked + 1) (isVisited[i := True]) s' }
             else stride_loop chk path step (i + step) checked isVisited s }
      else Some (False, checked, isVisited, s))"

declare stride_loop.simps [code]

partial_function (option) div_loop ::
  "('s \<Rightarrow> Configuration \<Rightarrow> (bool \<times> 's) option) \<Rightarrow> Configuration list \<Rightarrow> nat \<Rightarrow> nat \<Rightarrow> bool list \<Rightarrow> 's
     \<Rightarrow> (bool \<times> 's) option" where
  "div_loop chk path dv checked isVisited s =
     (if checked < length path - 1 \<or> 0 < length path div dv then
        do { (hit, checked', isVisited', s') \<leftarrow>
               stride_loop chk path (length path div dv) (length path div dv) checked isVisited s;
             if hit then Some (True, s') else div_loop chk path (dv + 1) checked' isVisited' s' }
      else Some (False, s))"

declare div_loop.simps [code]

text \<open>
  On the empty path \<open>path.size () - 1\<close> wraps to the largest \<open>size_t\<close> and the first loop
  never ends.
\<close>

definition path_check ::
  "('s \<Rightarrow> Configuration \<Rightarrow> (bool \<times> 's) option) \<Rightarrow> 's \<Rightarrow> Configuration list \<Rightarrow> (bool \<times> 's) option" where
  "path_check chk s path =
     (if path = [] then None
      else div_loop chk path 2 1 (replicate (length path - 1) False @ [True]) s)"

definition checkCollision_path :: "'w planner \<Rightarrow> Configuration list \<Rightarrow> (bool \<times> 'w planner) option" where
  "checkCollision_path pl path = path_check checkCollision_cfg pl path"

lemma div_loop_step:
  assumes "0 < length path div dv"
    and "stride_loop chk path (length path div dv) (length path div dv) checked vis s = Some (r, checked', vis', s')"
  shows "div_loop chk path dv checked vis s =
    (if r then Some (True, s') else div_loop chk path (dv + 1) checked' vis' s')"
  by (subst div_loop.simps) (simp only: assms simp_thms if_True bind.simps prod.case)

section \<open>The contract of the check of one configuration\<close>

text \<open>
  What the clients of the check rely on: it returns, it says whether the configuration is
  free, and it keeps what makes the next answers right.
\<close>

locale collision_oracle =
  fixes check :: "'s \<Rightarrow> Configuration \<Rightarrow> (bool \<times> 's) option"
    and free :: "Configuration \<Rightarrow> bool"
    and inv :: "'s \<Rightarrow> bool"
    and same :: "'s \<Rightarrow> 's \<Rightarrow> bool"
  assumes check: "inv s \<Longrightarrow> \<exists>s'. check s c = Some (\<not> free c, s') \<and> inv s' \<and> same s s'"
    and same_refl: "same s s"
    and same_trans: "same s t \<Longrightarrow> same t u \<Longrightarrow> same s u"
begin

definition interior_hit :: "Configuration list \<Rightarrow> bool" where
  "interior_hit path \<longleftrightarrow> (\<exists>i. 0 < i \<and> i < length path - 1 \<and> \<not> free (path ! i))"

text \<open>What holds of the counter and the flags between strides.\<close>

definition flags_ok :: "Configuration list \<Rightarrow> nat \<Rightarrow> bool list \<Rightarrow> bool" where
  "flags_ok path checked vis \<longleftrightarrow>
     length vis = length path \<and> path \<noteq> [] \<and> vis ! (length path - 1) \<and>
     checked = card {j. j < length path \<and> vis ! j} \<and>
     (\<forall>j < length path - 1. vis ! j \<longrightarrow> 0 < j \<and> free (path ! j))"

lemma flags_ok_mark:
  assumes "flags_ok path checked vis" and "0 < i" and "i < length path" and "\<not> vis ! i" and "free (path ! i)"
  shows "flags_ok path (checked + 1) (vis[i := True])"
proof -
  have "{j. j < length path \<and> vis[i := True] ! j} = insert i {j. j < length path \<and> vis ! j}"
    using assms by (auto simp: flags_ok_def nth_list_update)
  then have "card {j. j < length path \<and> vis[i := True] ! j} = checked + 1"
    using assms by (simp add: flags_ok_def)
  then show ?thesis
    using assms by (auto simp: flags_ok_def nth_list_update)
qed

lemma stride_loop_spec:
  assumes "0 < step"
  shows "inv s \<Longrightarrow> flags_ok path checked vis \<Longrightarrow> 0 < i \<Longrightarrow>
    \<exists>r checked' vis' s'. stride_loop check path step i checked vis s = Some (r, checked', vis', s')
      \<and> inv s' \<and> same s s'
      \<and> (if r then interior_hit path
         else flags_ok path checked' vis' \<and> (\<forall>j < length path. vis ! j \<longrightarrow> vis' ! j)
           \<and> (\<forall>k. i + k * step < length path \<longrightarrow> vis' ! (i + k * step)))"
proof (induction "length path - i" arbitrary: i checked vis s rule: less_induct)
  case less
  have shift: "i + k * step < length path \<longrightarrow> v ! (i + k * step)"
    if "v ! i" and "\<forall>k. i + step + k * step < length path \<longrightarrow> v ! (i + step + k * step)" for k v
    using that by (cases k) (auto simp: add.assoc)
  show ?case
  proof (cases "i < length path")
    case False
    then show ?thesis
      using less.prems by (subst stride_loop.simps) (auto simp: same_refl)
  next
    case True
    then have vis_i: "elem_at vis i = Some (vis ! i)"
      using less.prems by (simp add: flags_ok_def)
    have dec: "length path - (i + step) < length path - i" using True assms by simp
    show ?thesis
    proof (cases "vis ! i")
      case visited: True
      then have eq: "stride_loop check path step i checked vis s = stride_loop check path step (i + step) checked vis s"
        using True by (subst stride_loop.simps) (simp add: vis_i)
      obtain r checked' vis' s' where
        rec: "stride_loop check path step (i + step) checked vis s = Some (r, checked', vis', s')"
        and inv': "inv s'" and sm: "same s s'"
        and res: "if r then interior_hit path
           else flags_ok path checked' vis' \<and> (\<forall>j < length path. vis ! j \<longrightarrow> vis' ! j)
             \<and> (\<forall>k. i + step + k * step < length path \<longrightarrow> vis' ! (i + step + k * step))"
        using less.hyps [OF dec less.prems(1,2)] less.prems(3) by auto
      have "\<not> r \<Longrightarrow> vis' ! i" using res visited True by simp
      then show ?thesis
        unfolding eq rec using inv' sm res shift by (cases r) auto
    next
      case False
      then have interior: "i < length path - 1"
        using less.prems True by (cases "i = length path - 1") (auto simp: flags_ok_def)
      obtain s1 where s1: "check s (path ! i) = Some (\<not> free (path ! i), s1)" "inv s1" "same s s1"
        using check [OF less.prems(1)] by blast
      show ?thesis
      proof (cases "free (path ! i)")
        case notfree: False
        then have "interior_hit path" using interior less.prems(3) by (auto simp: interior_hit_def)
        then show ?thesis
          using True False s1 notfree by (subst stride_loop.simps) (auto simp: vis_i)
      next
        case isfree: True
        have eq: "stride_loop check path step i checked vis s =
            stride_loop check path step (i + step) (checked + 1) (vis[i := True]) s1"
          using True False s1 isfree by (subst stride_loop.simps) (simp add: vis_i)
        have fl: "flags_ok path (checked + 1) (vis[i := True])"
          using less.prems True False isfree by (intro flags_ok_mark)
        then have len: "length vis = length path" using less.prems by (simp add: flags_ok_def)
        obtain r checked' vis' s' where
          rec: "stride_loop check path step (i + step) (checked + 1) (vis[i := True]) s1 = Some (r, checked', vis', s')"
          and inv': "inv s'" and sm: "same s1 s'"
          and res: "if r then interior_hit path
             else flags_ok path checked' vis' \<and> (\<forall>j < length path. vis[i := True] ! j \<longrightarrow> vis' ! j)
               \<and> (\<forall>k. i + step + k * step < length path \<longrightarrow> vis' ! (i + step + k * step))"
          using less.hyps [OF dec s1(2) fl] less.prems(3) by (metis add_pos_pos assms)
        have "same s s'" using same_trans s1(3) sm by blast
        moreover have "\<not> r \<Longrightarrow> (\<forall>j < length path. vis ! j \<longrightarrow> vis' ! j) \<and> vis' ! i"
          using res True len by (auto simp: nth_list_update)
        ultimately show ?thesis
          unfolding eq rec using inv' res shift by (cases r) auto
      qed
    qed
  qed
qed

lemma div_loop_spec:
  assumes "0 < dv" "dv \<le> length path + 1"
  shows "inv s \<Longrightarrow> flags_ok path checked vis \<Longrightarrow>
    (dv = length path + 1 \<longrightarrow> (\<forall>j < length path. 0 < j \<longrightarrow> vis ! j)) \<Longrightarrow>
    \<exists>s'. div_loop check path dv checked vis s = Some (interior_hit path, s') \<and> inv s' \<and> same s s'"
  using assms
proof (induction "length path + 1 - dv" arbitrary: dv checked vis s)
  case 0
  let ?n = "length path"
  have dv: "dv = ?n + 1" using 0 by simp
  have all: "\<forall>j < ?n. 0 < j \<longrightarrow> vis ! j" using 0 dv by simp
  have ne: "path \<noteq> []" using 0 by (simp add: flags_ok_def)
  have set: "{j. j < ?n \<and> vis ! j} \<supseteq> {1..<?n}" using all by auto
  have "?n - 1 \<le> checked"
    using card_mono [OF _ set] 0 by (simp add: flags_ok_def)
  then have "div_loop check path dv checked vis s = Some (False, s)"
    using dv by (subst div_loop.simps) simp
  moreover have "\<forall>j < ?n - 1. vis ! j \<longrightarrow> free (path ! j)"
    using "0.prems"(2) by (simp add: flags_ok_def)
  then have "\<not> interior_hit path"
    unfolding interior_hit_def using all by (meson diff_le_self less_le_trans)
  ultimately show ?case using "0.prems"(1) same_refl by simp
next
  case (Suc m)
  let ?n = "length path" and ?step = "length path div dv"
  have le: "dv \<le> ?n" using Suc by simp
  then have step: "0 < ?step" using Suc.prems by (simp add: div_greater_zero_iff)
  obtain r checked' vis' s1 where
    run: "stride_loop check path ?step ?step checked vis s = Some (r, checked', vis', s1)"
    and s1: "inv s1" "same s s1"
    and res: "if r then interior_hit path
         else flags_ok path checked' vis' \<and> (\<forall>j < ?n. vis ! j \<longrightarrow> vis' ! j)
           \<and> (\<forall>k. ?step + k * ?step < ?n \<longrightarrow> vis' ! (?step + k * ?step))"
    using stride_loop_spec [OF step Suc.prems(1,2) step] by blast
  show ?case
  proof (cases r)
    case True
    then have hit: "interior_hit path" using res by simp
    have "div_loop check path dv checked vis s = Some (True, s1)"
      using div_loop_step [OF step run] True by simp
    then show ?thesis using hit s1 by simp
  next
    case False
    then have fl: "flags_ok path checked' vis'" using res by simp
    have last: "dv + 1 = ?n + 1 \<longrightarrow> (\<forall>j < ?n. 0 < j \<longrightarrow> vis' ! j)"
    proof (intro impI allI)
      fix j assume "dv + 1 = ?n + 1" "j < ?n" "0 < j"
      then have "?step = 1" using fl by (simp add: flags_ok_def)
      then have "\<forall>k. 1 + k < ?n \<longrightarrow> vis' ! (1 + k)" using res False by simp
      from this [rule_format, of "j - 1"] show "vis' ! j" using \<open>j < ?n\<close> \<open>0 < j\<close> by simp
    qed
    have eq: "div_loop check path dv checked vis s = div_loop check path (dv + 1) checked' vis' s1"
      using div_loop_step [OF step run] False by simp
    have m: "m = ?n + 1 - (dv + 1)" using Suc.hyps(2) by simp
    obtain s' where "div_loop check path (dv + 1) checked' vis' s1 = Some (interior_hit path, s')"
        "inv s'" "same s1 s'"
      using Suc.hyps(1) [OF m s1(1) fl last] le by auto
    then show ?thesis unfolding eq using same_trans s1(2) by blast
  qed
qed

lemma path_check_spec:
  assumes "inv s" and "path \<noteq> []"
  shows "\<exists>s'. path_check check s path = Some (interior_hit path, s') \<and> inv s' \<and> same s s'"
proof -
  let ?n = "length path" and ?vis = "replicate (length path - 1) False @ [True]"
  have len: "length ?vis = ?n" using assms(2) by (cases path) auto
  have nth: "?vis ! j \<longleftrightarrow> j = ?n - 1" if "j < ?n" for j
    using that by (auto simp: nth_append)
  then have "{j. j < ?n \<and> ?vis ! j} = {?n - 1}" using assms(2) by auto
  then have "flags_ok path 1 ?vis"
    using len nth assms(2) by (auto simp: flags_ok_def)
  moreover have "2 = ?n + 1 \<longrightarrow> (\<forall>j < ?n. 0 < j \<longrightarrow> ?vis ! j)" by auto
  ultimately show ?thesis
    using div_loop_spec [of 2 path s 1 ?vis] assms by (simp add: path_check_def Suc_le_eq)
qed

end

section \<open>The planner's check satisfies the contract\<close>

text \<open>What a check may change: the posture, the two counters and the reported pair.\<close>

definition same_setup :: "'w planner \<Rightarrow> 'w planner \<Rightarrow> bool" where
  "same_setup pl pl' \<longleftrightarrow>
     pl' = pl\<lparr>world_m := world_m pl', timeCollisionCheck_calls := timeCollisionCheck_calls pl',
        timeForwardKinematics_calls := timeForwardKinematics_calls pl',
        collidingPair_m := collidingPair_m pl'\<rparr>"

text \<open>
  The verdict on a configuration does not depend on the posture the world was left in: the
  hypothesis on the user's \<open>m_applyConfigFunc\<close> and the detector under which "free" is a
  property of configurations.
\<close>

definition decides :: "(Configuration \<Rightarrow> bool) \<Rightarrow> 'w planner \<Rightarrow> bool" where
  "decides free pl \<longleftrightarrow>
     (\<forall>w c. map_option fst (checkCollision_cfg (pl\<lparr>world_m := w\<rparr>) c) = Some (\<not> free c))"

lemma same_setup_refl: "same_setup pl pl"
  by (simp add: same_setup_def)

lemma same_setup_trans: "same_setup a b \<Longrightarrow> same_setup b c \<Longrightarrow> same_setup a c"
  by (cases a; cases b; cases c) (simp add: same_setup_def)

lemma same_setup_fields [frame_simps]:
  assumes "same_setup pl pl'"
  shows "mobility_m pl' = mobility_m pl" "cspace_m pl' = cspace_m pl"
    "interpolationDistance_m pl' = interpolationDistance_m pl"
  using assms by (cases pl; cases pl'; simp add: same_setup_def)+

lemma defaultCheckCollision_same: "defaultCheckCollision pl = Some (r, pl') \<Longrightarrow> same_setup pl pl'"
  by (auto simp: same_setup_def defaultCheckCollision_def Let_def split: option.splits if_splits)

lemma checkCollision_now_same: "checkCollision_now pl = Some (r, pl') \<Longrightarrow> same_setup pl pl'"
  by (auto simp: checkCollision_now_def Let_def dest: defaultCheckCollision_same split: option.splits)
    (auto simp: same_setup_def)

lemma setConfiguration_same: "setConfiguration pl c = (ok, pl') \<Longrightarrow> same_setup pl pl'"
  by (auto simp: same_setup_def setConfiguration_def Let_def split: prod.splits)

lemma checkCollision_cfg_same: "checkCollision_cfg pl c = Some (r, pl') \<Longrightarrow> same_setup pl pl'"
  by (auto simp: checkCollision_cfg_def split: prod.splits if_splits
      dest!: setConfiguration_same dest: checkCollision_now_same same_setup_trans)

text \<open>The verdict is blind to the counters and the last reported pair.\<close>

lemma verdict_now_cong:
  assumes "same_setup pl pl'" and "world_m pl' = world_m pl"
  shows "map_option fst (checkCollision_now pl') = map_option fst (checkCollision_now pl)"
  using assms
  by (cases pl; cases pl')
    (simp add: same_setup_def checkCollision_now_def defaultCheckCollision_def Let_def split: option.split)

lemma verdict_cong:
  assumes "same_setup pl pl'" and "world_m pl' = world_m pl"
  shows "map_option fst (checkCollision_cfg pl' c) = map_option fst (checkCollision_cfg pl c)"
proof -
  obtain ok w where ap: "m_applyConfigFunc pl (world_m pl) c = (ok, w)"
    by (cases "m_applyConfigFunc pl (world_m pl) c")
  then have ap': "m_applyConfigFunc pl' (world_m pl') c = (ok, w)"
    using assms by (cases pl; cases pl') (simp add: same_setup_def)
  have "same_setup (pl\<lparr>world_m := w\<rparr>) (pl'\<lparr>world_m := w\<rparr>)"
    using assms by (cases pl; cases pl') (simp add: same_setup_def)
  then show ?thesis
    using verdict_now_cong [of "pl\<lparr>world_m := w\<rparr>" "pl'\<lparr>world_m := w\<rparr>"]
    by (simp add: checkCollision_cfg_def setConfiguration_def ap ap')
qed

lemma decides_same_setup:
  assumes "same_setup pl pl'" and "decides free pl"
  shows "decides free pl'"
proof -
  have "map_option fst (checkCollision_cfg (pl'\<lparr>world_m := v\<rparr>) c) =
      map_option fst (checkCollision_cfg (pl\<lparr>world_m := v\<rparr>) c)" for v c
    using assms(1) by (intro verdict_cong) (cases pl; cases pl'; simp add: same_setup_def)+
  then show ?thesis using assms(2) by (simp add: decides_def)
qed

interpretation planner_oracle: collision_oracle checkCollision_cfg free "decides free" same_setup
  for free
proof unfold_locales
  fix pl :: "'w planner" and c
  assume dec: "decides free pl"
  have "map_option fst (checkCollision_cfg (pl\<lparr>world_m := world_m pl\<rparr>) c) = Some (\<not> free c)"
    using dec unfolding decides_def by blast
  then obtain pl' where run: "checkCollision_cfg pl c = Some (\<not> free c, pl')" by auto
  then show "\<exists>s'. checkCollision_cfg pl c = Some (\<not> free c, s') \<and> decides free s' \<and> same_setup pl s'"
    using checkCollision_cfg_same decides_same_setup dec by blast
qed (fact same_setup_refl, fact same_setup_trans)

text \<open>
  C5: for every path with at least one configuration the coarse-to-fine loop ends, and it
  reports a collision exactly when a configuration strictly between the first and the last
  one collides; nothing but the posture, the counters and the reported pair changes.
\<close>

theorem checkCollision_path_correct:
  assumes "decides free pl" and "path \<noteq> []"
  shows "\<exists>pl'. checkCollision_path pl path =
      Some ((\<exists>i. 0 < i \<and> i < length path - 1 \<and> \<not> free (path ! i)), pl')
    \<and> decides free pl' \<and> same_setup pl pl'"
  using planner_oracle.path_check_spec [OF assms]
  by (simp add: checkCollision_path_def planner_oracle.interior_hit_def)

end
