(* ===== verification/MobilityModel.thy ===== *)
theory MobilityModel
  imports CollisionCheck
begin

text \<open>
  \<open>hrplib/hrpPlanner/Mobility.{h,cpp}\<close> and its two implementations \<open>OmniWheel\<close> and
  \<open>TGT\<close> (turn-go-turn). \<open>getPath\<close> interpolates between two configurations and
  \<open>isReachable\<close> checks the interpolated path; both are inherited by every mobility.
\<close>

section \<open>Mobility\<close>

text \<open>
  The loop of \<open>getPath\<close> from iteration \<open>i\<close> on, \<open>k\<close> iterations left. The number of
  segments is an \<open>unsigned int\<close>: the \<open>+ 1\<close> wraps.
\<close>

fun getPath_loop :: "Mobility \<Rightarrow> ConfigurationSpace \<Rightarrow> Configuration \<Rightarrow> Configuration \<Rightarrow> nat \<Rightarrow> nat \<Rightarrow> nat \<Rightarrow> Configuration list option" where
  "getPath_loop m cs a b n 0 i = Some []"
| "getPath_loop m cs a b n (Suc k) i =
     do { pos \<leftarrow> interpolate m cs a b (ddiv (of_int_d (int i)) (of_int_d (int n)));
          rest \<leftarrow> getPath_loop m cs a b n k (Suc i);
          Some (pos # rest) }"

definition Mobility_getPath :: "'w planner \<Rightarrow> Mobility \<Rightarrow> Configuration \<Rightarrow> Configuration \<Rightarrow> Configuration list option" where
  "Mobility_getPath pl m a b =
     do { d \<leftarrow> distance m (cspace_m pl) a b;
          q \<leftarrow> to_uint (ddiv d (interpolationDistance_m pl));
          let n = nat ((int q + 1) mod 2 ^ 32);
          pts \<leftarrow> getPath_loop m (cspace_m pl) a b n (n - 1) 1;
          Some (a # pts @ [b]) }"

definition isReachable :: "'w planner \<Rightarrow> Mobility \<Rightarrow> Configuration \<Rightarrow> Configuration \<Rightarrow> bool \<Rightarrow> (bool \<times> 'w planner) option" where
  "isReachable pl m a b checkCollision =
     do { path \<leftarrow> Mobility_getPath pl m a b;
          if checkCollision then
            do { (hit, pl') \<leftarrow> checkCollision_path pl path; Some (\<not> hit, pl') }
          else Some (True, pl) }"

section \<open>OmniWheel\<close>

text \<open>The two loops of \<open>theta_limit\<close>; they need not end (see below).\<close>

partial_function (option) theta_down :: "double \<Rightarrow> double option" where
  "theta_down theta = (if dle two_pi theta then theta_down (dsub theta two_pi) else Some theta)"

declare theta_down.simps [code]

partial_function (option) theta_up :: "double \<Rightarrow> double option" where
  "theta_up theta = (if dlt theta (Fin 0) then theta_up (dadd theta two_pi) else Some theta)"

declare theta_up.simps [code]

definition theta_limit :: "double \<Rightarrow> double option" where
  "theta_limit theta = do { t \<leftarrow> theta_down theta; theta_up t }"

fun omni_interpolate_loop :: "ConfigurationSpace \<Rightarrow> Configuration \<Rightarrow> Configuration \<Rightarrow> double \<Rightarrow> nat \<Rightarrow> nat \<Rightarrow> Configuration \<Rightarrow> Configuration option" where
  "omni_interpolate_loop cs a b ratio 0 i cfg = Some cfg"
| "omni_interpolate_loop cs a b ratio (Suc k) i cfg =
     do { unb \<leftarrow> cs_unboundedRotation cs i;
          f \<leftarrow> cfg_value a i;
          t \<leftarrow> cfg_value b i;
          v \<leftarrow> (if unb then do {
                   dth \<leftarrow> theta_limit (dsub t f);
                   let dth' = (if dlt M_PI dth then dsub dth two_pi else dth);
                   Some (dadd f (dmul ratio dth')) }
                else Some (dadd (dmul (dsub (Fin 1) ratio) f) (dmul ratio t)));
          cfg' \<leftarrow> cfg_set_value cfg i v;
          omni_interpolate_loop cs a b ratio k (Suc i) cfg' }"

definition omni_interpolate :: "ConfigurationSpace \<Rightarrow> Configuration \<Rightarrow> Configuration \<Rightarrow> double \<Rightarrow> Configuration option" where
  "omni_interpolate cs a b ratio =
     (let cfg = Configuration_new (cs_size cs)
      in omni_interpolate_loop cs a b ratio (cfg_size cfg) 0 cfg)"

fun omni_distance_loop :: "ConfigurationSpace \<Rightarrow> Configuration \<Rightarrow> Configuration \<Rightarrow> nat \<Rightarrow> nat \<Rightarrow> double \<Rightarrow> double option" where
  "omni_distance_loop cs a b 0 i v = Some v"
| "omni_distance_loop cs a b (Suc k) i v =
     do { unb \<leftarrow> cs_unboundedRotation cs i;
          f \<leftarrow> cfg_value a i;
          t \<leftarrow> cfg_value b i;
          w \<leftarrow> cs_weight cs i;
          d \<leftarrow> (if unb then do {
                   dth \<leftarrow> theta_limit (dsub t f);
                   Some (dmul w (if dlt M_PI dth then dsub two_pi dth else dth)) }
                else Some (dmul w (dsub t f)));
          omni_distance_loop cs a b k (Suc i) (dadd v (dmul d d)) }"

definition omni_distance :: "ConfigurationSpace \<Rightarrow> Configuration \<Rightarrow> Configuration \<Rightarrow> double option" where
  "omni_distance cs a b = map_option dsqrt (omni_distance_loop cs a b (cs_size cs) 0 (Fin 0))"

definition OmniWheel :: Mobility where
  "OmniWheel = \<lparr>isReversible = True, interpolate = omni_interpolate, distance = omni_distance\<rparr>"

section \<open>TGT\<close>

text \<open>\<open>atan2\<close> is the C library's, whose accuracy is not specified: a parameter.\<close>

definition theta_diff :: "double \<Rightarrow> double \<Rightarrow> double" where
  "theta_diff a b =
     (let diff = dsub b a
      in if dlt M_PI diff then dsub diff two_pi
         else if dlt diff (dneg M_PI) then dadd diff two_pi
         else diff)"

text \<open>A configuration of the space's size with its first three values set.\<close>

definition tgt_cfg :: "ConfigurationSpace \<Rightarrow> double \<Rightarrow> double \<Rightarrow> double \<Rightarrow> Configuration option" where
  "tgt_cfg cs x y th =
     do { c0 \<leftarrow> cfg_set_value (Configuration_new (cs_size cs)) 0 x;
          c1 \<leftarrow> cfg_set_value c0 1 y;
          cfg_set_value c1 2 th }"

definition tgt_interpolate :: "(double \<Rightarrow> double \<Rightarrow> double) \<Rightarrow> ConfigurationSpace \<Rightarrow> Configuration \<Rightarrow> Configuration \<Rightarrow> double \<Rightarrow> Configuration option" where
  "tgt_interpolate atan2 cs a b ratio =
     do { f0 \<leftarrow> cfg_value a 0; t0 \<leftarrow> cfg_value b 0;
          f1 \<leftarrow> cfg_value a 1; t1 \<leftarrow> cfg_value b 1;
          f2 \<leftarrow> cfg_value a 2; t2 \<leftarrow> cfg_value b 2;
          let dx = dsub t0 f0; dy = dsub t1 f1
          in if deq dx (Fin 0) \<and> deq dy (Fin 0) then
               tgt_cfg cs f0 f1 (dadd f2 (dmul ratio (theta_diff f2 t2)))
             else do {
               w0 \<leftarrow> cs_weight cs 0; w1 \<leftarrow> cs_weight cs 1; w2 \<leftarrow> cs_weight cs 2;
               let theta = atan2 dy dx;
                   dth1 = theta_diff f2 theta;
                   d1 = dmul w2 (dabs dth1);
                   wx = dmul dx w0;
                   wy = dmul dy w1;
                   d2 = dsqrt (dadd (dmul wx wx) (dmul wy wy));
                   dth2 = theta_diff theta t2;
                   d3 = dmul w2 (dabs dth2);
                   d = dadd (dadd d1 d2) d3;
                   rd = dmul ratio d;
                   d12 = dadd d1 d2
               in if deq d (Fin 0) then Some a
                  else if dle (Fin 0) ratio \<and> dlt rd d1 then
                    tgt_cfg cs f0 f1 (dadd f2 (dmul (ddiv rd d1) dth1))
                  else if dle d1 rd \<and> dlt rd d12 then
                    (let r = ddiv (dsub rd d1) d2
                     in tgt_cfg cs (dadd (dmul (dsub (Fin 1) r) f0) (dmul r t0))
                          (dadd (dmul (dsub (Fin 1) r) f1) (dmul r t1)) theta)
                  else if dle d12 rd \<and> dle ratio (Fin 1) then
                    tgt_cfg cs t0 t1 (dadd theta (dmul (ddiv (dsub (dsub rd d1) d2) d3) dth2))
                  else None } }"

definition tgt_distance :: "(double \<Rightarrow> double \<Rightarrow> double) \<Rightarrow> ConfigurationSpace \<Rightarrow> Configuration \<Rightarrow> Configuration \<Rightarrow> double option" where
  "tgt_distance atan2 cs a b =
     do { f0 \<leftarrow> cfg_value a 0; t0 \<leftarrow> cfg_value b 0;
          f1 \<leftarrow> cfg_value a 1; t1 \<leftarrow> cfg_value b 1;
          w0 \<leftarrow> cs_weight cs 0; w1 \<leftarrow> cs_weight cs 1;
          let dx = dsub t0 f0; dy = dsub t1 f1;
              theta = atan2 dy dx;
              wx = dmul dx w0; wy = dmul dy w1
          in do {
            f2 \<leftarrow> cfg_value a 2; t2 \<leftarrow> cfg_value b 2; w2 \<leftarrow> cs_weight cs 2;
            if deq wx (Fin 0) \<and> deq wy (Fin 0) then
              Some (dmul w2 (dabs (theta_diff f2 t2)))
            else
              let dth1 = dmul (dabs (theta_diff f2 theta)) w2;
                  dth2 = dmul (dabs (theta_diff theta t2)) w2
              in Some (dadd (dadd (dsqrt (dadd (dmul wx wx) (dmul wy wy))) dth1) dth2) } }"

definition TGT :: "(double \<Rightarrow> double \<Rightarrow> double) \<Rightarrow> Mobility" where
  "TGT atan2 = \<lparr>isReversible = False, interpolate = tgt_interpolate atan2, distance = tgt_distance atan2\<rparr>"

section \<open>Properties\<close>

subsection \<open>Interpolated paths\<close>

lemma getPath_loop_length: "getPath_loop m cs a b n k i = Some ps \<Longrightarrow> length ps = k"
  by (induction k arbitrary: i ps) (auto simp: bind_Some_iff)

lemma getPath_loop_nth:
  "getPath_loop m cs a b n k i = Some ps \<Longrightarrow> j < k \<Longrightarrow>
     interpolate m cs a b (ddiv (of_int_d (int (i + j))) (of_int_d (int n))) = Some (ps ! j)"
proof (induction k arbitrary: i j ps)
  case (Suc k)
  then obtain p rest where ps: "ps = p # rest" and rest: "getPath_loop m cs a b n k (Suc i) = Some rest"
      and p: "interpolate m cs a b (ddiv (of_int_d (int i)) (of_int_d (int n))) = Some p"
    by (auto simp: bind_Some_iff)
  show ?case
  proof (cases j)
    case (Suc j')
    then show ?thesis using Suc.IH [OF rest, of j'] Suc.prems(2) by (simp add: ps)
  qed (simp add: ps p)
qed simp

text \<open>
  C14: a path that \<open>getPath\<close> returns starts at \<open>from\<close> and ends at \<open>to\<close>; between them are the
  interpolations at the ratios \<open>i / n\<close> for \<open>0 < i < n\<close>, where \<open>n\<close> is the distance over the
  interpolation distance, truncated, plus one (so no configuration is skipped or repeated).
\<close>

theorem getPath_spec:
  assumes "Mobility_getPath pl m a b = Some path"
    and "distance m (cspace_m pl) a b = Some d"
    and "to_uint (ddiv d (interpolationDistance_m pl)) = Some q" and "q < 2 ^ 32 - 1"
  shows "length path = q + 2 \<and> hd path = a \<and> last path = b \<and>
    (\<forall>i. 0 < i \<and> i < q + 1 \<longrightarrow>
      interpolate m (cspace_m pl) a b (ddiv (of_int_d (int i)) (of_int_d (int (q + 1)))) = Some (path ! i))"
proof -
  have n: "(int q + 1) mod 4294967296 = int q + 1" "nat (int q + 1) = Suc q" using assms(4) by simp_all
  obtain ps where ps: "getPath_loop m (cspace_m pl) a b (q + 1) q 1 = Some ps" and path: "path = a # ps @ [b]"
    using assms(1-3) by (auto simp: Mobility_getPath_def Let_def bind_Some_iff n)
  have len: "length ps = q" using getPath_loop_length [OF ps] .
  have "interpolate m (cspace_m pl) a b (ddiv (of_int_d (int i)) (of_int_d (int (q + 1)))) = Some (path ! i)"
    if "0 < i" "i < q + 1" for i
    using getPath_loop_nth [OF ps, of "i - 1"] that len by (simp add: path nth_append)
  then show ?thesis using len by (simp add: path)
qed

lemma getPath_Some_shape:
  "Mobility_getPath pl m a b = Some path \<Longrightarrow> \<exists>ps. path = a # ps @ [b]"
  by (auto simp: Mobility_getPath_def Let_def bind_Some_iff)

lemma getPath_same_setup [frame_simps]:
  "same_setup pl pl' \<Longrightarrow> Mobility_getPath pl' m a b = Mobility_getPath pl m a b"
  by (simp add: Mobility_getPath_def frame_simps)

text \<open>
  \<open>seg_free free pl m a b\<close>: the interpolated path from \<open>a\<close> to \<open>b\<close> exists and every
  configuration strictly inside it is free. This is what an edge of a roadmap stands for.
\<close>

definition seg_free :: "(Configuration \<Rightarrow> bool) \<Rightarrow> 'w planner \<Rightarrow> Mobility \<Rightarrow> Configuration \<Rightarrow> Configuration \<Rightarrow> bool" where
  "seg_free free pl m a b \<longleftrightarrow>
     (\<exists>path. Mobility_getPath pl m a b = Some path \<and>
        (\<forall>i. 0 < i \<and> i < length path - 1 \<longrightarrow> free (path ! i)))"

lemma seg_free_same_setup [frame_simps]:
  "same_setup pl pl' \<Longrightarrow> seg_free free pl' m a b = seg_free free pl m a b"
  by (simp add: seg_free_def frame_simps)

lemma seg_free_same: "same_setup pl pl' \<Longrightarrow> seg_free free pl' m = seg_free free pl m"
  by (intro ext) (rule seg_free_same_setup)

text \<open>
  C6: \<open>isReachable\<close> with the collision check on says exactly whether the interpolated path
  is free inside, and without it always says yes; it returns whenever the interpolation does.
\<close>

theorem isReachable_correct:
  assumes "decides free pl" and "Mobility_getPath pl m a b = Some path"
  shows "isReachable pl m a b False = Some (True, pl) \<and>
    (\<exists>pl'. isReachable pl m a b True = Some (seg_free free pl m a b, pl')
      \<and> decides free pl' \<and> same_setup pl pl')"
proof -
  have ne: "path \<noteq> []" using getPath_Some_shape [OF assms(2)] by auto
  obtain pl' where
    "checkCollision_path pl path = Some ((\<exists>i. 0 < i \<and> i < length path - 1 \<and> \<not> free (path ! i)), pl')"
    "decides free pl'" "same_setup pl pl'"
    using planner_oracle.path_check_spec [OF assms(1) ne]
    by (auto simp: checkCollision_path_def planner_oracle.interior_hit_def)
  then show ?thesis using assms(2) by (auto simp: isReachable_def seg_free_def)
qed

lemma isReachable_SomeD:
  assumes "decides free pl" and "isReachable pl m a b True = Some (r, pl')"
  shows "r = seg_free free pl m a b \<and> decides free pl' \<and> same_setup pl pl'"
proof -
  obtain path where path: "Mobility_getPath pl m a b = Some path"
    using assms(2) by (auto simp: isReachable_def bind_Some_iff)
  have ne: "path \<noteq> []" using getPath_Some_shape [OF path] by auto
  obtain pl1 where
    "checkCollision_path pl path = Some ((\<exists>i. 0 < i \<and> i < length path - 1 \<and> \<not> free (path ! i)), pl1)"
    "decides free pl1" "same_setup pl pl1"
    using planner_oracle.path_check_spec [OF assms(1) ne]
    by (auto simp: checkCollision_path_def planner_oracle.interior_hit_def)
  then show ?thesis using assms(2) path by (auto simp: isReachable_def seg_free_def)
qed

subsection \<open>OmniWheel\<close>

text \<open>
  C17: \<open>theta_limit\<close> need not return: from \<open>2 ^ 60\<close> on, subtracting \<open>2 * M_PI\<close> rounds back
  to the same double, and the first loop never ends.
\<close>

theorem theta_limit_diverges: "theta_limit (Fin (2 ^ 60)) = None"
proof -
  have "rnd (162259276829213362507298291284573 / 140737488355328) = Fin (2 ^ 60)"
    by (subst rnd_eval [where k = 59 and n = "2 ^ 53"]) (simp_all add: power_int_def)
  then have stuck: "dsub (Fin (2 ^ 60)) two_pi = Fin (2 ^ 60)"
    by (simp add: dsub_def two_pi_def)
  have big: "dle two_pi (Fin (2 ^ 60))" by (simp add: dle_def two_pi_def)
  have "theta_down x = Some r \<Longrightarrow> x \<noteq> Fin (2 ^ 60)" for x r
  proof (rule theta_down.raw_induct [where P = "\<lambda>x r. x \<noteq> Fin (2 ^ 60)"])
    fix f x r
    assume IH: "\<And>x r. f x = Some r \<Longrightarrow> x \<noteq> Fin (2 ^ 60)"
      and eq: "(if dle two_pi x then f (dsub x two_pi) else Some x) = Some r"
    show "x \<noteq> Fin (2 ^ 60)"
    proof
      assume "x = Fin (2 ^ 60)"
      then have "f (Fin (2 ^ 60)) = Some r" using eq stuck big by simp
      then show False using IH by blast
    qed
  qed
  then have "theta_down (Fin (2 ^ 60)) = None" by (cases "theta_down (Fin (2 ^ 60))") blast+
  then show ?thesis by (simp add: theta_limit_def)
qed

text \<open>
  \<open>OmniWheel::isReversible\<close> says yes, but a rotation by half a turn goes up both ways: from \<open>0\<close>
  to \<open>M_PI\<close> by \<open>M_PI / 2\<close>, and back by \<open>3 * M_PI / 2\<close>. With an obstacle only there the way is
  free and the way back is not.
\<close>

definition turntable :: ConfigurationSpace where
  "turntable = (ConfigurationSpace_new 1)\<lparr>m_isUnboundedRotation := [True]\<rparr>"

definition posture1 :: "double \<Rightarrow> Configuration" where
  "posture1 x = \<lparr>m_values = [x]\<rparr>"

definition three_quarters :: double where
  "three_quarters = Fin (3 * 884279719003555 / 562949953421312)"

lemma theta_limit_pi:
  "theta_limit M_PI = Some M_PI" "theta_limit (dneg M_PI) = Some M_PI"
proof -
  have "rnd (884279719003555 / 281474976710656) = M_PI"
    unfolding M_PI_def by code_simp
  then have add: "dadd (dneg M_PI) two_pi = M_PI" by (simp add: M_PI_def two_pi_def)
  have test: "\<not> dle two_pi M_PI" "\<not> dle two_pi (dneg M_PI)" "\<not> dlt M_PI (Fin 0)" "dlt (dneg M_PI) (Fin 0)"
    by (simp_all add: M_PI_def two_pi_def dle_def)
  have "theta_down M_PI = Some M_PI" "theta_down (dneg M_PI) = Some (dneg M_PI)"
    by (subst theta_down.simps, simp add: test)+
  moreover have up: "theta_up M_PI = Some M_PI" by (subst theta_up.simps) (simp add: test)
  moreover have "theta_up (dneg M_PI) = Some M_PI" by (subst theta_up.simps) (simp add: test add up)
  ultimately show "theta_limit M_PI = Some M_PI" "theta_limit (dneg M_PI) = Some M_PI"
    by (simp_all add: theta_limit_def)
qed

lemma turntable_distance:
  "omni_distance turntable (posture1 (Fin 0)) (posture1 M_PI) = Some M_PI"
  "omni_distance turntable (posture1 M_PI) (posture1 (Fin 0)) = Some M_PI"
proof -
  have sub: "dsub M_PI (Fin 0) = M_PI" "dsub (Fin 0) M_PI = dneg M_PI" by code_simp+
  have calc: "dmul (Fin 1) M_PI = M_PI" "dsqrt (dadd (Fin 0) (dmul M_PI M_PI)) = M_PI" by code_simp+
  show "omni_distance turntable (posture1 (Fin 0)) (posture1 M_PI) = Some M_PI"
    "omni_distance turntable (posture1 M_PI) (posture1 (Fin 0)) = Some M_PI"
    by (simp_all add: omni_distance_def turntable_def posture1_def ConfigurationSpace_new_def cs_size_def
        cs_unboundedRotation_def cfg_value_def cs_weight_def sub theta_limit_pi calc)
qed

lemma turntable_halfway:
  "omni_interpolate turntable (posture1 (Fin 0)) (posture1 M_PI) (Fin (1 / 2)) =
     Some (posture1 (Fin (884279719003555 / 562949953421312)))"
  "omni_interpolate turntable (posture1 M_PI) (posture1 (Fin 0)) (Fin (1 / 2)) = Some (posture1 three_quarters)"
proof -
  have sub: "dsub M_PI (Fin 0) = M_PI" "dsub (Fin 0) M_PI = dneg M_PI" by code_simp+
  have calc: "dadd (Fin 0) (dmul (Fin (1 / 2)) M_PI) = Fin (884279719003555 / 562949953421312)"
    "dadd M_PI (dmul (Fin (1 / 2)) M_PI) = three_quarters" by code_simp+
  show "omni_interpolate turntable (posture1 (Fin 0)) (posture1 M_PI) (Fin (1 / 2)) =
     Some (posture1 (Fin (884279719003555 / 562949953421312)))"
    "omni_interpolate turntable (posture1 M_PI) (posture1 (Fin 0)) (Fin (1 / 2)) = Some (posture1 three_quarters)"
    by (simp_all add: omni_interpolate_def turntable_def posture1_def ConfigurationSpace_new_def cs_size_def
        Configuration_new_def cfg_size_def cs_unboundedRotation_def cfg_value_def cfg_set_value_def sub theta_limit_pi calc)
qed

lemma OmniWheel_not_reversible:
  assumes "cspace_m pl = turntable" and "interpolationDistance_m pl = Fin 2"
  shows "isReversible OmniWheel \<and>
    seg_free (\<lambda>c. c \<noteq> posture1 three_quarters) pl OmniWheel (posture1 (Fin 0)) (posture1 M_PI) \<and>
    \<not> seg_free (\<lambda>c. c \<noteq> posture1 three_quarters) pl OmniWheel (posture1 M_PI) (posture1 (Fin 0))"
proof -
  have q: "to_uint (ddiv M_PI (Fin 2)) = Some 1" and r: "ddiv (of_int_d 1) (of_int_d 2) = Fin (1 / 2)"
    by code_simp+
  have ne: "Fin (884279719003555 / 562949953421312) \<noteq> three_quarters" by (simp add: three_quarters_def)
  have there: "Mobility_getPath pl OmniWheel (posture1 (Fin 0)) (posture1 M_PI) =
      Some [posture1 (Fin 0), posture1 (Fin (884279719003555 / 562949953421312)), posture1 M_PI]"
    and home: "Mobility_getPath pl OmniWheel (posture1 M_PI) (posture1 (Fin 0)) =
      Some [posture1 M_PI, posture1 three_quarters, posture1 (Fin 0)]"
    using assms turntable_distance turntable_halfway
    by (simp_all add: Mobility_getPath_def OmniWheel_def q r Let_def)
  have "isReversible OmniWheel" by (simp add: OmniWheel_def)
  moreover have "seg_free (\<lambda>c. c \<noteq> posture1 three_quarters) pl OmniWheel (posture1 (Fin 0)) (posture1 M_PI)"
    using ne unfolding seg_free_def there by (auto simp: posture1_def less_Suc_eq)
  moreover have "\<not> seg_free (\<lambda>c. c \<noteq> posture1 three_quarters) pl OmniWheel (posture1 M_PI) (posture1 (Fin 0))"
    unfolding seg_free_def home by (auto intro: exI [of _ "Suc 0"])
  ultimately show ?thesis by blast
qed

end
