(* ===== verification/RoadmapModel.thy ===== *)
theory RoadmapModel
  imports MobilityModel "HOL-Library.Word"
begin

text \<open>
  \<open>hrplib/hrpPlanner/RoadmapNode.{h,cpp}\<close> and \<open>Roadmap.{h,cpp}\<close>. Nodes and roadmaps are
  shared objects (\<open>boost::shared_ptr\<close>), so they live in a store: an address is a number,
  fresh addresses are handed out in increasing order, a null pointer is \<open>None\<close>, and using
  an address that holds no object is no normal return. Objects are never freed while they
  are reachable, so the reference counts themselves are not kept.
\<close>

section \<open>Nodes, roadmaps and the store\<close>

record RoadmapNode =
  parents_m :: "nat list"
  children_m :: "nat list"
  pos_m :: Configuration
  visited_m :: bool

record Roadmap =
  nodes_m :: "nat list"
  m_nEdges :: "32 word"

type_synonym node_heap = "nat \<Rightarrow> RoadmapNode option"

text \<open>
  The whole state the algorithms work on: the planner, the store, the random generator.
  \<open>uninit p\<close> is what \<open>visited_\<close> of the node allocated at \<open>p\<close> happens to hold: the
  constructor does not set it. \<open>stop_at k\<close> tells whether another thread has called
  \<open>stopPlanning ()\<close> by the \<open>k\<close>-th time the flag is read.
\<close>

record 'w mach =
  planner :: "'w planner"
  nheap :: node_heap
  next_node :: nat
  rheap :: "nat \<Rightarrow> Roadmap option"
  next_map :: nat
  rsource :: rand_source
  rand_calls :: nat
  uninit :: "nat \<Rightarrow> bool"
  stop_at :: "nat \<Rightarrow> bool"
  polls :: nat

section \<open>RoadmapNode\<close>

definition RoadmapNode_new :: "'w mach \<Rightarrow> Configuration \<Rightarrow> nat \<times> 'w mach" where
  "RoadmapNode_new m pos =
     (let p = next_node m
      in (p, m\<lparr>nheap := (nheap m)(p \<mapsto>
                 \<lparr>parents_m = [], children_m = [], pos_m = pos, visited_m = uninit m p\<rparr>),
               next_node := p + 1\<rparr>))"

definition addParent :: "node_heap \<Rightarrow> nat \<Rightarrow> nat \<Rightarrow> node_heap option" where
  "addParent h p q = do { n \<leftarrow> h p; Some (h(p \<mapsto> n\<lparr>parents_m := parents_m n @ [q]\<rparr>)) }"

definition addChild :: "node_heap \<Rightarrow> nat \<Rightarrow> nat \<Rightarrow> node_heap option" where
  "addChild h p q = do { n \<leftarrow> h p; Some (h(p \<mapsto> n\<lparr>children_m := children_m n @ [q]\<rparr>)) }"

text \<open>The first occurrence is erased, if there is one.\<close>

definition removeParent :: "node_heap \<Rightarrow> nat \<Rightarrow> nat \<Rightarrow> (bool \<times> node_heap) option" where
  "removeParent h p q =
     do { n \<leftarrow> h p;
          if q \<in> set (parents_m n)
          then Some (True, h(p \<mapsto> n\<lparr>parents_m := remove1 q (parents_m n)\<rparr>))
          else Some (False, h) }"

definition removeChild :: "node_heap \<Rightarrow> nat \<Rightarrow> nat \<Rightarrow> (bool \<times> node_heap) option" where
  "removeChild h p q =
     do { n \<leftarrow> h p;
          if q \<in> set (children_m n)
          then Some (True, h(p \<mapsto> n\<lparr>children_m := remove1 q (children_m n)\<rparr>))
          else Some (False, h) }"

definition node_position :: "node_heap \<Rightarrow> nat \<Rightarrow> Configuration option" where
  "node_position h p = do { n \<leftarrow> h p; Some (pos_m n) }"

text \<open>Out of range the result is the null pointer.\<close>

definition node_parent :: "node_heap \<Rightarrow> nat \<Rightarrow> nat \<Rightarrow> nat option option" where
  "node_parent h p i = do { n \<leftarrow> h p; Some (if length (parents_m n) \<le> i then None else Some (parents_m n ! i)) }"

definition node_child :: "node_heap \<Rightarrow> nat \<Rightarrow> nat \<Rightarrow> nat option option" where
  "node_child h p i = do { n \<leftarrow> h p; Some (if length (children_m n) \<le> i then None else Some (children_m n ! i)) }"

definition nParents :: "node_heap \<Rightarrow> nat \<Rightarrow> nat option" where
  "nParents h p = do { n \<leftarrow> h p; Some (length (parents_m n)) }"

definition nChildren :: "node_heap \<Rightarrow> nat \<Rightarrow> nat option" where
  "nChildren h p = do { n \<leftarrow> h p; Some (length (children_m n)) }"

definition set_visited :: "node_heap \<Rightarrow> nat \<Rightarrow> bool \<Rightarrow> node_heap option" where
  "set_visited h p b = do { n \<leftarrow> h p; Some (h(p \<mapsto> n\<lparr>visited_m := b\<rparr>)) }"

section \<open>Roadmap\<close>

definition Roadmap_new :: "'w mach \<Rightarrow> nat \<times> 'w mach" where
  "Roadmap_new m =
     (let r = next_map m
      in (r, m\<lparr>rheap := (rheap m)(r \<mapsto> \<lparr>nodes_m = [], m_nEdges = 0\<rparr>), next_map := r + 1\<rparr>))"

definition Roadmap_clear :: "'w mach \<Rightarrow> nat \<Rightarrow> 'w mach option" where
  "Roadmap_clear m r =
     do { rm \<leftarrow> rheap m r; Some (m\<lparr>rheap := (rheap m)(r \<mapsto> rm\<lparr>nodes_m := [], m_nEdges := 0\<rparr>)\<rparr>) }"

definition addNode :: "'w mach \<Rightarrow> nat \<Rightarrow> nat \<Rightarrow> 'w mach option" where
  "addNode m r p =
     do { rm \<leftarrow> rheap m r;
          Some (m\<lparr>rheap := (rheap m)(r \<mapsto> rm\<lparr>nodes_m := nodes_m rm @ [p]\<rparr>)\<rparr>) }"

definition addEdge :: "'w mach \<Rightarrow> nat \<Rightarrow> nat \<Rightarrow> nat \<Rightarrow> 'w mach option" where
  "addEdge m r a b =
     do { h1 \<leftarrow> addChild (nheap m) a b;
          h2 \<leftarrow> addParent h1 b a;
          rm \<leftarrow> rheap m r;
          Some (m\<lparr>nheap := h2, rheap := (rheap m)(r \<mapsto> rm\<lparr>m_nEdges := m_nEdges rm + 1\<rparr>)\<rparr>) }"

definition removeEdge :: "'w mach \<Rightarrow> nat \<Rightarrow> nat \<Rightarrow> (bool \<times> 'w mach) option" where
  "removeEdge m a b =
     do { (r1, h1) \<leftarrow> removeChild (nheap m) a b;
          if \<not> r1 then Some (False, m\<lparr>nheap := h1\<rparr>)
          else do { (r2, h2) \<leftarrow> removeParent h1 b a; Some (r2, m\<lparr>nheap := h2\<rparr>) } }"

text \<open>
  \<open>r->integrate (r2)\<close>: the nodes of \<open>r\<close> move to the end of \<open>r2\<close>. Integrating a non-empty
  roadmap into itself never ends (the vector grows under the loop).
\<close>

definition integrate :: "'w mach \<Rightarrow> nat \<Rightarrow> nat \<Rightarrow> 'w mach option" where
  "integrate m r r2 =
     do { rm \<leftarrow> rheap m r;
          if nodes_m rm = [] then Some (m\<lparr>rheap := (rheap m)(r \<mapsto> rm\<lparr>nodes_m := []\<rparr>)\<rparr>)
          else if r = r2 then None
          else do {
            rm2 \<leftarrow> rheap m r2;
            Some (m\<lparr>rheap := (rheap m)(r2 \<mapsto> rm2\<lparr>nodes_m := nodes_m rm2 @ nodes_m rm\<rparr>,
                                        r \<mapsto> rm\<lparr>nodes_m := []\<rparr>)\<rparr>) } }"

definition nNodes :: "'w mach \<Rightarrow> nat \<Rightarrow> nat option" where
  "nNodes m r = do { rm \<leftarrow> rheap m r; Some (length (nodes_m rm)) }"

definition Roadmap_node :: "'w mach \<Rightarrow> nat \<Rightarrow> nat \<Rightarrow> nat option option" where
  "Roadmap_node m r i =
     do { rm \<leftarrow> rheap m r;
          Some (if length (nodes_m rm) \<le> i then None else Some (nodes_m rm ! i)) }"

definition lastAddedNode :: "'w mach \<Rightarrow> nat \<Rightarrow> nat option option" where
  "lastAddedNode m r =
     do { rm \<leftarrow> rheap m r; Some (if nodes_m rm = [] then None else Some (last (nodes_m rm))) }"

fun index_loop :: "nat list \<Rightarrow> nat \<Rightarrow> int \<Rightarrow> int" where
  "index_loop [] p i = -1"
| "index_loop (q # qs) p i = (if q = p then i else index_loop qs p (i + 1))"

definition indexOfNode :: "'w mach \<Rightarrow> nat \<Rightarrow> nat \<Rightarrow> int option" where
  "indexOfNode m r p = do { rm \<leftarrow> rheap m r; Some (index_loop (nodes_m rm) p 0) }"

text \<open>
  \<open>findNearestNode\<close>: null (\<open>Some None\<close>) for an empty roadmap, whose \<open>distance\<close> output
  stays unset, otherwise the first node at the least distance.
\<close>

definition node_distance :: "'w mach \<Rightarrow> Mobility \<Rightarrow> Configuration \<Rightarrow> nat \<Rightarrow> double option" where
  "node_distance m mob pos p =
     do { q \<leftarrow> node_position (nheap m) p; distance mob (cspace_m (planner m)) q pos }"

fun nearest_loop :: "'w mach \<Rightarrow> Mobility \<Rightarrow> Configuration \<Rightarrow> nat list \<Rightarrow> nat \<Rightarrow> double \<Rightarrow> (nat \<times> double) option" where
  "nearest_loop m mob pos [] node dmin = Some (node, dmin)"
| "nearest_loop m mob pos (p # ps) node dmin =
     do { d \<leftarrow> node_distance m mob pos p;
          if dlt d dmin then nearest_loop m mob pos ps p d
          else nearest_loop m mob pos ps node dmin }"

definition findNearestNode :: "'w mach \<Rightarrow> nat \<Rightarrow> Configuration \<Rightarrow> (nat \<times> double) option option" where
  "findNearestNode m r pos =
     do { rm \<leftarrow> rheap m r;
          case nodes_m rm of
            [] \<Rightarrow> Some None
          | p # ps \<Rightarrow>
              do { mob \<leftarrow> mobility_m (planner m);
                   d \<leftarrow> node_distance m mob pos p;
                   res \<leftarrow> nearest_loop m mob pos ps p d;
                   Some (Some res) } }"

text \<open>
  The depth first search: all flags of the roadmap's nodes are cleared, then \<open>path\<close> is the
  search stack (its end is the top).
\<close>

fun clear_flags :: "node_heap \<Rightarrow> nat list \<Rightarrow> node_heap option" where
  "clear_flags h [] = Some h"
| "clear_flags h (p # ps) = do { h' \<leftarrow> set_visited h p False; clear_flags h' ps }"

fun first_unvisited :: "node_heap \<Rightarrow> nat list \<Rightarrow> nat option option" where
  "first_unvisited h [] = Some None"
| "first_unvisited h (c # cs) =
     do { n \<leftarrow> h c; if \<not> visited_m n then Some (Some c) else first_unvisited h cs }"

partial_function (option) dfs_loop :: "nat \<Rightarrow> nat list \<Rightarrow> node_heap \<Rightarrow> (nat list \<times> node_heap) option" where
  "dfs_loop goal path h =
     (if path = [] then Some (path, h)
      else if last path = goal then Some (path, h)
      else do {
        n \<leftarrow> h (last path);
        c \<leftarrow> first_unvisited h (children_m n);
        case c of
          None \<Rightarrow> dfs_loop goal (butlast path) h
        | Some ch \<Rightarrow> do { h' \<leftarrow> set_visited h ch True; dfs_loop goal (path @ [ch]) h' } })"

declare dfs_loop.simps [code]

definition DFS :: "'w mach \<Rightarrow> nat \<Rightarrow> nat \<Rightarrow> nat \<Rightarrow> (nat list \<times> 'w mach) option" where
  "DFS m r start goal =
     do { rm \<leftarrow> rheap m r;
          h1 \<leftarrow> clear_flags (nheap m) (nodes_m rm);
          h2 \<leftarrow> set_visited h1 start True;
          (path, h3) \<leftarrow> dfs_loop goal [start] h2;
          Some (path, m\<lparr>nheap := h3\<rparr>) }"

definition mach_isReachable :: "'w mach \<Rightarrow> Mobility \<Rightarrow> nat \<Rightarrow> nat \<Rightarrow> (bool \<times> 'w mach) option" where
  "mach_isReachable m mob a b =
     do { pa \<leftarrow> node_position (nheap m) a;
          pb \<leftarrow> node_position (nheap m) b;
          (ok, pl) \<leftarrow> isReachable (planner m) mob pa pb True;
          Some (ok, m\<lparr>planner := pl\<rparr>) }"

definition connect_forward :: "'w mach \<Rightarrow> Mobility \<Rightarrow> nat \<Rightarrow> nat \<Rightarrow> nat \<Rightarrow> bool \<Rightarrow> 'w mach option" where
  "connect_forward m mob r a b bothWays =
     do { (ok, m1) \<leftarrow> mach_isReachable m mob a b;
          if ok then
            do { m2 \<leftarrow> addEdge m1 r a b;
                 if bothWays then addEdge m2 r b a else Some m2 }
          else Some m1 }"

definition tryConnection :: "'w mach \<Rightarrow> nat \<Rightarrow> nat \<Rightarrow> nat \<Rightarrow> bool \<Rightarrow> 'w mach option" where
  "tryConnection m r a b tryReverse =
     do { mob \<leftarrow> mobility_m (planner m);
          m1 \<leftarrow> connect_forward m mob r a b (tryReverse \<and> isReversible mob);
          if tryReverse \<and> \<not> isReversible mob then connect_forward m1 mob r b a False
          else Some m1 }"

section \<open>The search\<close>

text \<open>The edges of the store, and what can be reached along them.\<close>

definition child_of :: "node_heap \<Rightarrow> nat \<Rightarrow> nat \<Rightarrow> bool" where
  "child_of h p c \<longleftrightarrow> (\<exists>n. h p = Some n \<and> c \<in> set (children_m n))"

definition reached :: "node_heap \<Rightarrow> nat \<Rightarrow> nat set" where
  "reached h s = {q. (child_of h)\<^sup>*\<^sup>* s q}"

text \<open>The store without its search flags, and the nodes whose flag is set.\<close>

definition strip :: "node_heap \<Rightarrow> node_heap" where
  "strip h p = map_option (visited_m_update (\<lambda>_. False)) (h p)"

definition marked :: "node_heap \<Rightarrow> nat set" where
  "marked h = {p. \<exists>n. h p = Some n \<and> visited_m n}"

lemma strip_children:
  assumes "strip h = strip h'" and "h p = Some n"
  obtains n' where "h' p = Some n'" and "children_m n' = children_m n"
proof -
  have "map_option (visited_m_update (\<lambda>_. False)) (h p) = map_option (visited_m_update (\<lambda>_. False)) (h' p)"
    using fun_cong [OF assms(1), of p] by (simp add: strip_def)
  then obtain n' where n': "h' p = Some n'" and "n\<lparr>visited_m := False\<rparr> = n'\<lparr>visited_m := False\<rparr>"
    using assms(2) by (cases "h' p") auto
  then have "children_m n' = children_m n" by (cases n; cases n') simp
  then show ?thesis using that n' by blast
qed

lemma child_of_strip: "strip h = strip h' \<Longrightarrow> child_of h = child_of h'"
proof (intro ext iffI)
  fix p c assume st: "strip h = strip h'"
  show "child_of h p c \<Longrightarrow> child_of h' p c"
    unfolding child_of_def by (auto elim: strip_children [OF st])
  show "child_of h' p c \<Longrightarrow> child_of h p c"
    unfolding child_of_def by (auto elim: strip_children [OF st [symmetric]])
qed

lemma dom_strip: "strip h = strip h' \<Longrightarrow> dom h = dom h'"
  by (auto simp: dom_def elim: strip_children elim: strip_children [OF sym])

lemma set_visited_Some:
  assumes "p \<in> dom h"
  obtains h' where "set_visited h p b = Some h'" and "strip h' = strip h"
    and "marked h' = (if b then insert p (marked h) else marked h - {p})"
proof -
  obtain n where n: "h p = Some n" using assms by blast
  let ?h = "h(p \<mapsto> n\<lparr>visited_m := b\<rparr>)"
  have "set_visited h p b = Some ?h" by (simp add: set_visited_def n)
  moreover have "strip ?h = strip h" by (rule ext) (simp add: strip_def n)
  moreover have "marked ?h = (if b then insert p (marked h) else marked h - {p})"
    by (auto simp: marked_def)
  ultimately show ?thesis by (rule that)
qed

lemma clear_flags_Some:
  "set ps \<subseteq> dom h \<Longrightarrow> \<exists>h'. clear_flags h ps = Some h' \<and> strip h' = strip h \<and> marked h' = marked h - set ps"
proof (induction ps arbitrary: h)
  case (Cons p ps)
  then obtain h1 where h1: "set_visited h p False = Some h1" "strip h1 = strip h" "marked h1 = marked h - {p}"
    using set_visited_Some [of p h False] by auto
  have "set ps \<subseteq> dom h1" using Cons.prems dom_strip [OF h1(2)] by simp
  then obtain h2 where "clear_flags h1 ps = Some h2" "strip h2 = strip h1" "marked h2 = marked h1 - set ps"
    using Cons.IH by blast
  then have "clear_flags h (p # ps) = Some h2 \<and> strip h2 = strip h \<and> marked h2 = marked h - set (p # ps)"
    using h1 by (simp add: Diff_insert2 [symmetric] set_diff_eq)
  then show ?case by blast
qed simp

lemma first_unvisited_cases:
  assumes "set cs \<subseteq> dom h"
  shows "(first_unvisited h cs = Some None \<and> set cs \<subseteq> marked h) \<or>
    (\<exists>c \<in> set cs - marked h. first_unvisited h cs = Some (Some c))"
  using assms
proof (induction cs)
  case (Cons c cs)
  then obtain n where n: "h c = Some n" by auto
  show ?case
  proof (cases "visited_m n")
    case True
    then have "c \<in> marked h" using n by (simp add: marked_def)
    then show ?thesis using Cons n True by auto
  next
    case False
    then have "c \<notin> marked h" using n by (simp add: marked_def)
    then show ?thesis using n False by simp
  qed
qed simp

text \<open>What holds before every step of the search.\<close>

definition dfs_closed :: "node_heap \<Rightarrow> nat \<Rightarrow> nat list \<Rightarrow> node_heap \<Rightarrow> bool" where
  "dfs_closed h0 s path h \<longleftrightarrow>
     (\<forall>p \<in> marked h \<inter> reached h0 s - set path. \<forall>c. child_of h0 p c \<longrightarrow> c \<in> marked h)"

definition dfs_inv :: "node_heap \<Rightarrow> nat \<Rightarrow> nat \<Rightarrow> nat list \<Rightarrow> node_heap \<Rightarrow> bool" where
  "dfs_inv h0 s goal path h \<longleftrightarrow>
     strip h = strip h0 \<and> s \<in> marked h \<and> set path \<subseteq> reached h0 s \<and>
     (path \<noteq> [] \<longrightarrow> hd path = s) \<and> successively (child_of h0) path \<and>
     dfs_closed h0 s path h \<and>
     (goal \<in> marked h \<inter> reached h0 s \<longrightarrow> path \<noteq> [] \<and> last path = goal)"

lemma reached_step: "p \<in> reached h s \<Longrightarrow> child_of h p c \<Longrightarrow> c \<in> reached h s"
  by (simp add: reached_def rtranclp.rtrancl_into_rtrancl)

lemma dfs_inv_exhausted:
  assumes "dfs_inv h0 s goal [] h"
  shows "goal \<notin> reached h0 s"
proof
  assume "goal \<in> reached h0 s"
  have "q \<in> marked h" if "(child_of h0)\<^sup>*\<^sup>* s q" for q
    using that
  proof (induction rule: rtranclp_induct)
    case base
    then show ?case using assms by (simp add: dfs_inv_def)
  next
    case (step p c)
    then show ?case using assms by (auto simp: dfs_inv_def dfs_closed_def reached_def)
  qed
  then show False using assms \<open>goal \<in> reached h0 s\<close> by (auto simp: dfs_inv_def reached_def)
qed

lemma dfs_inv_pop:
  assumes "dfs_inv h0 s goal path h" and "path \<noteq> []" and "last path \<noteq> goal"
    and "\<forall>c. child_of h0 (last path) c \<longrightarrow> c \<in> marked h"
  shows "dfs_inv h0 s goal (butlast path) h"
proof -
  obtain xs x where "path = xs @ [x]" using assms(2) by (cases path rule: rev_cases) auto
  then have path: "butlast path = xs" "last path = x" "set path = insert x (set xs)" "path = xs @ [x]" by auto
  have closed: "dfs_closed h0 s xs h"
    unfolding dfs_closed_def
  proof
    fix p assume p: "p \<in> marked h \<inter> reached h0 s - set xs"
    show "\<forall>c. child_of h0 p c \<longrightarrow> c \<in> marked h"
    proof (cases "p = x")
      case True
      then show ?thesis using assms(4) unfolding path(2) by blast
    next
      case False
      then have "p \<in> marked h \<inter> reached h0 s - set path" using p path(3) by blast
      then show ?thesis using assms(1) unfolding dfs_inv_def dfs_closed_def by blast
    qed
  qed
  have "xs \<noteq> [] \<longrightarrow> hd xs = s" using assms(1) by (cases xs) (simp_all add: path dfs_inv_def)
  moreover have "goal \<notin> marked h \<inter> reached h0 s" using assms(1-3) unfolding dfs_inv_def by blast
  moreover have "successively (child_of h0) xs"
    using assms(1) by (simp add: dfs_inv_def path(4) successively_append_iff)
  ultimately show ?thesis
    using assms(1) closed unfolding dfs_inv_def path(1) path(3) by auto
qed

lemma dfs_inv_push:
  assumes "dfs_inv h0 s goal path h" and "path \<noteq> []" and "last path \<noteq> goal"
    and "child_of h0 (last path) c" and "strip h' = strip h" and "marked h' = insert c (marked h)"
  shows "dfs_inv h0 s goal (path @ [c]) h'"
proof -
  have "last path \<in> reached h0 s" using assms(1,2) last_in_set [of path] unfolding dfs_inv_def by blast
  then have c: "c \<in> reached h0 s" using assms(4) reached_step by blast
  have goal: "goal \<notin> marked h \<inter> reached h0 s" using assms(1-3) unfolding dfs_inv_def by blast
  have "successively (child_of h0) (path @ [c])"
    using assms(1,2,4) by (simp add: dfs_inv_def successively_append_iff)
  moreover have "set (path @ [c]) \<subseteq> reached h0 s" "hd (path @ [c]) = s" "strip h' = strip h0"
    using assms(1,2,5) c by (simp_all add: dfs_inv_def)
  moreover have "dfs_closed h0 s (path @ [c]) h'"
    using assms(1) unfolding dfs_inv_def dfs_closed_def assms(6) set_append list.set by blast
  moreover have "goal \<in> marked h' \<inter> reached h0 s \<longrightarrow> last (path @ [c]) = goal"
    using goal unfolding assms(6) by auto
  moreover have "s \<in> marked h'" using assms(1,6) by (simp add: dfs_inv_def)
  ultimately show ?thesis unfolding dfs_inv_def by simp
qed

lemma child_of_iff: "h p = Some n \<Longrightarrow> child_of h p c \<longleftrightarrow> c \<in> set (children_m n)"
  by (simp add: child_of_def)

lemma dfs_loop_correct:
  assumes "finite (reached h0 s)" and dom: "reached h0 s \<subseteq> dom h0"
  shows "dfs_inv h0 s goal path h \<Longrightarrow>
    \<exists>path' h'. dfs_loop goal path h = Some (path', h') \<and> dfs_inv h0 s goal path' h'
      \<and> (path' = [] \<or> last path' = goal)"
proof (induction "2 * card (reached h0 s - marked h) + length path" arbitrary: path h rule: less_induct)
  case less
  show ?case
  proof (cases "path = [] \<or> last path = goal")
    case True
    then show ?thesis using less.prems by (subst dfs_loop.simps) auto
  next
    case False
    have st: "strip h = strip h0" and last_in: "last path \<in> reached h0 s"
      using less.prems False last_in_set [of path] unfolding dfs_inv_def by blast+
    obtain n where n: "h (last path) = Some n" using last_in dom dom_strip [OF st] by blast
    have child: "child_of h0 (last path) c \<longleftrightarrow> c \<in> set (children_m n)" for c
      using child_of_iff [of h "last path" n c] n child_of_strip [OF st] by simp
    then have kids: "set (children_m n) \<subseteq> reached h0 s" using reached_step [OF last_in] by blast
    then have "set (children_m n) \<subseteq> dom h" using dom dom_strip [OF st] by blast
    then consider "first_unvisited h (children_m n) = Some None" "set (children_m n) \<subseteq> marked h"
      | c where "c \<in> set (children_m n)" "c \<notin> marked h" "first_unvisited h (children_m n) = Some (Some c)"
      using first_unvisited_cases [of "children_m n" h] by blast
    then show ?thesis
    proof cases
      case 1
      have inv: "dfs_inv h0 s goal (butlast path) h"
        using less.prems False 1(2) child by (intro dfs_inv_pop) auto
      have "dfs_loop goal path h = dfs_loop goal (butlast path) h"
        using False by (subst dfs_loop.simps) (simp add: n 1(1))
      then show ?thesis using less.hyps [OF _ inv] False by simp
    next
      case 2
      have c: "c \<in> reached h0 s" "c \<in> dom h" using 2(1) kids dom dom_strip [OF st] by blast+
      then obtain h' where h': "set_visited h c True = Some h'" "strip h' = strip h" "marked h' = insert c (marked h)"
        using set_visited_Some [of c h True] by auto
      have inv: "dfs_inv h0 s goal (path @ [c]) h'"
        using less.prems False 2(1) child h'(2,3) by (intro dfs_inv_push) auto
      have "dfs_loop goal path h = dfs_loop goal (path @ [c]) h'"
        using False by (subst dfs_loop.simps) (simp add: n 2(3) h'(1))
      moreover have "card (reached h0 s - marked h') < card (reached h0 s - marked h)"
        using c(1) 2(2) assms(1) unfolding h'(3) by (intro psubset_card_mono) auto
      ultimately show ?thesis using less.hyps [OF _ inv] by simp
    qed
  qed
qed

text \<open>
  What is assumed of the stored graph: the roadmap's nodes exist, and every node that can be
  reached from the start is one of the roadmap's (so its flag is cleared first).
\<close>

definition search_ok :: "'w mach \<Rightarrow> nat \<Rightarrow> nat \<Rightarrow> bool" where
  "search_ok m r s \<longleftrightarrow>
     (\<exists>rm. rheap m r = Some rm \<and> set (nodes_m rm) \<subseteq> dom (nheap m) \<and>
        reached (nheap m) s \<subseteq> set (nodes_m rm))"

lemma DFS_correct:
  assumes "search_ok m r s"
  obtains path h' where "DFS m r s goal = Some (path, m\<lparr>nheap := h'\<rparr>)"
    and "strip h' = strip (nheap m)"
    and "path = [] \<longleftrightarrow> goal \<notin> reached (nheap m) s"
    and "path \<noteq> [] \<Longrightarrow> hd path = s \<and> last path = goal \<and> successively (child_of (nheap m)) path"
proof -
  let ?h0 = "nheap m"
  obtain rm where rm: "rheap m r = Some rm" "set (nodes_m rm) \<subseteq> dom ?h0" "reached ?h0 s \<subseteq> set (nodes_m rm)"
    using assms by (auto simp: search_ok_def)
  have s: "s \<in> reached ?h0 s" by (simp add: reached_def)
  have fin: "finite (reached ?h0 s)" and dom: "reached ?h0 s \<subseteq> dom ?h0"
    using rm by (auto intro: finite_subset)
  obtain h1 where h1: "clear_flags ?h0 (nodes_m rm) = Some h1" "strip h1 = strip ?h0"
      "marked h1 = marked ?h0 - set (nodes_m rm)"
    using clear_flags_Some [OF rm(2)] by blast
  have "s \<in> dom h1" using s dom dom_strip [OF h1(2)] by blast
  then obtain h2 where h2: "set_visited h1 s True = Some h2" "strip h2 = strip h1" "marked h2 = insert s (marked h1)"
    using set_visited_Some [of s h1 True] by auto
  have "marked h2 \<inter> reached ?h0 s = {s}" using h1(3) h2(3) rm(3) s by auto
  then have "dfs_closed ?h0 s [s] h2" "goal \<in> marked h2 \<inter> reached ?h0 s \<longrightarrow> goal = s"
    unfolding dfs_closed_def by auto
  then have inv: "dfs_inv ?h0 s goal [s] h2"
    using h1(2) h2(2,3) s by (auto simp: dfs_inv_def)
  obtain path h' where loop: "dfs_loop goal [s] h2 = Some (path, h')" and inv': "dfs_inv ?h0 s goal path h'"
      and fin': "path = [] \<or> last path = goal"
    using dfs_loop_correct [OF fin dom inv] by blast
  have run: "DFS m r s goal = Some (path, m\<lparr>nheap := h'\<rparr>)"
    by (simp add: DFS_def rm(1) h1(1) h2(1) loop)
  have "goal \<notin> reached ?h0 s" if "path = []" using dfs_inv_exhausted [of ?h0 s goal h'] inv' that by simp
  moreover have "hd path = s \<and> last path = goal \<and> successively (child_of ?h0) path \<and> goal \<in> reached ?h0 s"
    if "path \<noteq> []"
  proof -
    have "last path \<in> set path" using that by simp
    then show ?thesis using inv' fin' that by (auto simp: dfs_inv_def)
  qed
  moreover have "strip h' = strip ?h0" using inv' by (simp add: dfs_inv_def)
  ultimately show ?thesis using that [OF run] by blast
qed

text \<open>
  C4: the depth first search of \<open>Roadmap::DFS\<close> always returns, changes nothing but search
  flags, and finds a path exactly when there is one: the empty path says that the goal cannot
  be reached, any other path leads along edges from the start to the goal.
\<close>

theorem DFS_complete_and_sound:
  assumes "search_ok m r s"
  shows "\<exists>path h'. DFS m r s goal = Some (path, m\<lparr>nheap := h'\<rparr>) \<and> strip h' = strip (nheap m) \<and>
    (path = [] \<longleftrightarrow> goal \<notin> reached (nheap m) s) \<and>
    (path \<noteq> [] \<longrightarrow> hd path = s \<and> last path = goal \<and> successively (child_of (nheap m)) path)"
  using DFS_correct [OF assms, of goal] by metis

section \<open>The nearest node\<close>

lemma nearest_loop_mem:
  "nearest_loop m mob pos ps p d = Some (q, dq) \<Longrightarrow> q \<in> insert p (set ps)"
  by (induction ps arbitrary: p d) (auto simp: bind_Some_iff split: if_splits)

lemma nearest_loop_min:
  assumes "\<forall>q \<in> set ps. \<exists>d'. node_distance m mob pos q = Some d' \<and> d' \<noteq> NaN" and "d \<noteq> NaN"
  shows "\<exists>q dq. nearest_loop m mob pos ps p d = Some (q, dq) \<and> dq \<noteq> NaN \<and> \<not> dlt d dq \<and>
    (q = p \<and> dq = d \<or> q \<in> set ps \<and> node_distance m mob pos q = Some dq) \<and>
    (\<forall>x \<in> set ps. \<forall>d'. node_distance m mob pos x = Some d' \<longrightarrow> \<not> dlt d' dq)"
  using assms
proof (induction ps arbitrary: p d)
  case Nil
  then show ?case by (simp add: dlt_irrefl)
next
  case (Cons x ps)
  obtain dx where dx: "node_distance m mob pos x = Some dx" "dx \<noteq> NaN" using Cons.prems(1) by auto
  have rest: "\<forall>q \<in> set ps. \<exists>d'. node_distance m mob pos q = Some d' \<and> d' \<noteq> NaN" using Cons.prems(1) by simp
  show ?case
  proof (cases "dlt dx d")
    case True
    obtain q dq where q: "nearest_loop m mob pos ps x dx = Some (q, dq)" "dq \<noteq> NaN" "\<not> dlt dx dq"
        "q = x \<and> dq = dx \<or> q \<in> set ps \<and> node_distance m mob pos q = Some dq"
        "\<forall>x \<in> set ps. \<forall>d'. node_distance m mob pos x = Some d' \<longrightarrow> \<not> dlt d' dq"
      using Cons.IH [OF rest dx(2)] by blast
    have "\<not> dlt d dq" using True q(3) dlt_trans by blast
    then show ?thesis using q dx True by auto
  next
    case False
    obtain q dq where q: "nearest_loop m mob pos ps p d = Some (q, dq)" "dq \<noteq> NaN" "\<not> dlt d dq"
        "q = p \<and> dq = d \<or> q \<in> set ps \<and> node_distance m mob pos q = Some dq"
        "\<forall>x \<in> set ps. \<forall>d'. node_distance m mob pos x = Some d' \<longrightarrow> \<not> dlt d' dq"
      using Cons.IH [OF rest Cons.prems(2)] by blast
    have "\<not> dlt dx dq" using False q(2,3) Cons.prems(2) dx(2) not_dlt_trans by blast
    then show ?thesis using q dx False by auto
  qed
qed

lemma findNearestNode_mem:
  "findNearestNode m r pos = Some (Some (p, d)) \<Longrightarrow> rheap m r = Some rm \<Longrightarrow> p \<in> set (nodes_m rm)"
  by (auto simp: findNearestNode_def bind_Some_iff split: list.splits dest: nearest_loop_mem)

text \<open>
  C10: on a roadmap with nodes, all of whose distances to \<open>pos\<close> are numbers, \<open>findNearestNode\<close>
  returns a node of the roadmap and its distance, and no other node is closer.
\<close>

theorem findNearestNode_nearest:
  assumes "rheap m r = Some rm" and "nodes_m rm \<noteq> []" and "mobility_m (planner m) = Some mob"
    and "\<forall>q \<in> set (nodes_m rm). \<exists>d. node_distance m mob pos q = Some d \<and> d \<noteq> NaN"
  shows "\<exists>p d. findNearestNode m r pos = Some (Some (p, d)) \<and> p \<in> set (nodes_m rm) \<and>
    node_distance m mob pos p = Some d \<and>
    (\<forall>q \<in> set (nodes_m rm). \<forall>d'. node_distance m mob pos q = Some d' \<longrightarrow> \<not> dlt d' d)"
proof -
  obtain x ps where ps: "nodes_m rm = x # ps" using assms(2) by (cases "nodes_m rm") auto
  obtain dx where dx: "node_distance m mob pos x = Some dx" "dx \<noteq> NaN" using assms(4) ps by auto
  have rest: "\<forall>q \<in> set ps. \<exists>d. node_distance m mob pos q = Some d \<and> d \<noteq> NaN" using assms(4) ps by simp
  obtain q dq where q: "nearest_loop m mob pos ps x dx = Some (q, dq)" "\<not> dlt dx dq"
      "q = x \<and> dq = dx \<or> q \<in> set ps \<and> node_distance m mob pos q = Some dq"
      "\<forall>x \<in> set ps. \<forall>d'. node_distance m mob pos x = Some d' \<longrightarrow> \<not> dlt d' dq"
    using nearest_loop_min [OF rest dx(2), of x] by blast
  have "findNearestNode m r pos = Some (Some (q, dq))"
    by (simp add: findNearestNode_def assms(1,3) ps dx(1) q(1))
  then show ?thesis using q dx ps by auto
qed

section \<open>Edges\<close>

definition children_at :: "node_heap \<Rightarrow> nat \<Rightarrow> nat list" where
  "children_at h p = (case h p of None \<Rightarrow> [] | Some n \<Rightarrow> children_m n)"

definition parents_at :: "node_heap \<Rightarrow> nat \<Rightarrow> nat list" where
  "parents_at h p = (case h p of None \<Rightarrow> [] | Some n \<Rightarrow> parents_m n)"

text \<open>Child and parent lists mirror each other, with multiplicities.\<close>

definition mirrored :: "node_heap \<Rightarrow> bool" where
  "mirrored h \<longleftrightarrow> (\<forall>p q. count_list (children_at h p) q = count_list (parents_at h q) p)"

lemma addChild_at:
  "addChild h p q = Some h' \<Longrightarrow>
     children_at h' x = children_at h x @ (if x = p then [q] else []) \<and> parents_at h' x = parents_at h x"
  by (auto simp: addChild_def bind_Some_iff children_at_def parents_at_def)

lemma addParent_at:
  "addParent h p q = Some h' \<Longrightarrow>
     parents_at h' x = parents_at h x @ (if x = p then [q] else []) \<and> children_at h' x = children_at h x"
  by (auto simp: addParent_def bind_Some_iff children_at_def parents_at_def)

lemma removeChild_at:
  "removeChild h p q = Some (ok, h') \<Longrightarrow>
     (ok \<longleftrightarrow> q \<in> set (children_at h p)) \<and>
     children_at h' x = (if x = p then remove1 q (children_at h x) else children_at h x) \<and>
     parents_at h' x = parents_at h x"
  by (auto simp: removeChild_def bind_Some_iff children_at_def parents_at_def remove1_idem split: if_splits)

lemma removeParent_at:
  "removeParent h p q = Some (ok, h') \<Longrightarrow>
     (ok \<longleftrightarrow> q \<in> set (parents_at h p)) \<and>
     parents_at h' x = (if x = p then remove1 q (parents_at h x) else parents_at h x) \<and>
     children_at h' x = children_at h x"
  by (auto simp: removeParent_def bind_Some_iff children_at_def parents_at_def remove1_idem split: if_splits)

lemma addEdge_SomeD:
  assumes "addEdge m r a b = Some m'"
  shows "children_at (nheap m') p = children_at (nheap m) p @ (if p = a then [b] else [])"
    and "parents_at (nheap m') p = parents_at (nheap m) p @ (if p = b then [a] else [])"
proof -
  obtain h1 h2 where h: "addChild (nheap m) a b = Some h1" "addParent h1 b a = Some h2" "nheap m' = h2"
    using assms by (auto simp: addEdge_def bind_Some_iff)
  then show "children_at (nheap m') p = children_at (nheap m) p @ (if p = a then [b] else [])"
    and "parents_at (nheap m') p = parents_at (nheap m) p @ (if p = b then [a] else [])"
    using addChild_at [OF h(1), of p] addParent_at [OF h(2), of p] by simp_all
qed

lemma removeEdge_SomeD:
  assumes "removeEdge m a b = Some (ok, m')" and "mirrored (nheap m)"
  shows "rheap m' = rheap m"
    and "ok \<longleftrightarrow> b \<in> set (children_at (nheap m) a)"
    and "children_at (nheap m') p = (if p = a then remove1 b (children_at (nheap m) p) else children_at (nheap m) p)"
    and "parents_at (nheap m') p = (if p = b then remove1 a (parents_at (nheap m) p) else parents_at (nheap m) p)"
proof -
  have mir: "b \<in> set (children_at (nheap m) a) \<longleftrightarrow> a \<in> set (parents_at (nheap m) b)"
    using assms(2) unfolding mirrored_def by (metis count_list_0_iff)
  obtain r1 h1 where 1: "removeChild (nheap m) a b = Some (r1, h1)"
    using assms(1) by (auto simp: removeEdge_def bind_Some_iff)
  note c = removeChild_at [OF 1]
  have "rheap m' = rheap m \<and> (ok \<longleftrightarrow> b \<in> set (children_at (nheap m) a)) \<and>
      children_at (nheap m') p = (if p = a then remove1 b (children_at (nheap m) p) else children_at (nheap m) p) \<and>
      parents_at (nheap m') p = (if p = b then remove1 a (parents_at (nheap m) p) else parents_at (nheap m) p)"
  proof (cases r1)
    case False
    then have "a \<notin> set (parents_at (nheap m) b)" using c mir by blast
    then show ?thesis
      using assms(1) 1 False c [of p] by (auto simp: removeEdge_def remove1_idem)
  next
    case True
    then obtain h2 where 2: "removeParent h1 b a = Some (ok, h2)" and m': "m' = m\<lparr>nheap := h2\<rparr>"
      using assms(1) 1 by (auto simp: removeEdge_def bind_Some_iff)
    show ?thesis
      using removeParent_at [OF 2, of p] c [of p] c [of b] True mir by (simp add: m')
  qed
  then show "rheap m' = rheap m"
    and "ok \<longleftrightarrow> b \<in> set (children_at (nheap m) a)"
    and "children_at (nheap m') p = (if p = a then remove1 b (children_at (nheap m) p) else children_at (nheap m) p)"
    and "parents_at (nheap m') p = (if p = b then remove1 a (parents_at (nheap m) p) else parents_at (nheap m) p)"
    by blast+
qed

lemma count_list_remove1: "count_list (remove1 x xs) y = (if x = y then count_list xs y - 1 else count_list xs y)"
  by (induction xs) (auto simp: count_list_0_iff)

text \<open>
  C11: \<open>addEdge\<close> and \<open>removeEdge\<close> keep the child and parent lists mirrored, \<open>removeEdge\<close> says
  whether the edge was there and takes one copy of it away; \<open>addEdge\<close> counts the edge, but
  \<open>removeEdge\<close> leaves the edge counter of every roadmap as it is.
\<close>

theorem edges_mirrored:
  assumes "mirrored (nheap m)"
  shows "(addEdge m r a b = Some m1 \<longrightarrow> mirrored (nheap m1) \<and>
      map_option m_nEdges (rheap m1 r) = map_option (\<lambda>rm. m_nEdges rm + 1) (rheap m r)) \<and>
    (removeEdge m a b = Some (ok, m2) \<longrightarrow> mirrored (nheap m2) \<and> rheap m2 = rheap m \<and>
      (ok \<longleftrightarrow> b \<in> set (children_at (nheap m) a)) \<and>
      children_at (nheap m2) a = remove1 b (children_at (nheap m) a))"
proof (intro conjI impI)
  assume eq: "addEdge m r a b = Some m1"
  show "mirrored (nheap m1)"
    using assms by (auto simp: mirrored_def addEdge_SomeD [OF eq])
  show "map_option m_nEdges (rheap m1 r) = map_option (\<lambda>rm. m_nEdges rm + 1) (rheap m r)"
    using eq by (auto simp: addEdge_def bind_Some_iff)
next
  assume eq: "removeEdge m a b = Some (ok, m2)"
  note eqs = removeEdge_SomeD [OF eq assms]
  show "mirrored (nheap m2)"
    using assms by (auto simp: mirrored_def eqs(3,4) count_list_remove1)
  show "rheap m2 = rheap m" "ok \<longleftrightarrow> b \<in> set (children_at (nheap m) a)"
      "children_at (nheap m2) a = remove1 b (children_at (nheap m) a)"
    using eqs by simp_all
qed

end
