(* ===== verification/CStdlib.thy ===== *)
theory CStdlib
  imports Binary64
begin

text \<open>
  What the program uses of the C library's number parsing (\<open>stdlib.h\<close>, C locale): \<open>atoi\<close>,
  \<open>atof\<close> and \<open>strtod\<close>. A string is given without its terminating NUL; a parser returns the
  value and the rest of the string.
\<close>

section \<open>Characters\<close>

definition code :: "char \<Rightarrow> nat" where
  "code c = of_char c"

definition c_isspace :: "char \<Rightarrow> bool" where
  "c_isspace c = (code c = 32 \<or> 9 \<le> code c \<and> code c \<le> 13)"

definition c_isdigit :: "char \<Rightarrow> bool" where
  "c_isdigit c = (48 \<le> code c \<and> code c \<le> 57)"

definition c_isalpha :: "char \<Rightarrow> bool" where
  "c_isalpha c = (65 \<le> code c \<and> code c \<le> 90 \<or> 97 \<le> code c \<and> code c \<le> 122)"

definition c_isxdigit :: "char \<Rightarrow> bool" where
  "c_isxdigit c = (c_isdigit c \<or> 65 \<le> code c \<and> code c \<le> 70 \<or> 97 \<le> code c \<and> code c \<le> 102)"

definition c_tolower :: "char \<Rightarrow> char" where
  "c_tolower c = (if 65 \<le> code c \<and> code c \<le> 90 then char_of (code c + 32) else c)"

text \<open>The value of a digit or letter in bases up to 36.\<close>

definition digit_val :: "char \<Rightarrow> nat" where
  "digit_val c =
     (if c_isdigit c then code c - 48
      else if c_isalpha c then code (c_tolower c) - 87
      else 36)"

definition digits_val :: "nat \<Rightarrow> string \<Rightarrow> int" where
  "digits_val base ds = foldl (\<lambda>v c. v * int base + int (digit_val c)) 0 ds"

section \<open>Integers\<close>

definition take_sign :: "string \<Rightarrow> bool \<times> string" where
  "take_sign s =
     (case s of
        c # cs \<Rightarrow> if c = CHR ''-'' then (True, cs) else if c = CHR ''+'' then (False, cs) else (False, s)
      | [] \<Rightarrow> (False, s))"

text \<open>\<open>atoi\<close>: undefined when the value is no \<open>int\<close>; \<open>0\<close> when there is no number.\<close>

definition c_atoi :: "string \<Rightarrow> int option" where
  "c_atoi s =
     (let (neg, t) = take_sign (dropWhile c_isspace s);
          v = digits_val 10 (takeWhile c_isdigit t);
          w = (if neg then - v else v)
      in if - (2 ^ 31) \<le> w \<and> w < 2 ^ 31 then Some w else None)"

section \<open>Floating point numbers\<close>

text \<open>An exponent part \<open>e[+-]digits\<close>; without digits it is not part of the number.\<close>

definition take_exp :: "char \<Rightarrow> string \<Rightarrow> int \<times> string" where
  "take_exp e s =
     (case s of
        c # cs \<Rightarrow>
          if c_tolower c = e then
            (let (neg, t) = take_sign cs; ds = takeWhile c_isdigit t
             in if ds = [] then (0, s)
                else ((if neg then - digits_val 10 ds else digits_val 10 ds), dropWhile c_isdigit t))
          else (0, s)
      | [] \<Rightarrow> (0, s))"

text \<open>\<open>digits[.digits]\<close>: all the digits, how many of them are fractional, and the rest.\<close>

definition take_mantissa :: "(char \<Rightarrow> bool) \<Rightarrow> string \<Rightarrow> string \<times> nat \<times> string" where
  "take_mantissa isd s =
     (let a = takeWhile isd s; r = dropWhile isd s
      in case r of
           c # cs \<Rightarrow>
             if c = CHR ''.'' then
               (let f = takeWhile isd cs
                in if a = [] \<and> f = [] then ([], 0, s) else (a @ f, length f, dropWhile isd cs))
             else (a, 0, r)
         | [] \<Rightarrow> (a, 0, r))"

definition has_prefix :: "string \<Rightarrow> string \<Rightarrow> bool" where
  "has_prefix p s = (map c_tolower (take (length p) s) = p)"

definition c_strtod :: "string \<Rightarrow> double \<times> string" where
  "c_strtod s =
     (let (neg, t) = take_sign (dropWhile c_isspace s);
          sg = (\<lambda>x. if neg then dneg x else x)
      in if has_prefix ''infinity'' t then (Inf neg, drop 8 t)
         else if has_prefix ''inf'' t then (Inf neg, drop 3 t)
         else if has_prefix ''nan'' t then (NaN, drop 3 t)
         else
           let (hd, hf, hr) = take_mantissa c_isxdigit (drop 2 t)
           in if has_prefix ''0x'' t \<and> hd \<noteq> [] then
                (let (e, r) = take_exp (CHR ''p'') hr
                 in (sg (rnd (of_int (digits_val 16 hd) * 2 powi (e - 4 * int hf))), r))
              else
                let (dd, df, dr) = take_mantissa c_isdigit t
                in if dd = [] then (Fin 0, s)
                   else (let (e, r) = take_exp (CHR ''e'') dr
                         in (sg (rnd (of_int (digits_val 10 dd) * 10 powi (e - int df))), r)))"

definition c_atof :: "string \<Rightarrow> double" where
  "c_atof s = fst (c_strtod s)"

section \<open>More of \<open>ctype.h\<close> and \<open>strtol\<close>\<close>

definition c_isalnum :: "char \<Rightarrow> bool" where
  "c_isalnum c = (c_isalpha c \<or> c_isdigit c)"

definition c_isgraph :: "char \<Rightarrow> bool" where
  "c_isgraph c = (33 \<le> code c \<and> code c \<le> 126)"

definition c_ispunct :: "char \<Rightarrow> bool" where
  "c_ispunct c = (c_isgraph c \<and> \<not> c_isalnum c)"

definition c_iscntrl :: "char \<Rightarrow> bool" where
  "c_iscntrl c = (code c < 32 \<or> code c = 127)"

definition c_isascii :: "char \<Rightarrow> bool" where
  "c_isascii c = (code c < 128)"

text \<open>A \<open>char\<close> as an \<open>int\<close>: the type is signed.\<close>

definition schar :: "char \<Rightarrow> int" where
  "schar c = (if code c < 128 then int (code c) else int (code c) - 256)"

text \<open>
  \<open>strtol (s, \&tail, 0)\<close>: hexadecimal after \<open>0x\<close>, octal after \<open>0\<close>, else decimal, clamped to
  a 64 bit \<open>long\<close>; without digits the tail is the whole string.
\<close>

definition number_base :: "string \<Rightarrow> nat \<times> string" where
  "number_base t =
     (case t of
        z # x # d # r \<Rightarrow>
          if z = CHR ''0'' \<and> c_tolower x = CHR ''x'' \<and> c_isxdigit d then (16, d # r)
          else if z = CHR ''0'' then (8, t) else (10, t)
      | z # r \<Rightarrow> if z = CHR ''0'' then (8, t) else (10, t)
      | [] \<Rightarrow> (10, t))"

definition c_strtol :: "string \<Rightarrow> int \<times> string" where
  "c_strtol s =
     (let (neg, t) = take_sign (dropWhile c_isspace s);
          (base, d) = number_base t;
          ds = takeWhile (\<lambda>c. digit_val c < base) d;
          v = digits_val base ds;
          w = (if neg then - v else v)
      in if ds = [] then (0, s)
         else (max (- (2 ^ 63)) (min (2 ^ 63 - 1) w), dropWhile (\<lambda>c. digit_val c < base) d))"

text \<open>A \<open>long\<close> stored in an \<open>int\<close> keeps its low 32 bits.\<close>

definition to_int32 :: "int \<Rightarrow> int" where
  "to_int32 v = (v + 2 ^ 31) mod 2 ^ 32 - 2 ^ 31"

text \<open>The decimal numeral of a number, as \<open>std::ostream\<close> and \<open>boost::format\<close> print it.\<close>

fun decimal :: "nat \<Rightarrow> string" where
  "decimal n = (if n < 10 then [char_of (48 + n)] else decimal (n div 10) @ [char_of (48 + n mod 10)])"

declare decimal.simps [simp del]

definition decimal_int :: "int \<Rightarrow> string" where
  "decimal_int i = (if i < 0 then CHR ''-'' # decimal (nat (- i)) else decimal (nat i))"

section \<open>Lemmas\<close>

lemma c_atoi_bounds: "c_atoi s = Some v \<Longrightarrow> - (2 ^ 31) \<le> v \<and> v < 2 ^ 31"
  by (auto simp: c_atoi_def Let_def split: prod.splits if_splits)

lemma to_int32_id: "- (2 ^ 31) \<le> v \<Longrightarrow> v < 2 ^ 31 \<Longrightarrow> to_int32 v = v"
  by (simp add: to_int32_def)

lemma code_less: "code c < 256"
  by (simp add: code_def)

lemma code_char_of: "n < 256 \<Longrightarrow> code (char_of n) = n"
  by (simp add: code_def)

lemma digit_char:
  assumes "n < 10"
  shows "c_isdigit (char_of (48 + n))" "digit_val (char_of (48 + n)) = n" "code (char_of (48 + n)) = 48 + n"
  using assms code_char_of [of "48 + n"] by (simp_all add: c_isdigit_def digit_val_def)

lemma decimal_digits: "decimal n \<noteq> [] \<and> (\<forall>c \<in> set (decimal n). c_isdigit c)"
proof (induction n rule: decimal.induct)
  case (1 n)
  then show ?case
    by (subst decimal.simps) (auto simp: decimal.simps [of n] digit_char)
qed

lemma digits_val_decimal: "digits_val 10 (decimal n) = int n"
proof (induction n rule: decimal.induct)
  case (1 n)
  show ?case
  proof (cases "n < 10")
    case True
    then show ?thesis by (simp add: decimal.simps [of n] digits_val_def digit_char)
  next
    case False
    then have "digits_val 10 (decimal (n div 10)) = int (n div 10)" using 1 by simp
    then show ?thesis
      using False by (simp add: decimal.simps [of n] digits_val_def digit_char) presburger
  qed
qed

lemma decimal_no_leading_zero: "0 < n \<Longrightarrow> hd (decimal n) \<noteq> CHR ''0''"
proof (induction n rule: decimal.induct)
  case (1 n)
  show ?case
  proof (cases "n < 10")
    case True
    then have "code (char_of (48 + n)) \<noteq> code (CHR ''0'')" using 1 digit_char(3) [of n] by (simp add: code_def)
    then show ?thesis using True by (auto simp: decimal.simps [of n])
  next
    case False
    then show ?thesis using 1 decimal_digits [of "n div 10"] by (simp add: decimal.simps [of n])
  qed
qed

text \<open>A parser's tail is what is left of its input.\<close>

lemma take_sign_suffix: "take_sign s = (b, t) \<Longrightarrow> \<exists>p. s = p @ t"
  by (auto simp: take_sign_def split: list.splits if_splits)

lemma number_base_suffix: "number_base t = (b, d) \<Longrightarrow> \<exists>p. t = p @ d"
  unfolding number_base_def by (auto split: list.splits if_splits)

lemma c_strtol_suffix: "c_strtol s = (v, t) \<Longrightarrow> \<exists>p. s = p @ t"
proof -
  assume run: "c_strtol s = (v, t)"
  obtain neg u where u: "take_sign (dropWhile c_isspace s) = (neg, u)" by fastforce
  obtain base d where d: "number_base u = (base, d)" by fastforce
  obtain p q where p: "dropWhile c_isspace s = p @ u" and q: "u = q @ d"
    using take_sign_suffix [OF u] number_base_suffix [OF d] by blast
  let ?P = "\<lambda>c. digit_val c < base"
  have "s = takeWhile c_isspace s @ p @ q @ takeWhile ?P d @ dropWhile ?P d"
    using p q takeWhile_dropWhile_id [of c_isspace s] by simp
  then have "\<exists>x. s = x @ dropWhile ?P d" by (metis append.assoc)
  then show ?thesis using run by (auto simp: c_strtol_def u d Let_def split: if_splits)
qed

end
