(* ===== verification/AlgorithmModel.thy ===== *)
theory AlgorithmModel
  imports RoadmapModel CStdlib
begin

text \<open>
  \<open>hrplib/hrpPlanner/Algorithm.{h,cpp}\<close>: what every planning algorithm inherits, its
  properties, the direct connection and the preparation of a planning run. The object is a
  record passed beside the machine; a subclass extends the record, and the operations work
  on every extension.
\<close>

section \<open>The object\<close>

record Algorithm =
  start_m :: Configuration
  goal_m :: Configuration
  properties_m :: "string smap"
  isRunning_m :: bool
  path_m :: "Configuration list"
  roadmap_m :: nat
  verbose_m :: bool
  ignoreCollisionAtStart_m :: bool
  ignoreCollisionAtGoal_m :: bool

text \<open>
  The constructor leaves the two \<open>ignoreCollision\<close> flags unset: \<open>u1\<close> and \<open>u2\<close> are what
  the memory holds.
\<close>

definition Algorithm_new :: "'w mach \<Rightarrow> bool \<Rightarrow> bool \<Rightarrow> Algorithm \<times> 'w mach" where
  "Algorithm_new m u1 u2 =
     (let (r, m1) = Roadmap_new m; n = cs_size (cspace_m (planner m))
      in (\<lparr>start_m = Configuration_new n, goal_m = Configuration_new n,
           properties_m = smap_put ''interpolation-distance'' ''0.1'' [],
           isRunning_m = False, path_m = [], roadmap_m = r, verbose_m = False,
           ignoreCollisionAtStart_m = u1, ignoreCollisionAtGoal_m = u2\<rparr>, m1))"

definition setProperty :: "'a Algorithm_scheme \<Rightarrow> string \<Rightarrow> string \<Rightarrow> 'a Algorithm_scheme" where
  "setProperty al k v = al\<lparr>properties_m := smap_put k v (properties_m al)\<rparr>"

fun setProperties :: "'a Algorithm_scheme \<Rightarrow> string smap \<Rightarrow> 'a Algorithm_scheme" where
  "setProperties al [] = al"
| "setProperties al ((k, v) # ps) = setProperties (al\<lparr>properties_m := smap_put k v (properties_m al)\<rparr>) ps"

definition getProperties :: "'a Algorithm_scheme \<Rightarrow> string list \<times> string list" where
  "getProperties al = (map fst (properties_m al), map snd (properties_m al))"

definition setStartConfiguration :: "'a Algorithm_scheme \<Rightarrow> Configuration \<Rightarrow> 'a Algorithm_scheme" where
  "setStartConfiguration al pos = al\<lparr>start_m := pos\<rparr>"

definition setGoalConfiguration :: "'a Algorithm_scheme \<Rightarrow> Configuration \<Rightarrow> 'a Algorithm_scheme" where
  "setGoalConfiguration al pos = al\<lparr>goal_m := pos\<rparr>"

definition stopPlanning :: "'a Algorithm_scheme \<Rightarrow> 'a Algorithm_scheme" where
  "stopPlanning al = al\<lparr>isRunning_m := False\<rparr>"

definition ignoreCollisionAtGoal :: "'a Algorithm_scheme \<Rightarrow> bool \<Rightarrow> 'a Algorithm_scheme" where
  "ignoreCollisionAtGoal al b = al\<lparr>ignoreCollisionAtGoal_m := b\<rparr>"

definition ignoreCollisionAtStart :: "'a Algorithm_scheme \<Rightarrow> bool \<Rightarrow> 'a Algorithm_scheme" where
  "ignoreCollisionAtStart al b = al\<lparr>ignoreCollisionAtStart_m := b\<rparr>"

text \<open>\<open>properties_[key]\<close> as a read: a missing key becomes an empty string.\<close>

definition prop_index :: "'a Algorithm_scheme \<Rightarrow> string \<Rightarrow> string \<times> 'a Algorithm_scheme" where
  "prop_index al k = (let (v, ps) = smap_index '''' (properties_m al) k in (v, al\<lparr>properties_m := ps\<rparr>))"

text \<open>
  Reading \<open>isRunning_\<close>, which \<open>stopPlanning ()\<close> in another thread may have cleared
  meanwhile.
\<close>

definition poll :: "'w mach \<Rightarrow> 'a Algorithm_scheme \<Rightarrow> bool \<times> 'w mach \<times> 'a Algorithm_scheme" where
  "poll m al =
     (let r = (isRunning_m al \<and> \<not> stop_at m (polls m))
      in (r, m\<lparr>polls := polls m + 1\<rparr>, al\<lparr>isRunning_m := r\<rparr>))"

section \<open>Planning\<close>

definition tryDirectConnection :: "'w mach \<Rightarrow> 'a Algorithm_scheme \<Rightarrow> (bool \<times> 'w mach \<times> 'a Algorithm_scheme) option" where
  "tryDirectConnection m al =
     do { mob \<leftarrow> mobility_m (planner m);
          (ok, pl) \<leftarrow> isReachable (planner m) mob (start_m al) (goal_m al) True;
          Some (ok, m\<lparr>planner := pl\<rparr>,
                if ok then al\<lparr>path_m := path_m al @ [start_m al, goal_m al]\<rparr> else al) }"

text \<open>The two checks of one end: in the space, and free unless collisions are ignored there.\<close>

definition check_end :: "'w mach \<Rightarrow> Configuration \<Rightarrow> bool \<Rightarrow> (bool \<times> 'w mach) option" where
  "check_end m cfg ignore =
     do { valid \<leftarrow> isValid (cspace_m (planner m)) cfg;
          if \<not> valid then Some (False, m)
          else if ignore then Some (True, m)
          else do { (hit, pl) \<leftarrow> checkCollision_cfg (planner m) cfg;
                    Some (\<not> hit, m\<lparr>planner := pl\<rparr>) } }"

definition preparePlanning :: "'w mach \<Rightarrow> 'a Algorithm_scheme \<Rightarrow> (bool \<times> 'w mach \<times> 'a Algorithm_scheme) option" where
  "preparePlanning m al =
     (let (v, al1) = prop_index (al\<lparr>isRunning_m := True\<rparr>) ''interpolation-distance'';
          m1 = m\<lparr>planner := (planner m)\<lparr>interpolationDistance_m := c_atof v\<rparr>\<rparr>;
          al2 = al1\<lparr>path_m := []\<rparr>
      in do { (ok1, m2) \<leftarrow> check_end m1 (start_m al2) (ignoreCollisionAtStart_m al2);
              if \<not> ok1 then Some (False, m2, al2)
              else do { (ok2, m3) \<leftarrow> check_end m2 (goal_m al2) (ignoreCollisionAtGoal_m al2);
                        Some (ok2, m3, al2) } })"

section \<open>Properties\<close>

subsection \<open>The property table\<close>

lemma setProperties_wf: "smap_wf (properties_m al) \<Longrightarrow> smap_wf (properties_m (setProperties al ps))"
  by (induction al ps rule: setProperties.induct) auto

lemma setProperties_map_of:
  "smap_wf (properties_m al) \<Longrightarrow>
     map_of (properties_m (setProperties al ps)) = map_of (properties_m al) ++ map_of (rev ps)"
proof (induction al ps rule: setProperties.induct)
  case (2 al k v ps)
  then show ?case by (simp add: smap_wf_put map_of_smap_put) (auto simp: map_add_def fun_eq_iff split: option.split)
qed simp

text \<open>
  C15: after \<open>setProperties\<close>, \<open>getProperties\<close> lists every key once and in increasing order
  with its value beside it: the new value where one was given, else the old one.
\<close>

theorem setProperties_getProperties:
  assumes "smap_wf (properties_m al)" and "smap_wf ps"
    and "getProperties (setProperties al ps) = (names, vals)"
  shows "sorted_wrt (<) names \<and> length vals = length names \<and>
    map_of (zip names vals) = map_of (properties_m al) ++ map_of ps"
proof -
  let ?al = "setProperties al ps"
  have "map_of (rev ps) = map_of ps"
    using smap_wf_distinct [OF assms(2)]
    by (intro ext option.expand) (auto simp: map_of_eq_None_iff rev_map [symmetric] dest!: map_of_SomeD
        intro: map_of_is_SomeI)
  moreover have "zip names vals = properties_m ?al"
    using assms(3) by (auto simp: getProperties_def zip_map_fst_snd)
  moreover have "sorted_wrt (<) names"
    using setProperties_wf [OF assms(1), of ps] assms(3) by (auto simp: getProperties_def smap_wf_def)
  ultimately show ?thesis
    using setProperties_map_of [OF assms(1), of ps] assms(3) by (auto simp: getProperties_def)
qed

subsection \<open>Preparing a run\<close>

text \<open>What the two ends have to satisfy.\<close>

definition end_ok :: "(Configuration \<Rightarrow> bool) \<Rightarrow> ConfigurationSpace \<Rightarrow> Configuration \<Rightarrow> bool \<Rightarrow> bool" where
  "end_ok free cs cfg ignore \<longleftrightarrow>
     cfg_size cfg = m_size cs \<and> (\<forall>i < m_size cs. dof_ok cs cfg i) \<and> (ignore \<or> free cfg)"

text \<open>A step of the machine that only asked the planner.\<close>

definition asked :: "(Configuration \<Rightarrow> bool) \<Rightarrow> 'w mach \<Rightarrow> 'w mach \<Rightarrow> bool" where
  "asked free m m' \<longleftrightarrow>
     m' = m\<lparr>planner := planner m'\<rparr> \<and> same_setup (planner m) (planner m') \<and> decides free (planner m')"

lemma asked_refl: "decides free (planner m) \<Longrightarrow> asked free m m"
  by (simp add: asked_def same_setup_refl)

lemma asked_planner: "same_setup (planner m) pl \<Longrightarrow> decides free pl \<Longrightarrow> asked free m (m\<lparr>planner := pl\<rparr>)"
  by (simp add: asked_def)

lemma asked_trans:
  assumes "asked free m1 m2" and "asked free m2 m3"
  shows "asked free m1 m3"
proof -
  have "m3 = m2\<lparr>planner := planner m3\<rparr>" using assms(2) by (simp add: asked_def)
  also have "m2\<lparr>planner := planner m3\<rparr> = m1\<lparr>planner := planner m3\<rparr>"
    using assms(1) by (cases m1; cases m2) (simp add: asked_def)
  finally show ?thesis
    using assms same_setup_trans unfolding asked_def by blast
qed

lemma asked_fields:
  assumes "asked free m m'"
  shows "nheap m' = nheap m" "rheap m' = rheap m" "next_node m' = next_node m" "next_map m' = next_map m"
    "cspace_m (planner m') = cspace_m (planner m)" "mobility_m (planner m') = mobility_m (planner m)"
    "interpolationDistance_m (planner m') = interpolationDistance_m (planner m)"
proof -
  have m': "m' = m\<lparr>planner := planner m'\<rparr>" using assms by (simp add: asked_def)
  show "nheap m' = nheap m" "rheap m' = rheap m" "next_node m' = next_node m" "next_map m' = next_map m"
    by (subst m', simp)+
qed (use assms in \<open>auto simp: asked_def frame_simps\<close>)

lemma check_end_spec:
  assumes "decides free (planner m)" and "cs_wf (cspace_m (planner m))"
  shows "\<exists>m'. check_end m cfg ignore = Some (end_ok free (cspace_m (planner m)) cfg ignore, m') \<and> asked free m m'"
proof -
  obtain pl where pl: "checkCollision_cfg (planner m) cfg = Some (\<not> free cfg, pl)" "decides free pl"
      "same_setup (planner m) pl"
    using planner_oracle.check [OF assms(1)] by blast
  have "asked free m m" "asked free m (m\<lparr>planner := pl\<rparr>)"
    using asked_refl assms(1) asked_planner pl(2,3) by blast+
  then show ?thesis
    using isValid_eq [OF assms(2), of cfg] by (auto simp: check_end_def end_ok_def pl(1))
qed

lemma now_interpolationDistance:
  "map_option fst (checkCollision_now (pl\<lparr>interpolationDistance_m := d\<rparr>)) =
     map_option fst (checkCollision_now pl)"
  by (simp add: checkCollision_now_def defaultCheckCollision_def Let_def split: option.split)

lemma decides_interpolationDistance:
  "decides free (pl\<lparr>interpolationDistance_m := d\<rparr>) = decides free pl"
proof -
  have swap: "pl\<lparr>interpolationDistance_m := d, world_m := w\<rparr> = (pl\<lparr>world_m := w\<rparr>)\<lparr>interpolationDistance_m := d\<rparr>" for w
    by (cases pl) simp
  have "map_option fst (checkCollision_cfg ((pl\<lparr>world_m := w\<rparr>)\<lparr>interpolationDistance_m := d\<rparr>) c) =
      map_option fst (checkCollision_cfg (pl\<lparr>world_m := w\<rparr>) c)" for w c
  proof -
    obtain ok w' where ap: "m_applyConfigFunc pl w c = (ok, w')" by (cases "m_applyConfigFunc pl w c")
    show ?thesis
      using now_interpolationDistance [where pl = "pl\<lparr>world_m := w'\<rparr>" and d = d]
      by (simp add: checkCollision_cfg_def setConfiguration_def ap swap)
  qed
  then show ?thesis unfolding decides_def swap by simp
qed

lemma preparePlanning_run:
  assumes "decides free (planner m)" and "cs_wf (cspace_m (planner m))"
  shows "\<exists>m'. preparePlanning m al =
      Some (end_ok free (cspace_m (planner m)) (start_m al) (ignoreCollisionAtStart_m al) \<and>
            end_ok free (cspace_m (planner m)) (goal_m al) (ignoreCollisionAtGoal_m al), m',
        al\<lparr>isRunning_m := True, path_m := [],
           properties_m := snd (smap_index '''' (properties_m al) ''interpolation-distance'')\<rparr>) \<and>
    asked free (m\<lparr>planner := (planner m)\<lparr>interpolationDistance_m :=
       c_atof (fst (smap_index '''' (properties_m al) ''interpolation-distance''))\<rparr>\<rparr>) m'"
proof -
  let ?ix = "smap_index '''' (properties_m al) ''interpolation-distance''"
  let ?ok1 = "end_ok free (cspace_m (planner m)) (start_m al) (ignoreCollisionAtStart_m al)"
  let ?ok2 = "end_ok free (cspace_m (planner m)) (goal_m al) (ignoreCollisionAtGoal_m al)"
  define m1 where "m1 = m\<lparr>planner := (planner m)\<lparr>interpolationDistance_m := c_atof (fst ?ix)\<rparr>\<rparr>"
  have dec: "decides free (planner m1)" using assms(1) by (simp add: m1_def decides_interpolationDistance)
  have cs: "cspace_m (planner m1) = cspace_m (planner m)" by (simp add: m1_def)
  obtain m2 where m2: "check_end m1 (start_m al) (ignoreCollisionAtStart_m al) = Some (?ok1, m2)" "asked free m1 m2"
    using check_end_spec [OF dec] assms(2) unfolding cs by blast
  have dec2: "decides free (planner m2)" and cs2: "cspace_m (planner m2) = cspace_m (planner m)"
    using m2(2) asked_fields(5) [OF m2(2)] cs by (simp_all add: asked_def)
  obtain m3 where m3: "check_end m2 (goal_m al) (ignoreCollisionAtGoal_m al) = Some (?ok2, m3)" "asked free m2 m3"
    using check_end_spec [OF dec2] assms(2) unfolding cs2 by blast
  have "preparePlanning m al = Some (?ok1 \<and> ?ok2, if ?ok1 then m3 else m2,
      al\<lparr>isRunning_m := True, path_m := [], properties_m := snd ?ix\<rparr>)"
  proof -
    obtain v ps where ix: "?ix = (v, ps)" by (cases ?ix)
    let ?al2 = "al\<lparr>isRunning_m := True, properties_m := ps, path_m := []\<rparr>"
    have "preparePlanning m al =
        do { (ok1, m2) \<leftarrow> check_end m1 (start_m al) (ignoreCollisionAtStart_m al);
             if \<not> ok1 then Some (False, m2, ?al2)
             else do { (ok2, m3) \<leftarrow> check_end m2 (goal_m al) (ignoreCollisionAtGoal_m al);
                       Some (ok2, m3, ?al2) } }"
      by (simp add: preparePlanning_def prop_index_def ix m1_def Let_def cong: if_cong)
    also have "\<dots> = Some (?ok1 \<and> ?ok2, if ?ok1 then m3 else m2, ?al2)"
      by (simp add: m2(1) m3(1))
    finally show ?thesis by (simp add: ix)
  qed
  moreover have "asked free m1 (if ?ok1 then m3 else m2)"
    using m2(2) asked_trans [OF m2(2) m3(2)] by simp
  ultimately show ?thesis unfolding m1_def by blast
qed

text \<open>
  C7: on a well-formed space \<open>preparePlanning\<close> always returns. It says yes exactly when both
  ends lie in the space and are free (or their collisions are ignored); it clears the path,
  sets the running flag and the interpolation distance, and touches no roadmap.
\<close>

theorem preparePlanning_correct:
  assumes "decides free (planner m)" and "cs_wf (cspace_m (planner m))"
  shows "\<exists>ok m' al'. preparePlanning m al = Some (ok, m', al') \<and>
    (ok \<longleftrightarrow> end_ok free (cspace_m (planner m)) (start_m al) (ignoreCollisionAtStart_m al) \<and>
            end_ok free (cspace_m (planner m)) (goal_m al) (ignoreCollisionAtGoal_m al)) \<and>
    path_m al' = [] \<and> isRunning_m al' \<and> start_m al' = start_m al \<and> goal_m al' = goal_m al \<and>
    interpolationDistance_m (planner m') =
      c_atof (fst (smap_index '''' (properties_m al) ''interpolation-distance'')) \<and>
    nheap m' = nheap m \<and> rheap m' = rheap m \<and> decides free (planner m')"
proof -
  obtain m' where run: "preparePlanning m al =
      Some (end_ok free (cspace_m (planner m)) (start_m al) (ignoreCollisionAtStart_m al) \<and>
            end_ok free (cspace_m (planner m)) (goal_m al) (ignoreCollisionAtGoal_m al), m',
        al\<lparr>isRunning_m := True, path_m := [],
           properties_m := snd (smap_index '''' (properties_m al) ''interpolation-distance'')\<rparr>)"
    and asked: "asked free (m\<lparr>planner := (planner m)\<lparr>interpolationDistance_m :=
       c_atof (fst (smap_index '''' (properties_m al) ''interpolation-distance''))\<rparr>\<rparr>) m'"
    using preparePlanning_run [OF assms] by blast
  have "decides free (planner m')" using asked by (simp add: asked_def)
  then show ?thesis using run asked_fields [OF asked] by simp
qed

subsection \<open>Ways through the space\<close>

text \<open>
  A way from \<open>a\<close> to \<open>b\<close>: a list of waypoints with those ends, each reachable from the one
  before it along an interpolated path that is free inside.
\<close>

definition way :: "(Configuration \<Rightarrow> Configuration \<Rightarrow> bool) \<Rightarrow> Configuration \<Rightarrow> Configuration \<Rightarrow> Configuration list \<Rightarrow> bool" where
  "way good a b path \<longleftrightarrow> path \<noteq> [] \<and> hd path = a \<and> last path = b \<and> successively good path"

lemma tryDirectConnection_SomeD:
  assumes "decides free (planner m)" and "mobility_m (planner m) = Some mob"
    and "tryDirectConnection m al = Some (ok, m', al')"
  shows "asked free m m' \<and> ok = seg_free free (planner m) mob (start_m al) (goal_m al) \<and>
    al' = (if ok then al\<lparr>path_m := path_m al @ [start_m al, goal_m al]\<rparr> else al)"
proof -
  obtain pl where pl: "isReachable (planner m) mob (start_m al) (goal_m al) True = Some (ok, pl)"
      "m' = m\<lparr>planner := pl\<rparr>" "al' = (if ok then al\<lparr>path_m := path_m al @ [start_m al, goal_m al]\<rparr> else al)"
    using assms(2,3) by (auto simp: tryDirectConnection_def bind_Some_iff split: if_splits)
  then show ?thesis
    using isReachable_SomeD [OF assms(1) pl(1)] by (simp add: asked_def)
qed

text \<open>
  C9: after the path was cleared, \<open>tryDirectConnection\<close> returns whenever the path from start to
  goal can be interpolated. It says yes exactly when that path is free inside, and then the two
  ends are a way from start to goal; otherwise the path stays empty.
\<close>

theorem tryDirectConnection_correct:
  assumes "decides free (planner m)" and "mobility_m (planner m) = Some mob" and "path_m al = []"
    and "Mobility_getPath (planner m) mob (start_m al) (goal_m al) \<noteq> None"
  shows "\<exists>ok m' al'. tryDirectConnection m al = Some (ok, m', al') \<and>
    (ok \<longleftrightarrow> seg_free free (planner m) mob (start_m al) (goal_m al)) \<and>
    (ok \<longrightarrow> way (seg_free free (planner m) mob) (start_m al) (goal_m al) (path_m al')) \<and>
    (\<not> ok \<longrightarrow> al' = al)"
proof -
  obtain path where path: "Mobility_getPath (planner m) mob (start_m al) (goal_m al) = Some path"
    using assms(4) by blast
  obtain ok pl where "isReachable (planner m) mob (start_m al) (goal_m al) True = Some (ok, pl)"
    using planner_oracle.path_check_spec [OF assms(1), of path] getPath_Some_shape [OF path]
    by (auto simp: isReachable_def path checkCollision_path_def)
  then have "\<exists>m' al'. tryDirectConnection m al = Some (ok, m', al')"
    by (simp add: tryDirectConnection_def assms(2))
  then obtain m' al' where run: "tryDirectConnection m al = Some (ok, m', al')" by blast
  then show ?thesis
    using tryDirectConnection_SomeD [OF assms(1,2) run] assms(3) by (auto simp: way_def)
qed

end
