(* ===== verification/OptimizerModel.thy ===== *)
theory OptimizerModel
  imports AlgorithmModel
begin

text \<open>
  The path optimizers \<open>hrplib/hrpPlanner/ShortcutOptimizer.{h,cpp}\<close> and
  \<open>RandomShortcutOptimizer.{h,cpp}\<close> behind the interface of \<open>Optimizer.h\<close>. The loop of the
  first is written over the reachability test it calls.
\<close>

section \<open>ShortcutOptimizer\<close>

text \<open>
  The loop looks at \<open>optimized[index - 1]\<close> and \<open>optimized[index + 1]\<close>; an index past the
  last but one element would leave the vector.
\<close>

function shortcut_loop ::
  "('s \<Rightarrow> Configuration \<Rightarrow> Configuration \<Rightarrow> (bool \<times> 's) option) \<Rightarrow> 's \<Rightarrow> nat \<Rightarrow> Configuration list
     \<Rightarrow> (Configuration list \<times> 's) option" where
  "shortcut_loop reach s index opt =
     (if index = length opt - 1 then Some (opt, s)
      else if index = 0 \<or> length opt \<le> index + 1 then None
      else do {
        (ok, s') \<leftarrow> reach s (opt ! (index - 1)) (opt ! (index + 1));
        if ok then shortcut_loop reach s' index (take index opt @ drop (index + 1) opt)
        else shortcut_loop reach s' (index + 1) opt })"
  by pat_completeness auto
termination
  by (relation "measure (\<lambda>(reach, s, index, opt). length opt - index)") auto

declare shortcut_loop.simps [simp del]

definition shortcut :: "('s \<Rightarrow> Configuration \<Rightarrow> Configuration \<Rightarrow> (bool \<times> 's) option) \<Rightarrow> 's \<Rightarrow> Configuration list \<Rightarrow> (Configuration list \<times> 's) option" where
  "shortcut reach s path = (if length path < 3 then Some (path, s) else shortcut_loop reach s 1 path)"

definition reach_planner :: "Mobility \<Rightarrow> 'w planner \<Rightarrow> Configuration \<Rightarrow> Configuration \<Rightarrow> (bool \<times> 'w planner) option" where
  "reach_planner mob pl a b = isReachable pl mob a b True"

definition ShortcutOptimizer_optimize :: "'w mach \<Rightarrow> Configuration list \<Rightarrow> (Configuration list \<times> 'w mach) option" where
  "ShortcutOptimizer_optimize m path =
     (if length path < 3 then Some (path, m)
      else do { mob \<leftarrow> mobility_m (planner m);
                (opt, pl) \<leftarrow> shortcut (reach_planner mob) (planner m) path;
                Some (opt, m\<lparr>planner := pl\<rparr>) })"

section \<open>RandomShortcutOptimizer\<close>

text \<open>
  \<open>((float)random ()) / RAND_MAX * nSegment\<close> in single precision: near the top of the range
  the quotient rounds to \<open>1\<close>.
\<close>

definition random_index :: "rand_source \<Rightarrow> nat \<Rightarrow> nat \<Rightarrow> int option" where
  "random_index src k nSegment =
     to_int (fmul (fdiv (of_int_f (int (rand_seq src k))) (of_int_f (int (RAND_MAX src)))) (of_int_f (int nSegment)))"

text \<open>The second index is drawn until it differs from the first.\<close>

partial_function (option) draw_other :: "rand_source \<Rightarrow> nat \<Rightarrow> int \<Rightarrow> nat \<Rightarrow> (int \<times> nat) option" where
  "draw_other src nSegment index1 k =
     do { i \<leftarrow> random_index src k nSegment;
          if i = index1 then draw_other src nSegment index1 (k + 1) else Some (i, k + 1) }"

declare draw_other.simps [code]

text \<open>Two different segments in order, two ratios, and the generator's state after the draws.\<close>

definition draw_segments :: "rand_source \<Rightarrow> nat \<Rightarrow> nat \<Rightarrow> (nat \<times> nat \<times> double \<times> double \<times> nat) option" where
  "draw_segments src k0 nSegment =
     do { d1 \<leftarrow> random_index src k0 nSegment;
          (d2, k) \<leftarrow> draw_other src nSegment d1 (k0 + 1);
          if d1 < 0 \<or> d2 < 0 then None
          else Some (nat (min d1 d2), nat (max d1 d2), rand_unit src k, rand_unit src (k + 1), k + 2) }"

definition segment_point :: "Mobility \<Rightarrow> ConfigurationSpace \<Rightarrow> Configuration list \<Rightarrow> nat \<Rightarrow> double \<Rightarrow> Configuration option" where
  "segment_point mob cs path i ratio =
     do { a \<leftarrow> elem_at path i; b \<leftarrow> elem_at path (i + 1); interpolate mob cs a b ratio }"

definition RandomShortcutOptimizer_optimize :: "'w mach \<Rightarrow> Configuration list \<Rightarrow> (Configuration list \<times> 'w mach) option" where
  "RandomShortcutOptimizer_optimize m path =
     (if length path < 3 then Some (path, m)
      else do {
        mob \<leftarrow> mobility_m (planner m);
        (i1, i2, ratio1, ratio2, k) \<leftarrow> draw_segments (rsource m) (rand_calls m) (length path - 1);
        cfg1 \<leftarrow> segment_point mob (cspace_m (planner m)) path i1 ratio1;
        cfg2 \<leftarrow> segment_point mob (cspace_m (planner m)) path i2 ratio2;
        (ok, pl) \<leftarrow> isReachable (planner m) mob cfg1 cfg2 True;
        let m' = m\<lparr>planner := pl, rand_calls := k\<rparr>
        in if ok then Some (take (i1 + 1) path @ [cfg1, cfg2] @ drop (i2 + 1) path, m')
           else Some (path, m') })"

text \<open>\<open>Optimizer\<close> objects: the two classes that the planner registers.\<close>

datatype Optimizer = ShortcutOptimizer | RandomShortcutOptimizer

fun optimize_with :: "Optimizer \<Rightarrow> 'w mach \<Rightarrow> Configuration list \<Rightarrow> (Configuration list \<times> 'w mach) option" where
  "optimize_with ShortcutOptimizer m path = ShortcutOptimizer_optimize m path"
| "optimize_with RandomShortcutOptimizer m path = RandomShortcutOptimizer_optimize m path"

section \<open>The contract of the reachability test\<close>

locale segment_oracle =
  fixes reach :: "'s \<Rightarrow> Configuration \<Rightarrow> Configuration \<Rightarrow> (bool \<times> 's) option"
    and good :: "Configuration \<Rightarrow> Configuration \<Rightarrow> bool"
    and defd :: "Configuration \<Rightarrow> Configuration \<Rightarrow> bool"
    and inv :: "'s \<Rightarrow> bool"
  assumes reach: "inv s \<Longrightarrow> defd a b \<Longrightarrow> \<exists>s'. reach s a b = Some (good a b, s') \<and> inv s'"
    and reach_defd: "inv s \<Longrightarrow> reach s a b = Some x \<Longrightarrow> defd a b"
begin

lemma reach_SomeD: "inv s \<Longrightarrow> reach s a b = Some (r, s') \<Longrightarrow> r = good a b \<and> inv s'"
  using reach reach_defd by (metis option.inject prod.inject)

lemma way_shortcut:
  assumes "way good a b opt" and "0 < i" and "i + 1 < length opt" and "good (opt ! (i - 1)) (opt ! (i + 1))"
  shows "way good a b (take i opt @ drop (i + 1) opt)"
proof -
  obtain j where i: "i = Suc j" using assms(2) by (cases i) auto
  have take: "take i opt = take j opt @ [opt ! j]" using assms(3) i by (simp add: take_Suc_conv_app_nth)
  have drop: "drop (i + 1) opt = opt ! (i + 1) # drop (i + 2) opt"
    using assms(3) by (simp add: Cons_nth_drop_Suc)
  have "successively good (take i opt @ drop i opt)" "successively good (take (i + 1) opt @ drop (i + 1) opt)"
    using assms(1) by (simp_all add: way_def)
  then have "successively good (take i opt)" "successively good (drop (i + 1) opt)"
    unfolding successively_append_iff by blast+
  then have "successively good (take i opt @ drop (i + 1) opt)"
    unfolding successively_append_iff take drop using assms(4) i by simp
  moreover have "hd (take i opt @ drop (i + 1) opt) = hd opt"
    using assms(2,3) by (simp add: hd_append hd_conv_nth)
  moreover have "last (take i opt @ drop (i + 1) opt) = last opt"
    using assms(3) by (simp add: last_append last_drop)
  ultimately show ?thesis using assms(1,3) by (simp add: way_def)
qed

lemma shortcut_loop_spec:
  assumes "0 < index" and "index < length opt" and "way good a b opt"
    and "\<forall>x \<in> set opt. \<forall>y \<in> set opt. defd x y" and "inv s"
  shows "\<exists>res s'. shortcut_loop reach s index opt = Some (res, s') \<and> inv s' \<and> way good a b res \<and>
    set res \<subseteq> set opt \<and> length res \<le> length opt"
  using assms
proof (induction "length opt - index" arbitrary: s index opt rule: less_induct)
  case less
  show ?case
  proof (cases "index = length opt - 1")
    case True
    then show ?thesis using less.prems by (subst shortcut_loop.simps) simp
  next
    case False
    then have lt: "index + 1 < length opt" using less.prems(2) by simp
    let ?a = "opt ! (index - 1)" and ?b = "opt ! (index + 1)"
    have "defd ?a ?b" using less.prems(4) lt by simp
    then obtain s1 where s1: "reach s ?a ?b = Some (good ?a ?b, s1)" "inv s1"
      using reach [OF less.prems(5)] by blast
    show ?thesis
    proof (cases "good ?a ?b")
      case True
      let ?opt = "take index opt @ drop (index + 1) opt"
      have w: "way good a b ?opt" using way_shortcut [OF less.prems(3,1) lt True] .
      have sub: "set ?opt \<subseteq> set opt" using set_take_subset [of index opt] set_drop_subset [of "index + 1" opt] by simp
      have len: "length ?opt = length opt - 1" using lt by simp
      have eq: "shortcut_loop reach s index opt = shortcut_loop reach s1 index ?opt"
        using False lt less.prems(1) s1(1) True by (subst shortcut_loop.simps) simp
      have "\<exists>res s'. shortcut_loop reach s1 index ?opt = Some (res, s') \<and> inv s' \<and> way good a b res \<and>
          set res \<subseteq> set ?opt \<and> length res \<le> length ?opt"
      proof (rule less.hyps)
        show "length ?opt - index < length opt - index" "index < length ?opt" unfolding len using lt by simp_all
        show "\<forall>x \<in> set ?opt. \<forall>y \<in> set ?opt. defd x y" using sub less.prems(4) by blast
      qed (use less.prems(1) w s1(2) in simp_all)
      then show ?thesis unfolding eq using sub len by fastforce
    next
      case notgood: False
      have eq: "shortcut_loop reach s index opt = shortcut_loop reach s1 (index + 1) opt"
        using False lt less.prems(1) s1(1) notgood by (subst shortcut_loop.simps) simp
      show ?thesis
        unfolding eq using less.hyps [of opt "index + 1" s1] lt less.prems(3,4) s1(2) by simp
    qed
  qed
qed

lemma shortcut_spec:
  assumes "way good a b path" and "\<forall>x \<in> set path. \<forall>y \<in> set path. defd x y" and "inv s"
  shows "\<exists>res s'. shortcut reach s path = Some (res, s') \<and> inv s' \<and> way good a b res \<and>
    set res \<subseteq> set path \<and> length res \<le> length path"
  using shortcut_loop_spec [of 1 path a b s] assms by (auto simp: shortcut_def)

end

section \<open>The planner's reachability test satisfies the contract\<close>

text \<open>Which paths can be interpolated, and what stays fixed while the planner is asked.\<close>

definition has_path :: "'w planner \<Rightarrow> Mobility \<Rightarrow> Configuration \<Rightarrow> Configuration \<Rightarrow> bool" where
  "has_path pl mob a b \<longleftrightarrow> Mobility_getPath pl mob a b \<noteq> None"

definition answers :: "(Configuration \<Rightarrow> bool) \<Rightarrow> 'w planner \<Rightarrow> 'w planner \<Rightarrow> bool" where
  "answers free pl0 pl \<longleftrightarrow> decides free pl \<and> same_setup pl0 pl"

interpretation planner_segments: segment_oracle "reach_planner mob" "seg_free free pl0 mob"
    "has_path pl0 mob" "answers free pl0"
  for mob free and pl0 :: "'w planner"
proof unfold_locales
  fix pl :: "'w planner" and a b
  assume inv: "answers free pl0 pl" and path: "has_path pl0 mob a b"
  then obtain path where "Mobility_getPath pl mob a b = Some path"
    using getPath_same_setup [of pl0 pl mob a b] by (auto simp: answers_def has_path_def)
  then obtain r pl' where run: "isReachable pl mob a b True = Some (r, pl')"
    using planner_oracle.path_check_spec [of free pl path] inv getPath_Some_shape [of pl mob a b path]
    by (auto simp: isReachable_def checkCollision_path_def answers_def)
  have "r = seg_free free pl mob a b" "decides free pl'" "same_setup pl pl'"
    using isReachable_SomeD [OF _ run] inv unfolding answers_def by blast+
  then show "\<exists>s'. reach_planner mob pl a b = Some (seg_free free pl0 mob a b, s') \<and> answers free pl0 s'"
    using run inv seg_free_same_setup [of pl0 pl free mob a b] same_setup_trans [of pl0 pl pl']
    by (simp add: reach_planner_def answers_def)
next
  fix pl :: "'w planner" and a b x
  assume inv: "answers free pl0 pl" and "reach_planner mob pl a b = Some x"
  then have "Mobility_getPath pl mob a b \<noteq> None" by (auto simp: reach_planner_def isReachable_def bind_Some_iff)
  then show "has_path pl0 mob a b"
    using inv getPath_same_setup [of pl0 pl mob a b] by (simp add: answers_def has_path_def)
qed

text \<open>
  C8: \<open>ShortcutOptimizer\<close> always ends on a way whose waypoints can be interpolated pairwise. The
  result is again a way between the same ends, through waypoints of the old one and with no
  more of them.
\<close>

theorem ShortcutOptimizer_keeps_way:
  assumes "decides free (planner m)" and "mobility_m (planner m) = Some mob"
    and "way (seg_free free (planner m) mob) a b path"
    and "\<forall>x \<in> set path. \<forall>y \<in> set path. has_path (planner m) mob x y"
  shows "\<exists>res m'. ShortcutOptimizer_optimize m path = Some (res, m') \<and>
    way (seg_free free (planner m) mob) a b res \<and> set res \<subseteq> set path \<and> length res \<le> length path \<and>
    decides free (planner m') \<and> same_setup (planner m) (planner m')"
proof -
  have inv: "answers free (planner m) (planner m)" using assms(1) by (simp add: answers_def same_setup_refl)
  obtain res pl where run: "shortcut (reach_planner mob) (planner m) path = Some (res, pl)"
      and pl: "answers free (planner m) pl"
      and res: "way (seg_free free (planner m) mob) a b res" "set res \<subseteq> set path" "length res \<le> length path"
    using planner_segments.shortcut_spec [OF assms(3,4) inv] by blast
  show ?thesis
  proof (cases "length path < 3")
    case True
    then show ?thesis using assms by (simp add: ShortcutOptimizer_optimize_def same_setup_refl)
  next
    case False
    then have "ShortcutOptimizer_optimize m path = Some (res, m\<lparr>planner := pl\<rparr>)"
      using run by (simp add: ShortcutOptimizer_optimize_def assms(2))
    then show ?thesis using res pl by (simp add: answers_def)
  qed
qed

lemma draw_other_differs:
  assumes "draw_other src n i k = Some (j, k')"
  shows "j \<noteq> i"
proof -
  have "fst (j, k') \<noteq> i"
    by (rule draw_other.raw_induct [where P = "\<lambda>src n i k x. fst x \<noteq> i", OF _ assms])
      (fastforce simp: bind_Some_iff split: if_splits)
  then show ?thesis by simp
qed

lemma draw_segments_less:
  assumes "draw_segments src k n = Some (i1, i2, r1, r2, k')"
  shows "i1 < i2"
proof -
  obtain d1 d2 k2 where d: "draw_other src n d1 (k + 1) = Some (d2, k2)" "0 \<le> d1" "0 \<le> d2"
      "i1 = nat (min d1 d2)" "i2 = nat (max d1 d2)"
    using assms by (auto simp: draw_segments_def bind_Some_iff split: if_splits)
  then show ?thesis using draw_other_differs [OF d(1)] by (simp add: min_def max_def)
qed

lemma segment_point_range: "segment_point mob cs path i ratio = Some c \<Longrightarrow> i + 1 < length path"
  by (auto simp: segment_point_def bind_Some_iff dest!: elem_at_SomeD)

text \<open>
  C12: \<open>RandomShortcutOptimizer\<close> keeps the two ends of a path, and either leaves the path as it
  is or replaces the waypoints between the two drawn segments by two configurations that are
  reachable from each other.
\<close>

theorem RandomShortcutOptimizer_keeps_ends:
  assumes "decides free (planner m)" and "mobility_m (planner m) = Some mob" and "path \<noteq> []"
    and "RandomShortcutOptimizer_optimize m path = Some (res, m')"
  shows "res \<noteq> [] \<and> hd res = hd path \<and> last res = last path \<and>
    (res = path \<or> (\<exists>i j c1 c2. i < j \<and> j + 1 < length path \<and>
       res = take (i + 1) path @ [c1, c2] @ drop (j + 1) path \<and> seg_free free (planner m) mob c1 c2))"
proof (cases "res = path")
  case True
  then show ?thesis using assms(3) by simp
next
  case False
  obtain i1 i2 r1 r2 k c1 c2 pl where
      draw: "draw_segments (rsource m) (rand_calls m) (length path - 1) = Some (i1, i2, r1, r2, k)"
      and c2: "segment_point mob (cspace_m (planner m)) path i2 r2 = Some c2"
      and reach: "isReachable (planner m) mob c1 c2 True = Some (True, pl)"
      and res: "res = take (i1 + 1) path @ [c1, c2] @ drop (i2 + 1) path"
    using assms(2,4) False
    by (auto simp: RandomShortcutOptimizer_optimize_def Let_def bind_Some_iff split: if_splits)
  have ij: "i1 < i2" using draw_segments_less [OF draw] .
  have j: "i2 + 1 < length path" using segment_point_range [OF c2] .
  have "seg_free free (planner m) mob c1 c2" using isReachable_SomeD [OF assms(1) reach] by simp
  moreover have "hd res = hd path" using assms(3) by (cases path) (simp_all add: res)
  moreover have "last res = last path" using j by (simp add: res last_append last_drop)
  moreover have "res \<noteq> []" by (simp add: res)
  ultimately show ?thesis using ij j res by blast
qed

lemma random_index_out_of_range:
  assumes "RAND_MAX src = 2147483647" and "2147483584 \<le> rand_seq src k" and "rand_seq src k \<le> 2147483647"
    and "n < 2 ^ 24"
  shows "random_index src k n = Some (int n)"
proof -
  have r: "of_int_f (int (rand_seq src k)) = Fin 2147483648" "of_int_f 2147483647 = Fin 2147483648"
    using assms(2,3) rnd32_below_int_max [of "int (rand_seq src k)"] rnd32_below_int_max [of 2147483647]
    by (simp_all add: of_int_f_def)
  have n: "of_int_f (int n) = Fin (of_nat n)" "of_int_f 1 = Fin 1"
    using assms(4) rnd32_of_int [of "int n"] rnd32_of_int [of 1] by (simp_all add: of_int_f_def)
  have one: "rnd32 1 = Fin 1" and same: "rnd32 (of_nat n) = Fin (of_nat n)"
    using n by (simp_all add: of_int_f_def)
  show ?thesis using assms(1,4) by (simp add: random_index_def r n one same)
qed

text \<open>
  C16: \<open>RAND_MAX\<close> and the 64 largest values of \<open>random ()\<close> are one and the same \<open>float\<close>, so the
  quotient is 1 not for \<open>RAND_MAX\<close> alone (as it would be in double precision) but for all of
  them, and the index drawn is the number of segments. Whatever the other index is, and on any
  path of 3 to \<open>2 ^ 24\<close> configurations, the optimizer then reads \<open>path[index2 + 1]\<close> past the end
  of the path. (The draws are supposed to end: they do unless every later draw gives the same index.)
\<close>

theorem RandomShortcutOptimizer_out_of_range:
  assumes "RAND_MAX (rsource m) = 2147483647"
    and "2147483584 \<le> rand_seq (rsource m) (rand_calls m)" and "rand_seq (rsource m) (rand_calls m) \<le> 2147483647"
    and "3 \<le> length path" and "length path \<le> 2 ^ 24"
    and "draw_segments (rsource m) (rand_calls m) (length path - 1) = Some (i1, i2, ratio1, ratio2, k)"
  shows "random_index (rsource m) (rand_calls m) (length path - 1) = Some (int (length path - 1)) \<and>
    length path \<le> i2 + 1 \<and> elem_at path (i2 + 1) = None \<and>
    RandomShortcutOptimizer_optimize m path = None"
proof -
  have idx: "random_index (rsource m) (rand_calls m) (length path - 1) = Some (int (length path - 1))"
    using random_index_out_of_range [OF assms(1,2,3)] assms(4,5) by simp
  obtain j :: int where j: "i2 = nat (max (int (length path - 1)) j)"
    using assms(6) unfolding draw_segments_def idx by (auto simp: bind_Some_iff split: if_splits)
  have "length path - 1 \<le> i2"
    using nat_mono [of "int (length path - 1)" "max (int (length path - 1)) j"] by (simp add: j)
  then have range: "length path \<le> i2 + 1" using assms(4) by simp
  then have read: "elem_at path (i2 + 1) = None" by (simp add: elem_at_def)
  then have "segment_point mob cs path i2 ratio2 = None" for mob cs
    by (cases "elem_at path i2") (simp_all add: segment_point_def)
  then have "RandomShortcutOptimizer_optimize m path = None"
    using assms(4,6) by (cases "mobility_m (planner m)") (auto simp: RandomShortcutOptimizer_optimize_def)
  then show ?thesis using idx range read by blast
qed

end
