(* ===== verification/RRTModel.thy ===== *)
theory RRTModel
  imports OptimizerModel
begin

text \<open>
  \<open>hrplib/hrpPlanner/RRT.{h,cpp}\<close>: rapidly-exploring random trees, grown from the start, or
  from both ends (RRT-connect). The two trees are roadmaps of the store. The static \<open>debug\<close>
  flag is false, and the messages of the verbose mode are left out.
\<close>

section \<open>The object\<close>

datatype ExtendResult = Advanced | Trapped | Reached

record RRT = Algorithm +
  Tstart_m :: nat
  Tgoal_m :: nat
  TlastExtended_m :: "nat option"
  Ta_m :: nat
  Tb_m :: nat
  eps_m :: double
  times_m :: int
  extendFromStart_m :: bool
  extendFromGoal_m :: bool
  extraConnectionCheckFunc_m :: "(Configuration \<Rightarrow> bool) option"

text \<open>\<open>eps_\<close> and \<open>times_\<close> are set when planning starts; \<open>e\<close> and \<open>t\<close> are what they hold before.\<close>

definition RRT_new :: "'w mach \<Rightarrow> double \<Rightarrow> int \<Rightarrow> RRT \<times> 'w mach" where
  "RRT_new m e t =
     (let (al, m1) = Algorithm_new m False False;
          al2 = setProperty (setProperty al ''max-trials'' ''10000'') ''eps'' ''0.1'';
          (tg, m2) = Roadmap_new m1
      in (Algorithm.extend
            (al2\<lparr>ignoreCollisionAtStart_m := False, ignoreCollisionAtGoal_m := False\<rparr>)
            (RRT.fields (roadmap_m al2) tg None (roadmap_m al2) tg e t True False None), m2))"

definition setForwardTree :: "RRT \<Rightarrow> nat \<Rightarrow> RRT" where
  "setForwardTree r tree = r\<lparr>Tstart_m := tree, Ta_m := tree\<rparr>"

definition setBackwardTree :: "RRT \<Rightarrow> nat \<Rightarrow> RRT" where
  "setBackwardTree r tree = r\<lparr>Tgoal_m := tree, Tb_m := tree\<rparr>"

definition extendFromStart :: "RRT \<Rightarrow> bool \<Rightarrow> RRT" where
  "extendFromStart r b = r\<lparr>extendFromStart_m := b\<rparr>"

definition extendFromGoal :: "RRT \<Rightarrow> bool \<Rightarrow> RRT" where
  "extendFromGoal r b = r\<lparr>extendFromGoal_m := b\<rparr>"

definition epsilon :: "RRT \<Rightarrow> double \<Rightarrow> RRT" where
  "epsilon r e = r\<lparr>eps_m := e\<rparr>"

definition setExtraConnectionCheckFunc :: "RRT \<Rightarrow> (Configuration \<Rightarrow> bool) option \<Rightarrow> RRT" where
  "setExtraConnectionCheckFunc r f = r\<lparr>extraConnectionCheckFunc_m := f\<rparr>"

definition swapTrees :: "RRT \<Rightarrow> RRT" where
  "swapTrees r = r\<lparr>Ta_m := Tb_m r, Tb_m := Ta_m r\<rparr>"

section \<open>Growing a tree\<close>

text \<open>A new node at \<open>q\<close>, with an edge from or (in the reverse direction) to the nearest node.\<close>

definition grow :: "'w mach \<Rightarrow> nat \<Rightarrow> Configuration \<Rightarrow> nat \<Rightarrow> bool \<Rightarrow> 'w mach option" where
  "grow m tree q minNode bwd =
     (let (p, m1) = RoadmapNode_new m q
      in do { m2 \<leftarrow> addNode m1 tree p;
              if bwd then addEdge m2 tree p minNode else addEdge m2 tree minNode p })"

text \<open>
  \<open>extend\<close> has three parts: the nearest node, the configuration to go for, at most \<open>eps_\<close>
  away, and, when that one is free, the edge to it. The configuration returned is what the
  reference parameter \<open>qRand\<close> holds after the call. When the distance did not decrease the
  code prints a warning and waits for a key.
\<close>

definition extend_target :: "'w mach \<Rightarrow> RRT \<Rightarrow> Configuration \<Rightarrow> Configuration \<Rightarrow> double \<Rightarrow> Configuration option" where
  "extend_target m r p qRand mn =
     (if dlt (eps_m r) mn then
        do { mob \<leftarrow> mobility_m (planner m);
             q' \<leftarrow> interpolate mob (cspace_m (planner m)) p qRand (ddiv (eps_m r) mn);
             _ \<leftarrow> distance mob (cspace_m (planner m)) p q';
             Some q' }
      else Some qRand)"

definition extend_edge :: "'w mach \<Rightarrow> RRT \<Rightarrow> nat \<Rightarrow> nat \<Rightarrow> double \<Rightarrow> Configuration \<Rightarrow> Configuration \<Rightarrow> bool \<Rightarrow> (ExtendResult \<times> 'w mach) option" where
  "extend_edge m r tree minNode mn p q bwd =
     do { mob \<leftarrow> mobility_m (planner m);
          (ok, pl) \<leftarrow> (if bwd then isReachable (planner m) mob q p True else isReachable (planner m) mob p q True);
          if ok then do { m' \<leftarrow> grow (m\<lparr>planner := pl\<rparr>) tree q minNode bwd;
                          Some (if dle mn (eps_m r) then Reached else Advanced, m') }
          else Some (Trapped, m\<lparr>planner := pl\<rparr>) }"

definition RRT_extend :: "'w mach \<Rightarrow> RRT \<Rightarrow> nat \<Rightarrow> Configuration \<Rightarrow> bool \<Rightarrow> (ExtendResult \<times> Configuration \<times> 'w mach \<times> RRT) option" where
  "RRT_extend m r tree qRand bwd =
     (let r1 = r\<lparr>TlastExtended_m := Some tree\<rparr>
      in do {
        near \<leftarrow> findNearestNode m tree qRand;
        case near of
          None \<Rightarrow> Some (Trapped, qRand, m, r1)
        | Some (minNode, mn) \<Rightarrow> do {
            p \<leftarrow> node_position (nheap m) minNode;
            q \<leftarrow> extend_target m r p qRand mn;
            (hit, pl) \<leftarrow> checkCollision_cfg (planner m) q;
            if hit then Some (Trapped, q, m\<lparr>planner := pl\<rparr>, r1)
            else do { (e, m') \<leftarrow> extend_edge (m\<lparr>planner := pl\<rparr>) r tree minNode mn p q bwd;
                      Some (e, q, m', r1) } } })"

text \<open>\<open>connect\<close> extends towards the same configuration as long as it advances.\<close>

partial_function (option) RRT_connect :: "'w mach \<Rightarrow> RRT \<Rightarrow> nat \<Rightarrow> Configuration \<Rightarrow> bool \<Rightarrow> (ExtendResult \<times> 'w mach \<times> RRT) option" where
  "RRT_connect m r tree qNew bwd =
     do { (ret, q, m1, r1) \<leftarrow> RRT_extend m r tree qNew bwd;
          if ret = Advanced then RRT_connect m1 r1 tree qNew bwd else Some (ret, m1, r1) }"

declare RRT_connect.simps [code]

text \<open>
  \<open>extendOneStep\<close>. The loop towards \<open>goal_\<close> in the one-sided case is the loop of \<open>connect\<close>.
\<close>

definition extendOneStep :: "'w mach \<Rightarrow> RRT \<Rightarrow> (bool \<times> 'w mach \<times> RRT) option" where
  "extendOneStep m r =
     do { (qNew, k) \<leftarrow> cs_random (cspace_m (planner m)) (rsource m) (rand_calls m);
          let m0 = m\<lparr>rand_calls := k\<rparr>
          in if extendFromStart_m r \<and> extendFromGoal_m r then
               do { (e, q, m1, r1) \<leftarrow> RRT_extend m0 r (Ta_m r) qNew (Tb_m r = Tstart_m r);
                    if e \<noteq> Trapped then
                      do { (c, m2, r2) \<leftarrow> RRT_connect m1 r1 (Tb_m r1) q (Ta_m r1 = Tstart_m r1);
                           if c = Reached then
                             (case extraConnectionCheckFunc_m r2 of
                                None \<Rightarrow> Some (True, m2, r2)
                              | Some f \<Rightarrow>
                                  do { nd \<leftarrow> lastAddedNode m2 (Tstart_m r2);
                                       p \<leftarrow> nd;
                                       pos \<leftarrow> node_position (nheap m2) p;
                                       Some (f pos, m2, r2) })
                           else Some (False, m2, swapTrees r2) }
                    else Some (False, m1, swapTrees r1) }
             else if extendFromStart_m r \<and> \<not> extendFromGoal_m r then
               do { (e, q, m1, r1) \<leftarrow> RRT_extend m0 r (Tstart_m r) qNew False;
                    if e \<noteq> Trapped then
                      do { (c, m2, r2) \<leftarrow> RRT_connect m1 r1 (Tstart_m r1) (goal_m r1) False;
                           Some (c = Reached, m2, r2) }
                    else Some (False, m1, r1) }
             else Some (False, m0, r) }"

section \<open>Extracting the path\<close>

partial_function (option) back_loop :: "node_heap \<Rightarrow> nat \<Rightarrow> Configuration list \<Rightarrow> Configuration list option" where
  "back_loop h p path =
     do { pos \<leftarrow> node_position h p;
          par \<leftarrow> node_parent h p 0;
          case par of None \<Rightarrow> Some (pos # path) | Some q \<Rightarrow> back_loop h q (pos # path) }"

declare back_loop.simps [code]

partial_function (option) forth_loop :: "node_heap \<Rightarrow> nat \<Rightarrow> Configuration list \<Rightarrow> Configuration list option" where
  "forth_loop h p path =
     do { pos \<leftarrow> node_position h p;
          ch \<leftarrow> node_child h p 0;
          case ch of None \<Rightarrow> Some (path @ [pos]) | Some q \<Rightarrow> forth_loop h q (path @ [pos]) }"

declare forth_loop.simps [code]

definition extractPath :: "'w mach \<Rightarrow> RRT \<Rightarrow> Configuration list option" where
  "extractPath m r =
     do { s \<leftarrow> lastAddedNode m (Tstart_m r);
          g \<leftarrow> lastAddedNode m (Tgoal_m r);
          case (s, g) of
            (Some startMid, Some goalMid) \<Rightarrow>
              do { path1 \<leftarrow> (if extendFromStart_m r then back_loop (nheap m) startMid [] else Some []);
                   if extendFromGoal_m r then
                     do { node \<leftarrow> (if extendFromStart_m r then node_child (nheap m) goalMid 0 else Some (Some goalMid));
                          p \<leftarrow> node;
                          forth_loop (nheap m) p path1 }
                   else Some path1 }
          | _ \<Rightarrow> Some [] }"

fun trial_loop :: "nat \<Rightarrow> 'w mach \<Rightarrow> RRT \<Rightarrow> (bool \<times> 'w mach \<times> RRT) option" where
  "trial_loop 0 m r = Some (False, m, r)"
| "trial_loop (Suc k) m r =
     do { (ok, m1, r1) \<leftarrow> extendOneStep m r;
          if ok then Some (True, m1, r1) else trial_loop k m1 r1 }"

text \<open>\<open>RRT::calcPath\<close>. The running flag is not looked at (the test is commented out).\<close>

definition RRT_calcPath :: "'w mach \<Rightarrow> RRT \<Rightarrow> (bool \<times> 'w mach \<times> RRT) option" where
  "RRT_calcPath m r =
     (let (sv, r1) = prop_index r ''max-trials'';
          (ev, r2) = prop_index r1 ''eps''
      in do {
        times \<leftarrow> c_atoi sv;
        let r3 = r2\<lparr>times_m := times, eps_m := c_atof ev\<rparr>;
            (s, m1) = RoadmapNode_new m (start_m r3);
            (g, m2) = RoadmapNode_new m1 (goal_m r3)
        in do {
          m3 \<leftarrow> addNode m2 (Tstart_m r3) s;
          m4 \<leftarrow> addNode m3 (Tgoal_m r3) g;
          (ok, m5, r5) \<leftarrow> trial_loop (nat times) m4 r3;
          path \<leftarrow> extractPath m5 r5;
          m6 \<leftarrow> integrate m5 (Tgoal_m r5) (Tstart_m r5);
          Some (ok, m6, r5\<lparr>path_m := path\<rparr>) } })"

section \<open>Trees\<close>

text \<open>
  The tree edges of a node lead towards the root: its parents in the forward tree, its
  children in the backward tree. Only the first one is ever followed.
\<close>

definition links :: "bool \<Rightarrow> RoadmapNode \<Rightarrow> nat list" where
  "links bwd n = (if bwd then children_m n else parents_m n)"

definition towards :: "(Configuration \<Rightarrow> Configuration \<Rightarrow> bool) \<Rightarrow> bool \<Rightarrow> Configuration \<Rightarrow> Configuration \<Rightarrow> bool" where
  "towards good bwd old new = (if bwd then good new old else good old new)"

text \<open>
  Every node is free (or at the root's place); it is at the root's place or hangs on an older
  node of the tree, from (to) which it is reachable.
\<close>

definition node_ok :: "(Configuration \<Rightarrow> bool) \<Rightarrow> (Configuration \<Rightarrow> Configuration \<Rightarrow> bool) \<Rightarrow> bool \<Rightarrow> Configuration \<Rightarrow> node_heap \<Rightarrow> nat set \<Rightarrow> nat \<Rightarrow> bool" where
  "node_ok free good bwd rc h ns p \<longleftrightarrow>
     (\<exists>n. h p = Some n \<and> (free (pos_m n) \<or> pos_m n = rc) \<and>
        (case links bwd n of
           [] \<Rightarrow> pos_m n = rc
         | q # _ \<Rightarrow> q \<in> ns \<and> q < p \<and> (\<exists>nq. h q = Some nq \<and> towards good bwd (pos_m nq) (pos_m n))))"

definition tree_ok :: "(Configuration \<Rightarrow> bool) \<Rightarrow> (Configuration \<Rightarrow> Configuration \<Rightarrow> bool) \<Rightarrow> bool \<Rightarrow> Configuration \<Rightarrow> node_heap \<Rightarrow> nat list \<Rightarrow> bool" where
  "tree_ok free good bwd rc h ns \<longleftrightarrow> (\<forall>p \<in> set ns. node_ok free good bwd rc h (set ns) p)"

text \<open>A later store in which the tree's nodes have kept their place and their links.\<close>

definition keeps :: "bool \<Rightarrow> node_heap \<Rightarrow> node_heap \<Rightarrow> nat set \<Rightarrow> bool" where
  "keeps bwd h h' ns \<longleftrightarrow>
     (\<forall>p \<in> ns. \<forall>n. h p = Some n \<longrightarrow> (\<exists>n'. h' p = Some n' \<and> pos_m n' = pos_m n \<and> links bwd n' = links bwd n))"

lemma keepsE:
  assumes "keeps bwd h h' ns" and "p \<in> ns" and "h p = Some n"
  obtains n' where "h' p = Some n'" and "pos_m n' = pos_m n" and "links bwd n' = links bwd n"
  using assms unfolding keeps_def by blast

lemma keeps_same: "\<forall>p \<in> ns. h' p = h p \<Longrightarrow> keeps bwd h h' ns"
  by (simp add: keeps_def)

lemma node_ok_keeps:
  assumes "keeps bwd h h' ns" and "ns \<subseteq> ns'" and "p \<in> ns" and "node_ok free good bwd rc h ns p"
  shows "node_ok free good bwd rc h' ns' p"
proof -
  obtain n where n: "h p = Some n" "free (pos_m n) \<or> pos_m n = rc"
      "case links bwd n of [] \<Rightarrow> pos_m n = rc
       | q # _ \<Rightarrow> q \<in> ns \<and> q < p \<and> (\<exists>nq. h q = Some nq \<and> towards good bwd (pos_m nq) (pos_m n))"
    using assms(4) unfolding node_ok_def by blast
  obtain n' where n': "h' p = Some n'" "pos_m n' = pos_m n" "links bwd n' = links bwd n"
    using keepsE [OF assms(1,3) n(1)] .
  have "case links bwd n of [] \<Rightarrow> pos_m n = rc
       | q # _ \<Rightarrow> q \<in> ns' \<and> q < p \<and> (\<exists>nq. h' q = Some nq \<and> towards good bwd (pos_m nq) (pos_m n))"
  proof (cases "links bwd n")
    case (Cons q qs)
    then obtain nq where q: "q \<in> ns" "q < p" "h q = Some nq" "towards good bwd (pos_m nq) (pos_m n)"
      using n(3) by auto
    obtain nq' where "h' q = Some nq'" "pos_m nq' = pos_m nq" using keepsE [OF assms(1) q(1,3)] .
    then show ?thesis using Cons q assms(2) by auto
  qed (use n(3) in simp)
  then show ?thesis unfolding node_ok_def using n(2) n' by (intro exI [of _ n']) (simp split: list.splits)
qed

lemma tree_ok_keeps:
  "keeps bwd h h' (set ns) \<Longrightarrow> tree_ok free good bwd rc h ns \<Longrightarrow> tree_ok free good bwd rc h' ns"
  unfolding tree_ok_def using node_ok_keeps by blast

lemma tree_okD:
  assumes "tree_ok free good bwd rc h ns" and "p \<in> set ns" and "h p = Some n"
  shows "(free (pos_m n) \<or> pos_m n = rc) \<and>
    (case links bwd n of [] \<Rightarrow> pos_m n = rc
     | q # _ \<Rightarrow> q \<in> set ns \<and> q < p \<and> (\<exists>nq. h q = Some nq \<and> towards good bwd (pos_m nq) (pos_m n)))"
proof -
  have "node_ok free good bwd rc h (set ns) p" using assms(1,2) by (simp add: tree_ok_def)
  then show ?thesis using assms(3) by (simp add: node_ok_def)
qed

lemma tree_ok_dom: "tree_ok free good bwd rc h ns \<Longrightarrow> set ns \<subseteq> dom h"
  by (auto simp: tree_ok_def node_ok_def)

text \<open>Addresses from \<open>next_node\<close> on are unused.\<close>

definition heap_fresh :: "'w mach \<Rightarrow> bool" where
  "heap_fresh m \<longleftrightarrow> (\<forall>p \<ge> next_node m. nheap m p = None)"

text \<open>Growing: what the store looks like afterwards.\<close>

lemma grow_SomeD:
  assumes "grow m tree q a bwd = Some m'" and "heap_fresh m" and "nheap m a = Some na" and "rheap m tree = Some rm"
  obtains n' na' where "nheap m' (next_node m) = Some n'" and "nheap m' a = Some na'"
    and "\<forall>x. x \<noteq> a \<longrightarrow> x \<noteq> next_node m \<longrightarrow> nheap m' x = nheap m x"
    and "a \<noteq> next_node m" and "pos_m n' = q" and "links bwd n' = [a]"
    and "pos_m na' = pos_m na" and "links bwd na' = links bwd na"
    and "map_option nodes_m (rheap m' tree) = Some (nodes_m rm @ [next_node m])"
    and "\<forall>t. t \<noteq> tree \<longrightarrow> rheap m' t = rheap m t"
    and "next_node m' = next_node m + 1" and "planner m' = planner m"
proof -
  let ?p = "next_node m"
  have ne: "a \<noteq> ?p" using assms(2,3) by (auto simp: heap_fresh_def)
  let ?n0 = "\<lparr>parents_m = [], children_m = [], pos_m = q, visited_m = uninit m ?p\<rparr>"
  let ?n' = "if bwd then ?n0\<lparr>children_m := [a]\<rparr> else ?n0\<lparr>parents_m := [a]\<rparr>"
  let ?na' = "if bwd then na\<lparr>parents_m := parents_m na @ [?p]\<rparr> else na\<lparr>children_m := children_m na @ [?p]\<rparr>"
  have "nheap m' ?p = Some ?n' \<and> nheap m' a = Some ?na' \<and>
      (\<forall>x. x \<noteq> a \<longrightarrow> x \<noteq> ?p \<longrightarrow> nheap m' x = nheap m x) \<and>
      map_option nodes_m (rheap m' tree) = Some (nodes_m rm @ [?p]) \<and>
      (\<forall>t. t \<noteq> tree \<longrightarrow> rheap m' t = rheap m t) \<and> next_node m' = ?p + 1 \<and> planner m' = planner m"
    using assms(1,3,4) ne
    by (cases bwd) (auto simp: grow_def RoadmapNode_new_def addNode_def addEdge_def addChild_def addParent_def
        bind_Some_iff Let_def)
  moreover have "pos_m ?n' = q" "links bwd ?n' = [a]" "pos_m ?na' = pos_m na" "links bwd ?na' = links bwd na"
    by (simp_all add: links_def)
  ultimately show ?thesis using that ne by blast
qed

text \<open>The last node of a tree stands at \<open>c\<close> and is not its root.\<close>

definition tip :: "'w mach \<Rightarrow> nat \<Rightarrow> bool \<Rightarrow> Configuration \<Rightarrow> bool" where
  "tip m tree bwd c \<longleftrightarrow>
     (\<exists>rm n. rheap m tree = Some rm \<and> nodes_m rm \<noteq> [] \<and> nheap m (last (nodes_m rm)) = Some n \<and>
        pos_m n = c \<and> links bwd n \<noteq> [])"

lemma tip_keeps:
  assumes "tip m tree bwd c" and "rheap m' tree = rheap m tree"
    and "keeps bwd (nheap m) (nheap m') (set (nodes_m rm))" and "rheap m tree = Some rm"
  shows "tip m' tree bwd c"
proof -
  obtain n where n: "nodes_m rm \<noteq> []" "nheap m (last (nodes_m rm)) = Some n" "pos_m n = c" "links bwd n \<noteq> []"
    using assms(1,4) by (auto simp: tip_def)
  have "last (nodes_m rm) \<in> set (nodes_m rm)" using n(1) by simp
  then obtain n' where "nheap m' (last (nodes_m rm)) = Some n'" "pos_m n' = pos_m n" "links bwd n' = links bwd n"
    using keepsE [OF assms(3) _ n(2)] by metis
  then show ?thesis using n assms(2,4) unfolding tip_def by auto
qed

lemma tree_ok_grow:
  assumes "grow m tree q a bwd = Some m'" and "heap_fresh m" and "rheap m tree = Some rm"
    and "tree_ok free good bwd rc (nheap m) (nodes_m rm)" and "a \<in> set (nodes_m rm)"
    and "nheap m a = Some na" and "towards good bwd (pos_m na) q" and "free q"
  obtains rm' where "rheap m' tree = Some rm'" and "nodes_m rm' = nodes_m rm @ [next_node m]"
    and "tree_ok free good bwd rc (nheap m') (nodes_m rm')" and "heap_fresh m'" and "tip m' tree bwd q"
    and "\<forall>t. t \<noteq> tree \<longrightarrow> rheap m' t = rheap m t" and "planner m' = planner m"
    and "\<forall>x. x \<notin> set (nodes_m rm) \<longrightarrow> x \<noteq> next_node m \<longrightarrow> nheap m' x = nheap m x"
proof -
  let ?p = "next_node m" and ?ns = "set (nodes_m rm)"
  obtain n' na' where new: "nheap m' ?p = Some n'" "pos_m n' = q" "links bwd n' = [a]"
      and old: "nheap m' a = Some na'" "pos_m na' = pos_m na" "links bwd na' = links bwd na"
      and rest: "\<forall>x. x \<noteq> a \<longrightarrow> x \<noteq> ?p \<longrightarrow> nheap m' x = nheap m x" and ne: "a \<noteq> ?p"
      and nodes: "map_option nodes_m (rheap m' tree) = Some (nodes_m rm @ [?p])"
      and others: "\<forall>t. t \<noteq> tree \<longrightarrow> rheap m' t = rheap m t"
      and nxt: "next_node m' = ?p + 1" and pl: "planner m' = planner m"
    using grow_SomeD [OF assms(1,2,6,3)] by metis
  obtain rm' where rm': "rheap m' tree = Some rm'" "nodes_m rm' = nodes_m rm @ [?p]" using nodes by auto
  have dom: "?ns \<subseteq> dom (nheap m)" using tree_ok_dom [OF assms(4)] .
  then have lt: "x < ?p" if "x \<in> ?ns" for x
    using that assms(2) by (fastforce simp: heap_fresh_def not_le [symmetric])
  then have keep: "keeps bwd (nheap m) (nheap m') ?ns"
    using old rest assms(6) unfolding keeps_def by (metis less_irrefl option.inject)
  have "node_ok free good bwd rc (nheap m') (set (nodes_m rm')) p" if "p \<in> ?ns" for p
  proof (rule node_ok_keeps [OF keep _ that])
    show "?ns \<subseteq> set (nodes_m rm')" unfolding rm'(2) by auto
    show "node_ok free good bwd rc (nheap m) ?ns p" using assms(4) that unfolding tree_ok_def by blast
  qed
  moreover have "node_ok free good bwd rc (nheap m') (set (nodes_m rm')) ?p"
    using new old(1,2) assms(5,7,8) lt rm'(2) by (auto simp: node_ok_def)
  ultimately have tree: "tree_ok free good bwd rc (nheap m') (nodes_m rm')"
    unfolding tree_ok_def using rm'(2) by auto
  have "heap_fresh m'"
    using assms(2) rest nxt lt [OF assms(5)] by (auto simp: heap_fresh_def)
  moreover have "tip m' tree bwd q" using rm' new by (auto simp: tip_def)
  moreover have "\<forall>x. x \<notin> ?ns \<longrightarrow> x \<noteq> ?p \<longrightarrow> nheap m' x = nheap m x" using rest assms(5) by metis
  ultimately show ?thesis using that rm' tree others pl by blast
qed

section \<open>What holds between the steps of the search\<close>

definition tree_of :: "'a RRT_scheme \<Rightarrow> bool \<Rightarrow> nat" where
  "tree_of r bwd = (if bwd then Tgoal_m r else Tstart_m r)"

definition end_of :: "'a RRT_scheme \<Rightarrow> bool \<Rightarrow> Configuration" where
  "end_of r bwd = (if bwd then goal_m r else start_m r)"

definition rrt_inv :: "(Configuration \<Rightarrow> bool) \<Rightarrow> 'w planner \<Rightarrow> Mobility \<Rightarrow> 'w mach \<Rightarrow> RRT \<Rightarrow> bool" where
  "rrt_inv free pl0 mob m r \<longleftrightarrow>
     answers free pl0 (planner m) \<and> mobility_m pl0 = Some mob \<and> heap_fresh m \<and>
     Tstart_m r \<noteq> Tgoal_m r \<and>
     (\<exists>b. Ta_m r = tree_of r b \<and> Tb_m r = tree_of r (\<not> b)) \<and>
     (\<exists>tm. (\<forall>b. rheap m (tree_of r b) = Some (tm b) \<and> nodes_m (tm b) \<noteq> [] \<and>
              tree_ok free (seg_free free pl0 mob) b (end_of r b) (nheap m) (nodes_m (tm b))) \<and>
           set (nodes_m (tm False)) \<inter> set (nodes_m (tm True)) = {})"

lemma rrt_inv_planner:
  assumes "rrt_inv free pl0 mob m r" and "answers free pl0 pl"
  shows "rrt_inv free pl0 mob (m\<lparr>planner := pl\<rparr>) r"
  using assms unfolding rrt_inv_def by (simp add: heap_fresh_def)

lemma rrt_inv_object:
  assumes "rrt_inv free pl0 mob m r"
  shows "rrt_inv free pl0 mob m (r\<lparr>TlastExtended_m := t\<rparr>)" "rrt_inv free pl0 mob (m\<lparr>rand_calls := k\<rparr>) r"
    "rrt_inv free pl0 mob m (swapTrees r)"
proof -
  have same: "tree_of (r\<lparr>TlastExtended_m := t\<rparr>) b = tree_of r b" "end_of (r\<lparr>TlastExtended_m := t\<rparr>) b = end_of r b"
      "tree_of (swapTrees r) b = tree_of r b" "end_of (swapTrees r) b = end_of r b" for b
    by (simp_all add: tree_of_def end_of_def swapTrees_def)
  show "rrt_inv free pl0 mob m (r\<lparr>TlastExtended_m := t\<rparr>)" "rrt_inv free pl0 mob (m\<lparr>rand_calls := k\<rparr>) r"
    using assms by (simp_all add: rrt_inv_def same heap_fresh_def)
  have "(\<exists>b. Ta_m r = tree_of r b \<and> Tb_m r = tree_of r (\<not> b)) \<longleftrightarrow>
      (\<exists>b. Tb_m r = tree_of r b \<and> Ta_m r = tree_of r (\<not> b))" by auto
  then show "rrt_inv free pl0 mob m (swapTrees r)"
    using assms by (simp add: rrt_inv_def same) (simp add: swapTrees_def)
qed

lemma other_tree: "Tstart_m r \<noteq> Tgoal_m r \<Longrightarrow> tree_of r (\<not> b) \<noteq> tree_of r b"
  by (simp add: tree_of_def)

text \<open>A successful \<open>grow\<close> keeps the invariant and the tip of the other tree.\<close>

lemma rrt_inv_grow:
  assumes inv: "rrt_inv free pl0 mob m r" and g: "grow m (tree_of r b) q a b = Some m'"
    and tm: "rheap m (tree_of r b) = Some rm" and a: "a \<in> set (nodes_m rm)" "nheap m a = Some na"
    and edge: "towards (seg_free free pl0 mob) b (pos_m na) q" and "free q"
  shows "rrt_inv free pl0 mob m' r \<and> tip m' (tree_of r b) b q \<and>
    (tip m (tree_of r (\<not> b)) (\<not> b) c \<longrightarrow> tip m' (tree_of r (\<not> b)) (\<not> b) c)"
proof -
  let ?good = "seg_free free pl0 mob" and ?t = "tree_of r b" and ?o = "tree_of r (\<not> b)"
  have ne: "?o \<noteq> ?t" and fresh: "heap_fresh m" using inv by (auto simp: rrt_inv_def other_tree)
  obtain rb ro where rb: "rheap m ?t = Some rb" "tree_ok free ?good b (end_of r b) (nheap m) (nodes_m rb)"
      and ro: "rheap m ?o = Some ro" "tree_ok free ?good (\<not> b) (end_of r (\<not> b)) (nheap m) (nodes_m ro)"
      and nonempty: "nodes_m ro \<noteq> []"
      and disj: "set (nodes_m rb) \<inter> set (nodes_m ro) = {}"
  proof -
    obtain tm where disj: "set (nodes_m (tm False)) \<inter> set (nodes_m (tm True)) = {}"
      and tm: "\<forall>x. rheap m (tree_of r x) = Some (tm x) \<and> nodes_m (tm x) \<noteq> [] \<and>
        tree_ok free ?good x (end_of r x) (nheap m) (nodes_m (tm x))"
      using inv unfolding rrt_inv_def by blast
    have "set (nodes_m (tm b)) \<inter> set (nodes_m (tm (\<not> b))) = {}" using disj by (cases b) auto
    then show ?thesis using that tm by blast
  qed
  have "rb = rm" using rb(1) tm by simp
  obtain rm' where rm': "rheap m' ?t = Some rm'" "nodes_m rm' = nodes_m rm @ [next_node m]"
      and tree: "tree_ok free ?good b (end_of r b) (nheap m') (nodes_m rm')"
      and fresh': "heap_fresh m'" and tip': "tip m' ?t b q"
      and others: "\<forall>t. t \<noteq> ?t \<longrightarrow> rheap m' t = rheap m t" and pl: "planner m' = planner m"
      and same: "\<forall>x. x \<notin> set (nodes_m rm) \<longrightarrow> x \<noteq> next_node m \<longrightarrow> nheap m' x = nheap m x"
    using tree_ok_grow [OF g fresh tm rb(2) [unfolded \<open>rb = rm\<close>] a edge \<open>free q\<close>] .
  have old: "next_node m \<notin> set (nodes_m ro)"
    using tree_ok_dom [OF ro(2)] fresh by (auto simp: heap_fresh_def)
  have keep: "keeps (\<not> b) (nheap m) (nheap m') (set (nodes_m ro))"
    using same disj old \<open>rb = rm\<close> by (intro keeps_same) auto
  have tree_o: "tree_ok free ?good (\<not> b) (end_of r (\<not> b)) (nheap m') (nodes_m ro)"
    using tree_ok_keeps [OF keep ro(2)] .
  have heap_o: "rheap m' ?o = Some ro" using others ne ro(1) by simp
  have disj': "set (nodes_m rm') \<inter> set (nodes_m ro) = {}" using disj old rm'(2) \<open>rb = rm\<close> by auto
  define tm' where "tm' x = (if x = b then rm' else ro)" for x
  have "rheap m' (tree_of r x) = Some (tm' x) \<and> nodes_m (tm' x) \<noteq> [] \<and> tree_ok free ?good x (end_of r x) (nheap m') (nodes_m (tm' x))" for x
    using rm' tree heap_o tree_o nonempty by (cases "x = b") (auto simp: tm'_def)
  moreover have "set (nodes_m (tm' False)) \<inter> set (nodes_m (tm' True)) = {}"
    using disj' by (cases b) (auto simp: tm'_def)
  ultimately have "rrt_inv free pl0 mob m' r"
    using inv fresh' unfolding rrt_inv_def pl by blast
  moreover have "tip m ?o (\<not> b) c \<longrightarrow> tip m' ?o (\<not> b) c"
    using tip_keeps [OF _ _ keep ro(1)] others ne by blast
  ultimately show ?thesis using tip' by blast
qed

lemma tip_planner: "tip (m\<lparr>planner := pl\<rparr>) t b c = tip m t b c"
  by (simp add: tip_def)

lemma extend_edge_spec:
  assumes inv: "rrt_inv free pl0 mob m r" and rm: "rheap m (tree_of r b) = Some rm"
    and a: "a \<in> set (nodes_m rm)" "nheap m a = Some na" and "free q"
    and run: "extend_edge m r (tree_of r b) a d (pos_m na) q b = Some (e, m')"
  shows "rrt_inv free pl0 mob m' r \<and> (e \<noteq> Trapped \<longrightarrow> tip m' (tree_of r b) b q) \<and>
    (e = Reached \<longrightarrow> dle d (eps_m r)) \<and>
    (tip m (tree_of r (\<not> b)) (\<not> b) c \<longrightarrow> tip m' (tree_of r (\<not> b)) (\<not> b) c)"
proof -
  let ?good = "seg_free free pl0 mob" and ?p = "pos_m na"
  have ans: "answers free pl0 (planner m)" using inv by (simp add: rrt_inv_def)
  then have mob: "mobility_m (planner m) = Some mob"
    using inv same_setup_fields(1) [of pl0 "planner m"] by (simp add: rrt_inv_def answers_def)
  obtain ok pl where reach:
      "(if b then isReachable (planner m) mob q ?p True else isReachable (planner m) mob ?p q True) = Some (ok, pl)"
    and res: "if ok then grow (m\<lparr>planner := pl\<rparr>) (tree_of r b) q a b = Some m' \<and> e = (if dle d (eps_m r) then Reached else Advanced)
       else m' = m\<lparr>planner := pl\<rparr> \<and> e = Trapped"
    using run mob by (auto simp: extend_edge_def bind_Some_iff split: if_splits)
  have "(ok \<longleftrightarrow> towards ?good b ?p q) \<and> answers free pl0 pl"
    using planner_segments.reach_SomeD [OF ans, of mob] reach
    by (cases b) (auto simp: towards_def reach_planner_def)
  then have edge: "ok \<longleftrightarrow> towards ?good b ?p q" and ans2: "answers free pl0 pl" by blast+
  note inv2 = rrt_inv_planner [OF inv ans2]
  show ?thesis
  proof (cases ok)
    case False
    then show ?thesis using res inv2 by (simp add: tip_planner)
  next
    case True
    then have g: "grow (m\<lparr>planner := pl\<rparr>) (tree_of r b) q a b = Some m'"
        and e: "e = (if dle d (eps_m r) then Reached else Advanced)"
      using res by simp_all
    have "towards ?good b ?p q" using edge True by simp
    then show ?thesis
      using rrt_inv_grow [OF inv2 g _ a(1) _ _ \<open>free q\<close>, of na c] rm a(2) e by (simp add: tip_planner)
  qed
qed

lemma RRT_extend_spec:
  assumes inv: "rrt_inv free pl0 mob m r"
    and run: "RRT_extend m r (tree_of r b) qRand b = Some (e, q, m', r')"
  shows "r' = r\<lparr>TlastExtended_m := Some (tree_of r b)\<rparr> \<and> rrt_inv free pl0 mob m' r \<and>
    (e \<noteq> Trapped \<longrightarrow> tip m' (tree_of r b) b q) \<and> (e = Reached \<longrightarrow> q = qRand) \<and>
    (tip m (tree_of r (\<not> b)) (\<not> b) c \<longrightarrow> tip m' (tree_of r (\<not> b)) (\<not> b) c)"
proof -
  let ?t = "tree_of r b" and ?o = "tree_of r (\<not> b)" and ?good = "seg_free free pl0 mob"
  have ans: "answers free pl0 (planner m)" using inv by (simp add: rrt_inv_def)
  obtain rm where rm: "rheap m ?t = Some rm" using inv unfolding rrt_inv_def by blast
  obtain near where near: "findNearestNode m ?t qRand = Some near"
    using run by (auto simp: RRT_extend_def Let_def bind_Some_iff)
  show ?thesis
  proof (cases near)
    case None
    then show ?thesis using run near inv by (auto simp: RRT_extend_def Let_def)
  next
    case (Some mn)
    then obtain a d where near: "findNearestNode m ?t qRand = Some (Some (a, d))" using near by (cases mn) auto
    have a: "a \<in> set (nodes_m rm)" using findNearestNode_mem [OF near rm] .
    obtain na hit pl where na: "nheap m a = Some na"
        and q: "extend_target m r (pos_m na) qRand d = Some q"
        and hit: "checkCollision_cfg (planner m) q = Some (hit, pl)"
        and res: "if hit then e = Trapped \<and> m' = m\<lparr>planner := pl\<rparr>
           else extend_edge (m\<lparr>planner := pl\<rparr>) r ?t a d (pos_m na) q b = Some (e, m')"
        and r': "r' = r\<lparr>TlastExtended_m := Some ?t\<rparr>"
      using run near by (auto simp: RRT_extend_def Let_def node_position_def bind_Some_iff split: if_splits)
    obtain pl' where "checkCollision_cfg (planner m) q = Some (\<not> free q, pl')" "decides free pl'"
        "same_setup (planner m) pl'"
      using planner_oracle.check ans unfolding answers_def by blast
    then have hit_free: "hit = (\<not> free q)" and ans1: "answers free pl0 pl"
      using hit ans same_setup_trans unfolding answers_def by auto
    note inv1 = rrt_inv_planner [OF inv ans1]
    have target: "dle d (eps_m r) \<longrightarrow> q = qRand" using q dle_not_dlt by (auto simp: extend_target_def)
    show ?thesis
    proof (cases hit)
      case True
      then show ?thesis using res r' inv1 by (simp add: tip_planner)
    next
      case False
      then have "free q" "extend_edge (m\<lparr>planner := pl\<rparr>) r ?t a d (pos_m na) q b = Some (e, m')"
        using hit_free res by simp_all
      then show ?thesis
        using extend_edge_spec [OF inv1 _ a, where c = c] rm na r' target by (simp add: tip_planner)
    qed
  qed
qed

lemma RRT_connect_spec:
  assumes "RRT_connect m r tree qNew b = Some (e, m', r')"
    and "rrt_inv free pl0 mob m r" and "tree = tree_of r b"
  shows "(\<exists>t. r' = r\<lparr>TlastExtended_m := t\<rparr>) \<and> rrt_inv free pl0 mob m' r \<and>
    (e = Reached \<longrightarrow> tip m' tree b qNew) \<and>
    (\<forall>c. tip m (tree_of r (\<not> b)) (\<not> b) c \<longrightarrow> tip m' (tree_of r (\<not> b)) (\<not> b) c)"
proof -
  let ?Q = "\<lambda>m r tree qNew b e m' r'. (\<exists>t. r' = r\<lparr>TlastExtended_m := t\<rparr>) \<and> rrt_inv free pl0 mob m' r \<and>
      (e = Reached \<longrightarrow> tip m' tree b qNew) \<and>
      (\<forall>c. tip m (tree_of r (\<not> b)) (\<not> b) c \<longrightarrow> tip m' (tree_of r (\<not> b)) (\<not> b) c)"
  let ?P = "\<lambda>m r tree qNew b (e, m', r'). rrt_inv free pl0 mob m r \<longrightarrow> tree = tree_of r b \<longrightarrow> ?Q m r tree qNew b e m' r'"
  have "?P m r tree qNew b (e, m', r')"
  proof (rule RRT_connect.raw_induct [where P = ?P, OF _ assms(1)])
    fix conn :: "'a mach \<Rightarrow> RRT \<Rightarrow> nat \<Rightarrow> Configuration \<Rightarrow> bool \<Rightarrow> (ExtendResult \<times> 'a mach \<times> RRT) option"
    fix m r tree qNew b x
    assume IH: "\<And>m r tree qNew b x. conn m r tree qNew b = Some x \<Longrightarrow> ?P m r tree qNew b x"
      and step: "RRT_extend m r tree qNew b \<bind> (\<lambda>(ret, q, m1, r1).
        if ret = Advanced then conn m1 r1 tree qNew b else Some (ret, m1, r1)) = Some x"
    show "?P m r tree qNew b x"
    proof (cases x, clarify)
      fix e m' r'
      assume x: "x = (e, m', r')" and inv: "rrt_inv free pl0 mob m r" and tree: "tree = tree_of r b"
      obtain ret q m1 r1 where ext: "RRT_extend m r (tree_of r b) qNew b = Some (ret, q, m1, r1)"
          and res: "if ret = Advanced then conn m1 r1 tree qNew b = Some x else x = (ret, m1, r1)"
        using step tree by (auto simp: bind_Some_iff split: if_splits)
      have spec: "r1 = r\<lparr>TlastExtended_m := Some (tree_of r b)\<rparr>" "rrt_inv free pl0 mob m1 r"
          "ret \<noteq> Trapped \<longrightarrow> tip m1 (tree_of r b) b q" "ret = Reached \<longrightarrow> q = qNew"
          "\<forall>c. tip m (tree_of r (\<not> b)) (\<not> b) c \<longrightarrow> tip m1 (tree_of r (\<not> b)) (\<not> b) c"
        using RRT_extend_spec [OF inv ext] by blast+
      show "?Q m r (tree_of r b) qNew b e m' r'"
      proof (cases "ret = Advanced")
        case False
        then have "e = ret" "m' = m1" "r' = r1" using res x by simp_all
        then show ?thesis using spec by auto
      next
        case True
        have inv1: "rrt_inv free pl0 mob m1 r1" using rrt_inv_object(1) [OF spec(2)] spec(1) by simp
        have same: "tree_of r1 c = tree_of r c" for c by (simp add: spec(1) tree_of_def)
        have q1: "?Q m1 r1 tree qNew b e m' r'"
          using IH [of m1 r1 tree qNew b x] res True inv1 tree x by (simp add: same)
        then obtain t where r': "r' = r1\<lparr>TlastExtended_m := t\<rparr>" by blast
        have "rrt_inv free pl0 mob m' (r1\<lparr>TlastExtended_m := TlastExtended_m r\<rparr>)"
          using q1 rrt_inv_object(1) by blast
        then have "rrt_inv free pl0 mob m' r" by (simp add: spec(1))
        moreover have "r' = r\<lparr>TlastExtended_m := t\<rparr>" by (simp add: r' spec(1))
        ultimately show ?thesis using q1 spec(5) tree unfolding same by blast
      qed
    qed
  qed
  then show ?thesis using assms(2,3) by simp
qed

text \<open>The two trees (or the forward tree and the goal) have met.\<close>

definition met :: "'w mach \<Rightarrow> RRT \<Rightarrow> bool" where
  "met m r \<longleftrightarrow> extendFromStart_m r \<and>
     (if extendFromGoal_m r then \<exists>c. tip m (Tstart_m r) False c \<and> tip m (Tgoal_m r) True c
      else tip m (Tstart_m r) False (goal_m r))"

definition same_task :: "RRT \<Rightarrow> RRT \<Rightarrow> bool" where
  "same_task r r' \<longleftrightarrow> r' = r\<lparr>TlastExtended_m := TlastExtended_m r', Ta_m := Ta_m r', Tb_m := Tb_m r'\<rparr>"

lemma same_task_trans: "same_task r r1 \<Longrightarrow> same_task r1 r2 \<Longrightarrow> same_task r r2"
  by (cases r; cases r1; cases r2) (simp add: same_task_def)

lemma same_taskI:
  "same_task r r" "same_task r (r\<lparr>TlastExtended_m := t\<rparr>)" "same_task r (swapTrees r)"
  by (cases r; auto simp: same_task_def swapTrees_def)+

lemma same_task_fields:
  assumes "same_task r r'"
  shows "start_m r' = start_m r" "goal_m r' = goal_m r" "Tstart_m r' = Tstart_m r" "Tgoal_m r' = Tgoal_m r"
    "extendFromStart_m r' = extendFromStart_m r" "extendFromGoal_m r' = extendFromGoal_m r"
  using assms by (cases r; cases r'; simp add: same_task_def)+

lemma extendOneStep_spec:
  assumes inv: "rrt_inv free pl0 mob m r" and run: "extendOneStep m r = Some (ok, m', r')"
  shows "rrt_inv free pl0 mob m' r' \<and> same_task r r' \<and> (ok \<longrightarrow> met m' r')"
proof -
  obtain qNew k where rnd: "cs_random (cspace_m (planner m)) (rsource m) (rand_calls m) = Some (qNew, k)"
    using run by (auto simp: extendOneStep_def bind_Some_iff)
  let ?m0 = "m\<lparr>rand_calls := k\<rparr>"
  have inv0: "rrt_inv free pl0 mob ?m0 r" using rrt_inv_object(2) [OF inv] .
  consider (both) "extendFromStart_m r" "extendFromGoal_m r"
    | (start) "extendFromStart_m r" "\<not> extendFromGoal_m r" | (none) "\<not> extendFromStart_m r" by blast
  then show ?thesis
  proof cases
    case both
    obtain b where b: "Ta_m r = tree_of r b" "Tb_m r = tree_of r (\<not> b)" using inv by (auto simp: rrt_inv_def)
    have ne: "Tstart_m r \<noteq> Tgoal_m r" using inv by (simp add: rrt_inv_def)
    have dir: "(Tb_m r = Tstart_m r) = b" "(Ta_m r = Tstart_m r) = (\<not> b)"
      using b ne by (auto simp: tree_of_def)
    obtain e q m1 r1 where ext: "RRT_extend ?m0 r (tree_of r b) qNew b = Some (e, q, m1, r1)"
        and res: "if e \<noteq> Trapped then
            do { (c, m2, r2) \<leftarrow> RRT_connect m1 r1 (Tb_m r1) q (Ta_m r1 = Tstart_m r1);
                 if c = Reached then
                   (case extraConnectionCheckFunc_m r2 of
                      None \<Rightarrow> Some (True, m2, r2)
                    | Some f \<Rightarrow>
                        do { nd \<leftarrow> lastAddedNode m2 (Tstart_m r2);
                             p \<leftarrow> nd;
                             pos \<leftarrow> node_position (nheap m2) p;
                             Some (f pos, m2, r2) })
                 else Some (False, m2, swapTrees r2) } = Some (ok, m', r')
          else Some (False, m1, swapTrees r1) = Some (ok, m', r')"
      using run rnd both b dir by (auto simp: extendOneStep_def bind_Some_iff split: if_splits)
    have r1: "r1 = r\<lparr>TlastExtended_m := Some (tree_of r b)\<rparr>" and inv1: "rrt_inv free pl0 mob m1 r"
        and tip1: "e \<noteq> Trapped \<longrightarrow> tip m1 (tree_of r b) b q"
      using RRT_extend_spec [OF inv0 ext] by blast+
    have inv1': "rrt_inv free pl0 mob m1 r1" using rrt_inv_object(1) [OF inv1] r1 by simp
    have same1: "same_task r r1" by (simp add: r1 same_taskI)
    have trees: "tree_of r1 c = tree_of r c" for c by (simp add: r1 tree_of_def)
    show ?thesis
    proof (cases "e = Trapped")
      case True
      then have "ok = False" "m' = m1" "r' = swapTrees r1" using res by simp_all
      then show ?thesis using rrt_inv_object(3) [OF inv1'] same1 same_taskI(3) same_task_trans by blast
    next
      case False
      obtain c m2 r2 where con: "RRT_connect m1 r1 (tree_of r1 (\<not> b)) q (\<not> b) = Some (c, m2, r2)"
          and m': "m' = m2" and r': "r' = (if c = Reached then r2 else swapTrees r2)" and ok: "ok \<longrightarrow> c = Reached"
      proof -
        obtain c m2 r2 where con: "RRT_connect m1 r1 (Tb_m r1) q (Ta_m r1 = Tstart_m r1) = Some (c, m2, r2)"
            and rest: "if c = Reached then
                   (case extraConnectionCheckFunc_m r2 of
                      None \<Rightarrow> Some (True, m2, r2)
                    | Some f \<Rightarrow>
                        do { nd \<leftarrow> lastAddedNode m2 (Tstart_m r2);
                             p \<leftarrow> nd;
                             pos \<leftarrow> node_position (nheap m2) p;
                             Some (f pos, m2, r2) }) = Some (ok, m', r')
                 else Some (False, m2, swapTrees r2) = Some (ok, m', r')"
          using res False by (auto simp: bind_Some_iff split: if_splits)
        have "Tb_m r1 = tree_of r1 (\<not> b)" "(Ta_m r1 = Tstart_m r1) = (\<not> b)"
          using b dir by (simp_all add: r1 tree_of_def)
        moreover have "m' = m2 \<and> r' = (if c = Reached then r2 else swapTrees r2) \<and> (ok \<longrightarrow> c = Reached)"
          using rest by (auto simp: bind_Some_iff split: if_splits option.splits)
        ultimately show ?thesis using that con by simp
      qed
      have r2: "\<exists>t. r2 = r1\<lparr>TlastExtended_m := t\<rparr>" and inv2: "rrt_inv free pl0 mob m2 r1"
          and tip2: "c = Reached \<longrightarrow> tip m2 (tree_of r1 (\<not> b)) (\<not> b) q"
          and keep: "\<forall>c. tip m1 (tree_of r1 b) b c \<longrightarrow> tip m2 (tree_of r1 b) b c"
        using RRT_connect_spec [OF con inv1' refl] by auto
      have inv2': "rrt_inv free pl0 mob m2 r2" using r2 rrt_inv_object(1) [OF inv2] by auto
      have same2: "same_task r r2" using r2 same1 same_taskI(2) same_task_trans by blast
      have "met m2 r2" if "c = Reached"
      proof -
        have "tip m2 (tree_of r x) x q" for x
          using tip1 tip2 keep that False by (cases "x = b") (auto simp: trees)
        from this [of False] this [of True] show ?thesis
          using both same_task_fields [OF same2] by (auto simp: met_def tree_of_def)
      qed
      then show ?thesis
        using m' r' ok inv2' same2 rrt_inv_object(3) [OF inv2'] same_taskI(3) same_task_trans
        by (auto split: if_splits)
    qed
  next
    case start
    obtain e q m1 r1 where ext: "RRT_extend ?m0 r (tree_of r False) qNew False = Some (e, q, m1, r1)"
        and res: "if e \<noteq> Trapped then
            do { (c, m2, r2) \<leftarrow> RRT_connect m1 r1 (Tstart_m r1) (goal_m r1) False;
                 Some (c = Reached, m2, r2) } = Some (ok, m', r')
          else Some (False, m1, r1) = Some (ok, m', r')"
      using run rnd start by (auto simp: extendOneStep_def bind_Some_iff tree_of_def split: if_splits)
    have r1: "r1 = r\<lparr>TlastExtended_m := Some (tree_of r False)\<rparr>" and inv1: "rrt_inv free pl0 mob m1 r"
      using RRT_extend_spec [OF inv0 ext] by blast+
    have inv1': "rrt_inv free pl0 mob m1 r1" using rrt_inv_object(1) [OF inv1] r1 by simp
    have same1: "same_task r r1" by (simp add: r1 same_taskI)
    show ?thesis
    proof (cases "e = Trapped")
      case True
      then show ?thesis using res inv1' same1 by simp
    next
      case False
      then obtain c where con: "RRT_connect m1 r1 (tree_of r1 False) (goal_m r1) False = Some (c, m', r')"
          and ok: "ok = (c = Reached)"
        using res by (auto simp: bind_Some_iff tree_of_def)
      have r2: "\<exists>t. r' = r1\<lparr>TlastExtended_m := t\<rparr>" and inv2: "rrt_inv free pl0 mob m' r1"
          and tip2: "c = Reached \<longrightarrow> tip m' (tree_of r1 False) False (goal_m r1)"
        using RRT_connect_spec [OF con inv1' refl] by blast+
      have "rrt_inv free pl0 mob m' r'" using r2 rrt_inv_object(1) [OF inv2] by auto
      moreover have same2: "same_task r r'" using r2 same1 same_taskI(2) same_task_trans by blast
      moreover have "ok \<longrightarrow> met m' r'"
        using tip2 ok start same_task_fields [OF same2] same_task_fields [OF same1] by (simp add: met_def tree_of_def)
      ultimately show ?thesis by blast
    qed
  next
    case none
    then show ?thesis using run rnd inv0 by (auto simp: extendOneStep_def same_taskI)
  qed
qed

lemma trial_loop_spec:
  "rrt_inv free pl0 mob m r \<Longrightarrow> trial_loop k m r = Some (ok, m', r') \<Longrightarrow>
     rrt_inv free pl0 mob m' r' \<and> same_task r r' \<and> (ok \<longrightarrow> met m' r')"
proof (induction k arbitrary: m r)
  case 0
  then show ?case by (simp add: same_taskI)
next
  case (Suc k)
  obtain b m1 r1 where step: "extendOneStep m r = Some (b, m1, r1)"
      and rest: "if b then Some (True, m1, r1) = Some (ok, m', r') else trial_loop k m1 r1 = Some (ok, m', r')"
    using Suc.prems(2) by (auto simp: bind_Some_iff split: if_splits)
  have s: "rrt_inv free pl0 mob m1 r1" "same_task r r1" "b \<longrightarrow> met m1 r1"
    using extendOneStep_spec [OF Suc.prems(1) step] by blast+
  show ?case
  proof (cases b)
    case False
    then show ?thesis using Suc.IH [OF s(1)] rest s(2) same_task_trans by simp
  qed (use rest s in simp)
qed

section \<open>The extracted path\<close>

text \<open>The waypoints the loops collect are free, or at the place of the root.\<close>

lemma back_loop_spec:
  assumes tree: "tree_ok free good False rc h ns"
  shows "p \<in> set ns \<Longrightarrow> h p = Some n \<Longrightarrow>
    \<exists>path. back_loop h p acc = Some (path @ acc) \<and> way good rc (pos_m n) path \<and>
      (\<forall>c \<in> set path. free c \<or> c = rc)"
proof (induction p arbitrary: n acc rule: less_induct)
  case (less p)
  have ok: "free (pos_m n) \<or> pos_m n = rc"
      "case parents_m n of [] \<Rightarrow> pos_m n = rc
       | q # _ \<Rightarrow> q \<in> set ns \<and> q < p \<and> (\<exists>nq. h q = Some nq \<and> good (pos_m nq) (pos_m n))"
    using tree_okD [OF tree less.prems] by (auto simp: links_def towards_def split: list.splits)
  show ?case
  proof (cases "parents_m n")
    case Nil
    then show ?thesis
      using ok less.prems by (intro exI [of _ "[pos_m n]"], subst back_loop.simps)
        (simp add: node_position_def node_parent_def way_def)
  next
    case (Cons q qs)
    then obtain nq where q: "q \<in> set ns" "q < p" "h q = Some nq" "good (pos_m nq) (pos_m n)"
      using ok(2) by auto
    have eq: "back_loop h p acc = back_loop h q (pos_m n # acc)"
      using less.prems Cons by (subst back_loop.simps) (simp add: node_position_def node_parent_def)
    obtain path where path: "back_loop h q (pos_m n # acc) = Some (path @ pos_m n # acc)"
        "way good rc (pos_m nq) path" "\<forall>c \<in> set path. free c \<or> c = rc"
      using less.IH [OF q(2,1,3)] by blast
    have "way good rc (pos_m n) (path @ [pos_m n])"
      using path(2) q(4) by (auto simp: way_def successively_append_iff)
    then show ?thesis
      unfolding eq using path ok(1) by (intro exI [of _ "path @ [pos_m n]"]) auto
  qed
qed

lemma forth_loop_spec:
  assumes tree: "tree_ok free good True rc h ns"
  shows "p \<in> set ns \<Longrightarrow> h p = Some n \<Longrightarrow>
    \<exists>path. forth_loop h p acc = Some (acc @ path) \<and> way good (pos_m n) rc path \<and>
      (\<forall>c \<in> set path. free c \<or> c = rc)"
proof (induction p arbitrary: n acc rule: less_induct)
  case (less p)
  have ok: "free (pos_m n) \<or> pos_m n = rc"
      "case children_m n of [] \<Rightarrow> pos_m n = rc
       | q # _ \<Rightarrow> q \<in> set ns \<and> q < p \<and> (\<exists>nq. h q = Some nq \<and> good (pos_m n) (pos_m nq))"
    using tree_okD [OF tree less.prems] by (auto simp: links_def towards_def split: list.splits)
  show ?case
  proof (cases "children_m n")
    case Nil
    then show ?thesis
      using ok less.prems by (intro exI [of _ "[pos_m n]"], subst forth_loop.simps)
        (simp add: node_position_def node_child_def way_def)
  next
    case (Cons q qs)
    then obtain nq where q: "q \<in> set ns" "q < p" "h q = Some nq" "good (pos_m n) (pos_m nq)"
      using ok(2) by auto
    have eq: "forth_loop h p acc = forth_loop h q (acc @ [pos_m n])"
      using less.prems Cons by (subst forth_loop.simps) (simp add: node_position_def node_child_def)
    obtain path where path: "forth_loop h q (acc @ [pos_m n]) = Some ((acc @ [pos_m n]) @ path)"
        "way good (pos_m nq) rc path" "\<forall>c \<in> set path. free c \<or> c = rc"
      using less.IH [OF q(2,1,3)] by blast
    have "way good (pos_m n) rc (pos_m n # path)"
      using path(2) q(4) by (auto simp: way_def successively_Cons)
    then show ?thesis
      unfolding eq using path ok(1) by (intro exI [of _ "pos_m n # path"]) auto
  qed
qed

lemma way_append:
  "way good a b p1 \<Longrightarrow> way good b' c p2 \<Longrightarrow> good b b' \<Longrightarrow> way good a c (p1 @ p2)"
  by (auto simp: way_def successively_append_iff)

lemma extractPath_met:
  assumes inv: "rrt_inv free pl0 mob m r" and "met m r"
  shows "\<exists>path. extractPath m r = Some path \<and> way (seg_free free pl0 mob) (start_m r) (goal_m r) path \<and>
    (\<forall>c \<in> set path. free c \<or> c = start_m r \<or> c = goal_m r)"
proof -
  let ?good = "seg_free free pl0 mob"
  obtain rs rg where rs: "rheap m (Tstart_m r) = Some rs" "nodes_m rs \<noteq> []"
        "tree_ok free ?good False (start_m r) (nheap m) (nodes_m rs)"
      and rg: "rheap m (Tgoal_m r) = Some rg" "nodes_m rg \<noteq> []"
        "tree_ok free ?good True (goal_m r) (nheap m) (nodes_m rg)"
  proof -
    obtain tm where tm: "rheap m (tree_of r b) = Some (tm b) \<and> nodes_m (tm b) \<noteq> [] \<and>
        tree_ok free ?good b (end_of r b) (nheap m) (nodes_m (tm b))" for b
      using inv unfolding rrt_inv_def by blast
    show ?thesis using that tm [of False] tm [of True] by (simp add: tree_of_def end_of_def)
  qed
  have "\<exists>c. tip m (Tstart_m r) False c \<and> (if extendFromGoal_m r then tip m (Tgoal_m r) True c else c = goal_m r)"
    using assms(2) by (cases "extendFromGoal_m r") (auto simp: met_def)
  then obtain c where tip_s: "tip m (Tstart_m r) False c"
      and tip_g: "if extendFromGoal_m r then tip m (Tgoal_m r) True c else c = goal_m r" by blast
  obtain ns where ns: "nheap m (last (nodes_m rs)) = Some ns" "pos_m ns = c"
    using tip_s rs by (auto simp: tip_def)
  obtain p1 where p1: "back_loop (nheap m) (last (nodes_m rs)) [] = Some p1" "way ?good (start_m r) c p1"
      "\<forall>c \<in> set p1. free c \<or> c = start_m r"
    using back_loop_spec [OF rs(3) _ ns(1), of "[]"] rs(2) ns(2) by auto
  have from_start: "extendFromStart_m r" using assms(2) by (simp add: met_def)
  have last: "lastAddedNode m (Tstart_m r) = Some (Some (last (nodes_m rs)))"
      "lastAddedNode m (Tgoal_m r) = Some (Some (last (nodes_m rg)))"
    using rs rg by (simp_all add: lastAddedNode_def)
  show ?thesis
  proof (cases "extendFromGoal_m r")
    case False
    then show ?thesis using p1 tip_g by (auto simp: extractPath_def last from_start)
  next
    case True
    obtain ng q qs where ng: "nheap m (last (nodes_m rg)) = Some ng" "pos_m ng = c" "children_m ng = q # qs"
      using tip_g True rg by (auto simp: tip_def links_def neq_Nil_conv)
    obtain nq where nq: "q \<in> set (nodes_m rg)" "nheap m q = Some nq" "?good c (pos_m nq)"
      using tree_okD [OF rg(3) _ ng(1)] rg(2) ng(2,3) by (auto simp: links_def towards_def)
    obtain p2 where p2: "forth_loop (nheap m) q p1 = Some (p1 @ p2)" "way ?good (pos_m nq) (goal_m r) p2"
        "\<forall>c \<in> set p2. free c \<or> c = goal_m r"
      using forth_loop_spec [OF rg(3) nq(1,2)] by blast
    have "extractPath m r = Some (p1 @ p2)"
      using True by (simp add: extractPath_def last from_start p1(1) node_child_def ng p2(1))
    then show ?thesis using way_append [OF p1(2) p2(2) nq(3)] p1(3) p2(3) by auto
  qed
qed

section \<open>Soundness of \<open>RRT::calcPath\<close>\<close>

text \<open>
  What a new \<open>RRT\<close> object satisfies: two different trees without nodes, in a store that has
  room for new ones.
\<close>

definition rrt_ready :: "'w mach \<Rightarrow> RRT \<Rightarrow> bool" where
  "rrt_ready m r \<longleftrightarrow> heap_fresh m \<and> Tstart_m r \<noteq> Tgoal_m r \<and>
     (\<exists>b. Ta_m r = tree_of r b \<and> Tb_m r = tree_of r (\<not> b)) \<and>
     (\<forall>b. map_option nodes_m (rheap m (tree_of r b)) = Some [])"

lemma RRT_new_ready:
  assumes "heap_fresh m" and "RRT_new m e t = (r, m')"
  shows "rrt_ready m' r \<and> \<not> ignoreCollisionAtStart_m r \<and> \<not> ignoreCollisionAtGoal_m r \<and> path_m r = []"
proof -
  let ?n = "next_map m" and ?e = "\<lparr>nodes_m = [], m_nEdges = 0\<rparr>"
  note defs = RRT_new_def Algorithm_new_def Roadmap_new_def Let_def Algorithm.defs RRT.defs setProperty_def
  have r: "r = fst (RRT_new m e t)" and m: "m' = snd (RRT_new m e t)" using assms(2) by simp_all
  have m': "m' = m\<lparr>rheap := (rheap m)(?n \<mapsto> ?e, ?n + 1 \<mapsto> ?e), next_map := ?n + 2\<rparr>"
    unfolding m by (simp add: defs)
  have trees: "Tstart_m r = ?n" "Tgoal_m r = ?n + 1" "Ta_m r = ?n" "Tb_m r = ?n + 1"
      and flags: "\<not> ignoreCollisionAtStart_m r" "\<not> ignoreCollisionAtGoal_m r" "path_m r = []"
    unfolding r by (simp_all add: defs)
  have "tree_of r b = (if b then ?n + 1 else ?n)" for b by (simp add: tree_of_def trees)
  then show ?thesis
    using assms(1) flags unfolding rrt_ready_def
    by (auto simp: trees m' heap_fresh_def intro: exI [of _ False])
qed

text \<open>The state when the trials begin: one root in each tree.\<close>

lemma rrt_inv_roots:
  assumes ready: "rrt_ready m r" and "answers free pl0 (planner m)" and "mobility_m pl0 = Some mob"
    and s: "RoadmapNode_new m (start_m r) = (s, m1)" and g: "RoadmapNode_new m1 (goal_m r) = (g, m2)"
    and m3: "addNode m2 (Tstart_m r) s = Some m3" and m4: "addNode m3 (Tgoal_m r) g = Some m4"
  shows "rrt_inv free pl0 mob m4 r"
proof -
  have ne: "Tstart_m r \<noteq> Tgoal_m r" and fresh: "heap_fresh m" using ready by (simp_all add: rrt_ready_def)
  obtain rs rg where rs: "rheap m (Tstart_m r) = Some rs" "nodes_m rs = []"
      and rg: "rheap m (Tgoal_m r) = Some rg" "nodes_m rg = []"
  proof -
    have "map_option nodes_m (rheap m (tree_of r b)) = Some []" for b
      using ready by (simp add: rrt_ready_def)
    from this [of False] this [of True] show ?thesis using that by (auto simp: tree_of_def)
  qed
  let ?node = "\<lambda>p c. \<lparr>parents_m = [], children_m = [], pos_m = c, visited_m = uninit m p\<rparr>"
  let ?n = "next_node m"
  have sg: "s = ?n" "g = ?n + 1" using s g by (auto simp: RoadmapNode_new_def Let_def)
  have heap: "nheap m4 = (nheap m)(?n \<mapsto> ?node ?n (start_m r), ?n + 1 \<mapsto> ?node (?n + 1) (goal_m r))"
      and next_: "next_node m4 = ?n + 2" and pl: "planner m4 = planner m"
      and maps: "rheap m4 = (rheap m)(Tstart_m r \<mapsto> rs\<lparr>nodes_m := [s]\<rparr>, Tgoal_m r \<mapsto> rg\<lparr>nodes_m := [g]\<rparr>)"
    using s g m3 m4 rs rg ne by (auto simp: RoadmapNode_new_def addNode_def Let_def bind_Some_iff)
  define tm where "tm b = (if b then rg\<lparr>nodes_m := [g]\<rparr> else rs\<lparr>nodes_m := [s]\<rparr>)" for b
  have "rheap m4 (tree_of r b) = Some (tm b) \<and> nodes_m (tm b) \<noteq> [] \<and>
      tree_ok free (seg_free free pl0 mob) b (end_of r b) (nheap m4) (nodes_m (tm b))" for b
    using ne by (cases b) (auto simp: tm_def maps heap sg tree_of_def end_of_def tree_ok_def node_ok_def links_def)
  moreover have "set (nodes_m (tm False)) \<inter> set (nodes_m (tm True)) = {}"
    by (simp add: tm_def sg)
  moreover have "heap_fresh m4" using fresh by (auto simp: heap_fresh_def heap next_)
  ultimately show ?thesis
    using ready assms(2,3) unfolding rrt_inv_def rrt_ready_def pl by blast
qed

lemma RRT_calcPath_way:
  assumes "decides free (planner m)" and "mobility_m (planner m) = Some mob" and ready: "rrt_ready m r"
    and run: "RRT_calcPath m r = Some (True, m', r')"
  shows "way (seg_free free (planner m) mob) (start_m r) (goal_m r) (path_m r') \<and>
    (\<forall>c \<in> set (path_m r'). free c \<or> c = start_m r \<or> c = goal_m r) \<and>
    answers free (planner m) (planner m')"
proof -
  let ?pl0 = "planner m"
  obtain sv r1 where sv: "prop_index r ''max-trials'' = (sv, r1)" by (cases "prop_index r ''max-trials''")
  obtain ev r2 where ev: "prop_index r1 ''eps'' = (ev, r2)" by (cases "prop_index r1 ''eps''")
  obtain times where times: "c_atoi sv = Some times" using run by (auto simp: RRT_calcPath_def sv ev bind_Some_iff)
  let ?r3 = "r2\<lparr>times_m := times, eps_m := c_atof ev\<rparr>"
  have same: "start_m ?r3 = start_m r" "goal_m ?r3 = goal_m r" "Tstart_m ?r3 = Tstart_m r"
      "Tgoal_m ?r3 = Tgoal_m r" "Ta_m ?r3 = Ta_m r" "Tb_m ?r3 = Tb_m r"
    using sv ev by (auto simp: prop_index_def Let_def split: prod.splits)
  obtain s m1 where s: "RoadmapNode_new m (start_m r) = (s, m1)" by (cases "RoadmapNode_new m (start_m r)")
  obtain g m2 where g: "RoadmapNode_new m1 (goal_m r) = (g, m2)" by (cases "RoadmapNode_new m1 (goal_m r)")
  obtain m3 m4 m5 r5 path where m3: "addNode m2 (Tstart_m r) s = Some m3"
      and m4: "addNode m3 (Tgoal_m r) g = Some m4"
      and loop: "trial_loop (nat times) m4 ?r3 = Some (True, m5, r5)"
      and path: "extractPath m5 r5 = Some path" and m': "integrate m5 (Tgoal_m r5) (Tstart_m r5) = Some m'"
      and r': "r' = r5\<lparr>path_m := path\<rparr>"
    using run s g same by (auto simp: RRT_calcPath_def sv ev times bind_Some_iff)
  have "tree_of ?r3 b = tree_of r b" for b using same by (simp add: tree_of_def)
  then have ready3: "rrt_ready m ?r3" using ready same by (simp add: rrt_ready_def)
  have ans: "answers free ?pl0 (planner m)" using assms(1) by (simp add: answers_def same_setup_refl)
  have "rrt_inv free ?pl0 mob m4 ?r3"
    using rrt_inv_roots [OF ready3 ans assms(2)] s g m3 m4 unfolding same by blast
  then have inv5: "rrt_inv free ?pl0 mob m5 r5" and task: "same_task ?r3 r5" and "met m5 r5"
    using trial_loop_spec loop by blast+
  then obtain path' where "extractPath m5 r5 = Some path'"
      "way (seg_free free ?pl0 mob) (start_m r5) (goal_m r5) path'"
      "\<forall>c \<in> set path'. free c \<or> c = start_m r5 \<or> c = goal_m r5"
    using extractPath_met by blast
  moreover have "planner m' = planner m5"
    using m' by (auto simp: integrate_def bind_Some_iff split: if_splits)
  ultimately show ?thesis
    using path r' inv5 same_task_fields [OF task] same by (simp add: rrt_inv_def)
qed

text \<open>
  C2: when a new \<open>RRT\<close> object reports success, its path leads from the start to the goal, every
  waypoint is reachable from the one before it without a collision, and every waypoint but the
  two ends is free; in both modes, with trees grown from one end or from both.
\<close>

theorem RRT_calcPath_sound:
  assumes "decides free (planner m)" and "mobility_m (planner m) = Some mob" and "rrt_ready m r"
    and "RRT_calcPath m r = Some (True, m', r')"
  shows "way (seg_free free (planner m) mob) (start_m r) (goal_m r) (path_m r') \<and>
    (\<forall>c \<in> set (path_m r'). free c \<or> c = start_m r \<or> c = goal_m r)"
  using RRT_calcPath_way [OF assms] by blast

end
