(* ===== verification/PRMModel.thy ===== *)
theory PRMModel
  imports RRTModel
begin

text \<open>
  \<open>hrplib/hrpPlanner/PRM.{h,cpp}\<close>: probabilistic roadmaps. Random free configurations are
  collected, close ones are connected, and the path is searched for in the roadmap. The member
  \<open>maxNeighbors_\<close> is never used and has no field here.
\<close>

section \<open>The object\<close>

record PRM = Algorithm +
  maxPoints_m :: "64 word"
  maxDist_m :: double

text \<open>
  The constructor leaves \<open>maxPoints_\<close>, \<open>maxDist_\<close> and, unlike \<open>RRT\<close>'s, the two flags
  \<open>ignoreCollisionAtStart_\<close> and \<open>ignoreCollisionAtGoal_\<close> unset.
\<close>

definition PRM_new :: "'w mach \<Rightarrow> bool \<Rightarrow> bool \<Rightarrow> 64 word \<Rightarrow> double \<Rightarrow> PRM \<times> 'w mach" where
  "PRM_new m u1 u2 n d =
     (let (al, m1) = Algorithm_new m u1 u2;
          al2 = setProperty (setProperty al ''max-dist'' ''1.0'') ''max-points'' ''100''
      in (Algorithm.extend al2 (PRM.fields n d), m1))"

section \<open>Building the roadmap\<close>

text \<open>One draw of the first loop: the configuration is registered unless it collides.\<close>

definition create_point :: "'w mach \<Rightarrow> nat \<Rightarrow> (bool \<times> 'w mach) option" where
  "create_point m r =
     do { (pos, k) \<leftarrow> cs_random (cspace_m (planner m)) (rsource m) (rand_calls m);
          (hit, pl) \<leftarrow> checkCollision_cfg (planner m) pos;
          let m1 = m\<lparr>planner := pl, rand_calls := k\<rparr>
          in if hit then Some (False, m1)
             else (case RoadmapNode_new m1 pos of (nd, m2) \<Rightarrow>
                     do { m3 \<leftarrow> addNode m2 r nd; Some (True, m3) }) }"

text \<open>
  The first loop, with \<open>num\<close> points registered so far; it need not end when no free
  configuration is found. The flag \<open>isRunning_\<close> is read before every draw.
\<close>

partial_function (option) create_loop :: "'w mach \<Rightarrow> PRM \<Rightarrow> nat \<Rightarrow> (bool \<times> 'w mach \<times> PRM) option" where
  "create_loop m p num =
     (if num < unat (maxPoints_m p) then
        (case poll m p of
           (running, m1, p1) \<Rightarrow>
             if \<not> running then Some (False, m1, p1)
             else do { (added, m2) \<leftarrow> create_point m1 (roadmap_m p1);
                       create_loop m2 p1 (if added then num + 1 else num) })
      else Some (True, m, p))"

declare create_loop.simps [code]

text \<open>The second loop: every pair \<open>i < j\<close> of close nodes is tried in both directions.\<close>

definition connect_close :: "'w mach \<Rightarrow> Mobility \<Rightarrow> nat \<Rightarrow> double \<Rightarrow> nat \<Rightarrow> nat \<Rightarrow> Configuration \<Rightarrow> Configuration \<Rightarrow> 'w mach option" where
  "connect_close m mob r maxDist a b pa pb =
     do { d \<leftarrow> distance mob (cspace_m (planner m)) pa pb;
          if dlt d maxDist then tryConnection m r a b True else Some m }"

fun connect_row :: "'w mach \<Rightarrow> Mobility \<Rightarrow> nat \<Rightarrow> double \<Rightarrow> nat \<Rightarrow> nat list \<Rightarrow> 'w mach option" where
  "connect_row m mob r maxDist a [] = Some m"
| "connect_row m mob r maxDist a (j # js) =
     do { nd \<leftarrow> Roadmap_node m r j; b \<leftarrow> nd;
          pa \<leftarrow> node_position (nheap m) a; pb \<leftarrow> node_position (nheap m) b;
          m' \<leftarrow> connect_close m mob r maxDist a b pa pb;
          connect_row m' mob r maxDist a js }"

fun connect_rows :: "'w mach \<Rightarrow> PRM \<Rightarrow> Mobility \<Rightarrow> nat \<Rightarrow> nat list \<Rightarrow> (bool \<times> 'w mach \<times> PRM) option" where
  "connect_rows m p mob n [] = Some (True, m, p)"
| "connect_rows m p mob n (i # is) =
     (case poll m p of
        (running, m1, p1) \<Rightarrow>
          if \<not> running then Some (False, m1, p1)
          else do { nd \<leftarrow> Roadmap_node m1 (roadmap_m p1) i; a \<leftarrow> nd;
                    m2 \<leftarrow> connect_row m1 mob (roadmap_m p1) (maxDist_m p1) a [i + 1..<n];
                    connect_rows m2 p1 mob n is })"

definition buildRoadmap :: "'w mach \<Rightarrow> PRM \<Rightarrow> (bool \<times> 'w mach \<times> PRM) option" where
  "buildRoadmap m p =
     do { (ok, m1, p1) \<leftarrow> create_loop m p 0;
          if \<not> ok then Some (False, m1, p1)
          else do { mob \<leftarrow> mobility_m (planner m1);
                    n \<leftarrow> nNodes m1 (roadmap_m p1);
                    connect_rows m1 p1 mob n [0..<n] } }"

section \<open>Planning\<close>

text \<open>The two ends are connected to every close node, themselves included.\<close>

fun connect_ends :: "'w mach \<Rightarrow> PRM \<Rightarrow> Mobility \<Rightarrow> nat \<Rightarrow> nat \<Rightarrow> nat list \<Rightarrow> 'w mach option" where
  "connect_ends m p mob s g [] = Some m"
| "connect_ends m p mob s g (i # is) =
     do { nd \<leftarrow> Roadmap_node m (roadmap_m p) i; q \<leftarrow> nd;
          pos \<leftarrow> node_position (nheap m) q;
          m1 \<leftarrow> connect_close m mob (roadmap_m p) (maxDist_m p) s q (start_m p) pos;
          m2 \<leftarrow> connect_close m1 mob (roadmap_m p) (maxDist_m p) g q (goal_m p) pos;
          connect_ends m2 p mob s g is }"

fun positions :: "node_heap \<Rightarrow> nat list \<Rightarrow> Configuration list option" where
  "positions h [] = Some []"
| "positions h (q # qs) = do { c \<leftarrow> node_position h q; cs \<leftarrow> positions h qs; Some (c # cs) }"

text \<open>Start and goal become nodes of the roadmap and are connected.\<close>

definition add_ends :: "'w mach \<Rightarrow> PRM \<Rightarrow> (nat \<times> nat \<times> 'w mach) option" where
  "add_ends m p =
     (case RoadmapNode_new m (start_m p) of (s, m1) \<Rightarrow>
      (case RoadmapNode_new m1 (goal_m p) of (g, m2) \<Rightarrow>
         do { m3 \<leftarrow> addNode m2 (roadmap_m p) s;
              m4 \<leftarrow> addNode m3 (roadmap_m p) g;
              Some (s, g, m4) }))"

definition PRM_search :: "'w mach \<Rightarrow> PRM \<Rightarrow> (bool \<times> 'w mach \<times> PRM) option" where
  "PRM_search m p =
     do { mob \<leftarrow> mobility_m (planner m);
          (s, g, m1) \<leftarrow> add_ends m p;
          n \<leftarrow> nNodes m1 (roadmap_m p);
          m2 \<leftarrow> connect_ends m1 p mob s g [0..<n];
          (nodePath, m3) \<leftarrow> DFS m2 (roadmap_m p) s g;
          cs \<leftarrow> positions (nheap m3) nodePath;
          let path = path_m p @ cs
          in Some (path \<noteq> [], m3, p\<lparr>path_m := path\<rparr>) }"

definition PRM_calcPath :: "'w mach \<Rightarrow> PRM \<Rightarrow> (bool \<times> 'w mach \<times> PRM) option" where
  "PRM_calcPath m p =
     (let (dv, p1) = prop_index p ''max-dist'';
          (nv, p2) = prop_index p1 ''max-points''
      in do {
        pts \<leftarrow> c_atoi nv;
        let p3 = p2\<lparr>maxDist_m := c_atof dv, maxPoints_m := word_of_int pts\<rparr>
        in do {
          n0 \<leftarrow> nNodes m (roadmap_m p3);
          (_, m1, p4) \<leftarrow> (if n0 = 0 then buildRoadmap m p3 else Some (True, m, p3));
          PRM_search m1 p4 } })"

section \<open>The roadmap's invariant\<close>

text \<open>
  What a path along the roadmap is checked for: \<open>PRM\<close> takes a reversible mobility at its word,
  so a segment is free in its own direction or, when the mobility is reversible, in the other.
\<close>

definition checked :: "(Configuration \<Rightarrow> bool) \<Rightarrow> 'w planner \<Rightarrow> Mobility \<Rightarrow> Configuration \<Rightarrow> Configuration \<Rightarrow> bool" where
  "checked free pl mob a b \<longleftrightarrow>
     seg_free free pl mob a b \<or> isReversible mob \<and> seg_free free pl mob b a"

lemma checkedI: "seg_free free pl mob a b \<Longrightarrow> checked free pl mob a b"
  by (simp add: checked_def)

lemma checked_same: "same_setup pl pl' \<Longrightarrow> checked free pl' mob = checked free pl mob"
  by (intro ext) (simp add: checked_def seg_free_same)

text \<open>
  Every node is free or at one of the two ends, and every edge stays in the roadmap and is
  checked.
\<close>

definition vertex_ok :: "(Configuration \<Rightarrow> bool) \<Rightarrow> (Configuration \<Rightarrow> Configuration \<Rightarrow> bool) \<Rightarrow> Configuration set \<Rightarrow> node_heap \<Rightarrow> nat set \<Rightarrow> nat \<Rightarrow> bool" where
  "vertex_ok free good S h ns p \<longleftrightarrow>
     (\<exists>pos. node_position h p = Some pos \<and> (free pos \<or> pos \<in> S) \<and>
        (\<forall>c \<in> set (children_at h p). c \<in> ns \<and> (\<exists>pc. node_position h c = Some pc \<and> good pos pc)))"

definition prm_inv :: "(Configuration \<Rightarrow> bool) \<Rightarrow> 'w planner \<Rightarrow> Mobility \<Rightarrow> Configuration set \<Rightarrow> 'w mach \<Rightarrow> nat \<Rightarrow> nat list \<Rightarrow> bool" where
  "prm_inv free pl0 mob S m r ns \<longleftrightarrow>
     answers free pl0 (planner m) \<and> heap_fresh m \<and> map_option nodes_m (rheap m r) = Some ns \<and>
     (\<forall>p \<in> set ns. vertex_ok free (checked free pl0 mob) S (nheap m) (set ns) p)"

lemma vertex_ok_grow:
  assumes "vertex_ok free good S h ns p" and "ns \<subseteq> ns'"
    and "\<And>q. q \<in> ns \<Longrightarrow> node_position h' q = node_position h q" and "p \<in> ns"
    and "\<And>c pos pc. c \<in> set (children_at h' p) - set (children_at h p) \<Longrightarrow> node_position h p = Some pos \<Longrightarrow>
           c \<in> ns' \<and> (\<exists>pc. node_position h' c = Some pc \<and> good pos pc)"
  shows "vertex_ok free good S h' ns' p"
proof -
  obtain pos where pos: "node_position h p = Some pos" "free pos \<or> pos \<in> S"
      "\<forall>c \<in> set (children_at h p). c \<in> ns \<and> (\<exists>pc. node_position h c = Some pc \<and> good pos pc)"
    using assms(1) by (auto simp: vertex_ok_def)
  have "c \<in> ns' \<and> (\<exists>pc. node_position h' c = Some pc \<and> good pos pc)" if "c \<in> set (children_at h' p)" for c
  proof (cases "c \<in> set (children_at h p)")
    case True
    then show ?thesis using pos(3) assms(2,3) by auto
  next
    case False
    then show ?thesis using assms(5) that pos(1) by blast
  qed
  then show ?thesis using pos(1,2) assms(3,4) by (auto simp: vertex_ok_def)
qed

lemma prm_inv_planner: "prm_inv free pl0 mob S m r ns \<Longrightarrow> answers free pl0 pl \<Longrightarrow>
    prm_inv free pl0 mob S (m\<lparr>planner := pl\<rparr>) r ns"
  by (simp add: prm_inv_def heap_fresh_def)

lemma prm_inv_machine:
  "prm_inv free pl0 mob S (m\<lparr>polls := k\<rparr>) r ns = prm_inv free pl0 mob S m r ns"
  "prm_inv free pl0 mob S (m\<lparr>rand_calls := k\<rparr>) r ns = prm_inv free pl0 mob S m r ns"
  by (simp_all add: prm_inv_def heap_fresh_def)

lemma prm_inv_node:
  assumes inv: "prm_inv free pl0 mob S m r ns" and new: "RoadmapNode_new m pos = (q, m1)"
    and add: "addNode m1 r q = Some m'" and ok: "free pos \<or> pos \<in> S"
  shows "prm_inv free pl0 mob S m' r (ns @ [q]) \<and> node_position (nheap m') q = Some pos \<and>
    (\<forall>p. node_position (nheap m) p \<noteq> None \<longrightarrow> node_position (nheap m') p = node_position (nheap m) p)"
proof -
  have q: "q = next_node m" and fresh: "\<forall>p \<ge> q. nheap m p = None"
    using new inv by (auto simp: RoadmapNode_new_def Let_def prm_inv_def heap_fresh_def)
  let ?n = "\<lparr>parents_m = [], children_m = [], pos_m = pos, visited_m = uninit m q\<rparr>"
  have heap: "nheap m' = (nheap m)(q \<mapsto> ?n)" and nxt: "next_node m' = q + 1" and pl: "planner m' = planner m"
      and nodes: "map_option nodes_m (rheap m' r) = Some (ns @ [q])"
    using new add inv by (auto simp: RoadmapNode_new_def Let_def addNode_def bind_Some_iff prm_inv_def)
  have old: "node_position (nheap m') p = node_position (nheap m) p" if "node_position (nheap m) p \<noteq> None" for p
    using that fresh by (auto simp: node_position_def heap)
  have pos: "node_position (nheap m') q = Some pos" by (simp add: node_position_def heap)
  have "vertex_ok free (checked free pl0 mob) S (nheap m') (set (ns @ [q])) p" if "p \<in> set (ns @ [q])" for p
  proof (cases "p = q")
    case True
    then show ?thesis using ok pos by (auto simp: vertex_ok_def children_at_def heap)
  next
    case False
    then have p: "p \<in> set ns" using that by simp
    have dom: "node_position (nheap m) x \<noteq> None" if "x \<in> set ns" for x
      using inv that by (auto simp: prm_inv_def vertex_ok_def)
    show ?thesis
    proof (rule vertex_ok_grow)
      show "vertex_ok free (checked free pl0 mob) S (nheap m) (set ns) p" using inv p by (simp add: prm_inv_def)
    qed (use False p old dom in \<open>auto simp: children_at_def heap\<close>)
  qed
  moreover have "heap_fresh m'" using fresh by (auto simp: heap_fresh_def heap nxt)
  ultimately show ?thesis using inv nodes pl pos old by (auto simp: prm_inv_def)
qed

text \<open>What an edge leaves alone.\<close>

definition same_places :: "node_heap \<Rightarrow> node_heap \<Rightarrow> bool" where
  "same_places h h' \<longleftrightarrow> (\<forall>p. node_position h' p = node_position h p)"

lemma same_places_refl: "same_places h h" by (simp add: same_places_def)

lemma same_places_trans: "same_places h1 h2 \<Longrightarrow> same_places h2 h3 \<Longrightarrow> same_places h1 h3"
  by (simp add: same_places_def)

lemma addEdge_places: "addEdge m r a b = Some m' \<Longrightarrow> same_places (nheap m) (nheap m')"
  by (auto simp: addEdge_def addChild_def addParent_def bind_Some_iff same_places_def node_position_def)

lemma addEdge_frame:
  assumes "addEdge m r a b = Some m'"
  shows "planner m' = planner m" "next_node m' = next_node m" "dom (nheap m') = dom (nheap m)"
    "map_option nodes_m (rheap m' r) = map_option nodes_m (rheap m r)"
  using assms by (auto simp: addEdge_def addChild_def addParent_def bind_Some_iff split: if_splits)

lemma prm_inv_edge:
  assumes inv: "prm_inv free pl0 mob S m r ns" and run: "addEdge m r a b = Some m'"
    and ab: "a \<in> set ns" "b \<in> set ns" and pos: "node_position (nheap m) a = Some pa" "node_position (nheap m) b = Some pb"
    and good: "checked free pl0 mob pa pb"
  shows "prm_inv free pl0 mob S m' r ns"
proof -
  have places: "node_position (nheap m') p = node_position (nheap m) p" for p
    using addEdge_places [OF run] by (simp add: same_places_def)
  have "vertex_ok free (checked free pl0 mob) S (nheap m') (set ns) p" if "p \<in> set ns" for p
  proof (rule vertex_ok_grow)
    show "vertex_ok free (checked free pl0 mob) S (nheap m) (set ns) p" using inv that by (simp add: prm_inv_def)
  qed (use that places ab pos good in \<open>auto simp: addEdge_SomeD(1) [OF run] split: if_splits\<close>)
  moreover have "heap_fresh m'"
    using inv addEdge_frame(2,3) [OF run] unfolding prm_inv_def heap_fresh_def by (metis domIff)
  ultimately show ?thesis
    using inv addEdge_frame(1,4) [OF run] by (simp add: prm_inv_def)
qed

lemma prm_mobility: "prm_inv free pl0 mob S m r ns \<Longrightarrow> mobility_m pl0 = Some mob \<Longrightarrow> mobility_m (planner m) = Some mob"
  using same_setup_fields(1) [of pl0 "planner m"] by (simp add: prm_inv_def answers_def)

lemma mach_isReachable_SomeD:
  assumes inv: "prm_inv free pl0 mob S m r ns" and run: "mach_isReachable m mob a b = Some (ok, m')"
  shows "prm_inv free pl0 mob S m' r ns \<and> nheap m' = nheap m \<and>
    (\<exists>pa pb. node_position (nheap m) a = Some pa \<and> node_position (nheap m) b = Some pb \<and>
       (ok \<longrightarrow> seg_free free pl0 mob pa pb))"
proof -
  obtain pa pb pl where pos: "node_position (nheap m) a = Some pa" "node_position (nheap m) b = Some pb"
      and reach: "reach_planner mob (planner m) pa pb = Some (ok, pl)" and m': "m' = m\<lparr>planner := pl\<rparr>"
    using run by (auto simp: mach_isReachable_def reach_planner_def bind_Some_iff)
  have "answers free pl0 (planner m)" using inv by (simp add: prm_inv_def)
  then have "ok = seg_free free pl0 mob pa pb" "answers free pl0 pl"
    using planner_segments.reach_SomeD reach by blast+
  then show ?thesis using prm_inv_planner [OF inv] pos m' by simp
qed

lemma connect_forward_spec:
  assumes inv: "prm_inv free pl0 mob S m r ns" and ab: "a \<in> set ns" "b \<in> set ns"
    and rv: "t \<Longrightarrow> isReversible mob"
    and run: "connect_forward m mob r a b t = Some m'"
  shows "prm_inv free pl0 mob S m' r ns \<and> same_places (nheap m) (nheap m')"
proof -
  obtain ok m1 where reach: "mach_isReachable m mob a b = Some (ok, m1)"
      and rest: "(if ok then do { m2 \<leftarrow> addEdge m1 r a b; if t then addEdge m2 r b a else Some m2 } else Some m1) = Some m'"
    using run by (auto simp: connect_forward_def bind_Some_iff)
  obtain pa pb where pos: "node_position (nheap m1) a = Some pa" "node_position (nheap m1) b = Some pb"
      and ok: "ok \<longrightarrow> seg_free free pl0 mob pa pb" and inv1: "prm_inv free pl0 mob S m1 r ns" and h1: "nheap m1 = nheap m"
    using mach_isReachable_SomeD [OF inv reach] by auto
  show ?thesis
  proof (cases ok)
    case False
    then show ?thesis using rest inv1 h1 by (simp add: same_places_refl)
  next
    case True
    then have good: "seg_free free pl0 mob pa pb" using ok by blast
    obtain m2 where m2: "addEdge m1 r a b = Some m2" and rest2: "(if t then addEdge m2 r b a else Some m2) = Some m'"
      using rest True by (auto simp: bind_Some_iff)
    have inv2: "prm_inv free pl0 mob S m2 r ns" by (rule prm_inv_edge [OF inv1 m2 ab pos checkedI [OF good]])
    have places2: "same_places (nheap m) (nheap m2)" using addEdge_places [OF m2] h1 by simp
    show ?thesis
    proof (cases t)
      case False
      then show ?thesis using rest2 inv2 places2 by simp
    next
      case True
      then have e: "addEdge m2 r b a = Some m'" and good2: "checked free pl0 mob pb pa"
        using rest2 rv good by (auto simp: checked_def)
      have "node_position (nheap m2) b = Some pb" "node_position (nheap m2) a = Some pa"
        using pos addEdge_places [OF m2] by (simp_all add: same_places_def)
      then have "prm_inv free pl0 mob S m' r ns" by (rule prm_inv_edge [OF inv2 e ab(2,1) _ _ good2])
      then show ?thesis using places2 addEdge_places [OF e] same_places_trans by blast
    qed
  qed
qed

lemma tryConnection_spec:
  assumes inv: "prm_inv free pl0 mob S m r ns" and mob: "mobility_m pl0 = Some mob"
    and ab: "a \<in> set ns" "b \<in> set ns"
    and run: "tryConnection m r a b t = Some m'"
  shows "prm_inv free pl0 mob S m' r ns \<and> same_places (nheap m) (nheap m')"
proof -
  obtain m1 where fwd: "connect_forward m mob r a b (t \<and> isReversible mob) = Some m1"
      and rest: "(if t \<and> \<not> isReversible mob then connect_forward m1 mob r b a False else Some m1) = Some m'"
    using run prm_mobility [OF inv mob] by (auto simp: tryConnection_def bind_Some_iff)
  have one: "prm_inv free pl0 mob S m1 r ns \<and> same_places (nheap m) (nheap m1)"
    using connect_forward_spec [OF inv ab _ fwd] by blast
  show ?thesis
  proof (cases "t \<and> \<not> isReversible mob")
    case False
    then show ?thesis using rest one unfolding if_not_P [OF False] by simp
  next
    case True
    then have "connect_forward m1 mob r b a False = Some m'" using rest by simp
    then show ?thesis
      using connect_forward_spec [of free pl0 mob S m1 r ns b a False m'] one ab same_places_trans by blast
  qed
qed

lemma connect_close_spec:
  assumes "prm_inv free pl0 mob S m r ns" and "mobility_m pl0 = Some mob"
    and "a \<in> set ns" and "b \<in> set ns" and "connect_close m mob r d a b pa pb = Some m'"
  shows "prm_inv free pl0 mob S m' r ns \<and> same_places (nheap m) (nheap m')"
  using assms tryConnection_spec [OF assms(1-4)]
  by (auto simp: connect_close_def bind_Some_iff same_places_refl split: if_splits)

lemma Roadmap_node_mem:
  assumes "prm_inv free pl0 mob S m r ns" and "Roadmap_node m r i = Some (Some q)"
  shows "q \<in> set ns"
  using assms by (auto simp: prm_inv_def Roadmap_node_def bind_Some_iff split: if_splits)

lemma connect_row_spec:
  assumes "mobility_m pl0 = Some mob"
  shows "prm_inv free pl0 mob S m r ns \<Longrightarrow> a \<in> set ns \<Longrightarrow> connect_row m mob r d a js = Some m' \<Longrightarrow>
    prm_inv free pl0 mob S m' r ns"
proof (induction js arbitrary: m)
  case (Cons j js)
  obtain b pa pb m1 where b: "Roadmap_node m r j = Some (Some b)"
      and c: "connect_close m mob r d a b pa pb = Some m1" and rest: "connect_row m1 mob r d a js = Some m'"
    using Cons.prems(3) by (auto simp: bind_Some_iff)
  have "prm_inv free pl0 mob S m1 r ns"
    using connect_close_spec [OF Cons.prems(1) assms Cons.prems(2) Roadmap_node_mem [OF Cons.prems(1) b] c] by blast
  then show ?case using Cons.IH Cons.prems(2) rest by blast
qed simp

text \<open>The object changes in the running flag only while the roadmap is built.\<close>

definition same_plan :: "PRM \<Rightarrow> PRM \<Rightarrow> bool" where
  "same_plan p p' \<longleftrightarrow> p' = p\<lparr>isRunning_m := isRunning_m p'\<rparr>"

lemma same_plan_refl: "same_plan p p" by (simp add: same_plan_def)

lemma same_plan_trans: "same_plan p q \<Longrightarrow> same_plan q r \<Longrightarrow> same_plan p r"
  by (cases p; cases q; cases r) (simp add: same_plan_def)

lemma same_plan_fields:
  assumes "same_plan p p'"
  shows "start_m p' = start_m p" "goal_m p' = goal_m p" "roadmap_m p' = roadmap_m p" "path_m p' = path_m p"
    "maxDist_m p' = maxDist_m p" "maxPoints_m p' = maxPoints_m p"
  using assms by (cases p; cases p'; simp add: same_plan_def)+

lemma poll_spec:
  assumes "poll m p = (b, m', p')"
  shows "same_plan p p'" and "prm_inv free pl0 mob S m' r ns = prm_inv free pl0 mob S m r ns"
  using assms by (auto simp: poll_def Let_def same_plan_def prm_inv_machine)

lemma connect_rows_spec:
  assumes "mobility_m pl0 = Some mob"
  shows "prm_inv free pl0 mob S m (roadmap_m p) ns \<Longrightarrow> connect_rows m p mob n is = Some (ok, m', p') \<Longrightarrow>
    prm_inv free pl0 mob S m' (roadmap_m p) ns \<and> same_plan p p'"
proof (induction "is" arbitrary: m p)
  case (Cons i "is")
  obtain running m1 p1 where pl: "poll m p = (running, m1, p1)" by (metis prod_cases3)
  have inv1: "prm_inv free pl0 mob S m1 (roadmap_m p1) ns" and sp: "same_plan p p1"
    using poll_spec [OF pl] Cons.prems(1) same_plan_fields(3) by metis+
  show ?case
  proof (cases running)
    case False
    then show ?thesis using Cons.prems(2) inv1 sp same_plan_fields(3) [OF sp] by (simp add: pl)
  next
    case True
    then obtain a m2 where a: "Roadmap_node m1 (roadmap_m p1) i = Some (Some a)"
        and row: "connect_row m1 mob (roadmap_m p1) (maxDist_m p1) a [i + 1..<n] = Some m2"
        and rest: "connect_rows m2 p1 mob n is = Some (ok, m', p')"
      using Cons.prems(2) by (auto simp: pl bind_Some_iff)
    have "prm_inv free pl0 mob S m2 (roadmap_m p1) ns"
      using connect_row_spec [OF assms inv1 Roadmap_node_mem [OF inv1 a] row] .
    then show ?thesis using Cons.IH rest sp same_plan_trans same_plan_fields(3) [OF sp] by metis
  qed
qed (simp add: same_plan_refl)

lemma create_point_spec:
  assumes inv: "prm_inv free pl0 mob S m r ns" and run: "create_point m r = Some (added, m')"
  shows "\<exists>ns'. prm_inv free pl0 mob S m' r ns'"
proof -
  obtain pos k hit pl where chk: "checkCollision_cfg (planner m) pos = Some (hit, pl)"
      and rest: "(if hit then Some (False, m\<lparr>planner := pl, rand_calls := k\<rparr>)
        else (case RoadmapNode_new (m\<lparr>planner := pl, rand_calls := k\<rparr>) pos of (nd, m2) \<Rightarrow>
                do { m3 \<leftarrow> addNode m2 r nd; Some (True, m3) })) = Some (added, m')"
    using run by (auto simp: create_point_def bind_Some_iff Let_def)
  have "answers free pl0 (planner m)" using inv by (simp add: prm_inv_def)
  then have hit: "hit = (\<not> free pos)" and ans: "answers free pl0 pl"
    using planner_oracle.check [of free "planner m" pos] chk same_setup_trans unfolding answers_def by auto
  let ?m1 = "m\<lparr>planner := pl, rand_calls := k\<rparr>"
  have inv1: "prm_inv free pl0 mob S ?m1 r ns"
    using inv ans by (simp add: prm_inv_def heap_fresh_def)
  show ?thesis
  proof (cases hit)
    case True
    then show ?thesis using rest inv1 by auto
  next
    case False
    obtain nd m2 where new: "RoadmapNode_new ?m1 pos = (nd, m2)" by fastforce
    then have "addNode m2 r nd = Some m'" using rest False by (auto simp: bind_Some_iff)
    then show ?thesis using prm_inv_node [OF inv1 new] hit False by blast
  qed
qed

lemma create_loop_spec:
  assumes run: "create_loop m p num = Some (ok, m', p')" and inv: "prm_inv free pl0 mob S m (roadmap_m p) ns"
  shows "(\<exists>ns'. prm_inv free pl0 mob S m' (roadmap_m p) ns') \<and> same_plan p p'"
proof -
  let ?Q = "\<lambda>p m' p'. (\<exists>ns'. prm_inv free pl0 mob S m' (roadmap_m p) ns') \<and> same_plan p p'"
  let ?P = "\<lambda>m p num (ok, m', p'). (\<exists>ns. prm_inv free pl0 mob S m (roadmap_m p) ns) \<longrightarrow> ?Q p m' p'"
  have "?P m p num (ok, m', p')"
  proof (rule create_loop.raw_induct [where P = ?P, OF _ run])
    fix loop :: "'a mach \<Rightarrow> PRM \<Rightarrow> nat \<Rightarrow> (bool \<times> 'a mach \<times> PRM) option"
    fix m p num x
    assume IH: "\<And>m p num x. loop m p num = Some x \<Longrightarrow> ?P m p num x"
      and step: "(if num < unat (maxPoints_m p) then
        (case poll m p of
           (running, m1, p1) \<Rightarrow>
             if \<not> running then Some (False, m1, p1)
             else do { (added, m2) \<leftarrow> create_point m1 (roadmap_m p1);
                       loop m2 p1 (if added then num + 1 else num) })
        else Some (True, m, p)) = Some x"
    show "?P m p num x"
    proof (cases x, clarify)
      fix ok m' p' ns
      assume x: "x = (ok, m', p')" and inv: "prm_inv free pl0 mob S m (roadmap_m p) ns"
      show "?Q p m' p'"
      proof (cases "num < unat (maxPoints_m p)")
        case False
        then show ?thesis using step x inv same_plan_refl by auto
      next
        case True
        obtain running m1 p1 where pl: "poll m p = (running, m1, p1)" by (metis prod_cases3)
        have rm: "roadmap_m p1 = roadmap_m p" and sp: "same_plan p p1"
            and inv1: "prm_inv free pl0 mob S m1 (roadmap_m p1) ns"
          using poll_spec [OF pl] inv same_plan_fields(3) by metis+
        show ?thesis
        proof (cases running)
          case False
          then show ?thesis using step True x pl inv1 sp rm by auto
        next
          case run: True
          obtain added m2 where point: "create_point m1 (roadmap_m p1) = Some (added, m2)"
              and rest: "loop m2 p1 (if added then num + 1 else num) = Some (ok, m', p')"
            using step True run x by (auto simp: pl bind_Some_iff)
          show ?thesis
            using IH [OF rest] create_point_spec [OF inv1 point] rm sp same_plan_trans by auto
        qed
      qed
    qed
  qed
  then show ?thesis using inv by blast
qed

lemma buildRoadmap_spec:
  assumes "mobility_m pl0 = Some mob"
    and run: "buildRoadmap m p = Some (ok, m', p')" and inv: "prm_inv free pl0 mob S m (roadmap_m p) ns"
  shows "(\<exists>ns'. prm_inv free pl0 mob S m' (roadmap_m p) ns') \<and> same_plan p p'"
proof -
  obtain ok1 m1 p1 where loop: "create_loop m p 0 = Some (ok1, m1, p1)"
      and rest: "(if \<not> ok1 then Some (False, m1, p1)
          else do { mob \<leftarrow> mobility_m (planner m1); n \<leftarrow> nNodes m1 (roadmap_m p1);
                    connect_rows m1 p1 mob n [0..<n] }) = Some (ok, m', p')"
    using run by (auto simp: buildRoadmap_def bind_Some_iff)
  obtain ns1 where inv1: "prm_inv free pl0 mob S m1 (roadmap_m p1) ns1" and sp: "same_plan p p1"
    using create_loop_spec [OF loop inv] same_plan_fields(3) by metis
  show ?thesis
  proof (cases ok1)
    case False
    then show ?thesis using rest inv1 sp same_plan_fields(3) [OF sp] by auto
  next
    case True
    then obtain n where "connect_rows m1 p1 mob n [0..<n] = Some (ok, m', p')"
      using rest prm_mobility [OF inv1 assms(1)] by (auto simp: bind_Some_iff)
    then show ?thesis
      using connect_rows_spec [OF assms(1) inv1] sp same_plan_trans same_plan_fields(3) [OF sp] by metis
  qed
qed

section \<open>The search\<close>

lemma connect_ends_spec:
  assumes "mobility_m pl0 = Some mob" and "s \<in> set ns" and "g \<in> set ns"
  shows "prm_inv free pl0 mob S m (roadmap_m p) ns \<Longrightarrow> connect_ends m p mob s g is = Some m' \<Longrightarrow>
    prm_inv free pl0 mob S m' (roadmap_m p) ns \<and> same_places (nheap m) (nheap m')"
proof (induction "is" arbitrary: m)
  case (Cons i "is")
  obtain q pos m1 m2 where q: "Roadmap_node m (roadmap_m p) i = Some (Some q)"
      and c1: "connect_close m mob (roadmap_m p) (maxDist_m p) s q (start_m p) pos = Some m1"
      and c2: "connect_close m1 mob (roadmap_m p) (maxDist_m p) g q (goal_m p) pos = Some m2"
      and rest: "connect_ends m2 p mob s g is = Some m'"
    using Cons.prems(2) by (auto simp: bind_Some_iff)
  have q: "q \<in> set ns" using Roadmap_node_mem [OF Cons.prems(1) q] .
  have one: "prm_inv free pl0 mob S m1 (roadmap_m p) ns" "same_places (nheap m) (nheap m1)"
    using connect_close_spec [OF Cons.prems(1) assms(1,2) q c1] by blast+
  have two: "prm_inv free pl0 mob S m2 (roadmap_m p) ns" "same_places (nheap m1) (nheap m2)"
    using connect_close_spec [OF one(1) assms(1,3) q c2] by blast+
  show ?case using Cons.IH [OF two(1) rest] one(2) two(2) same_places_trans by blast
qed (simp add: same_places_refl)

lemma add_ends_spec:
  assumes inv: "prm_inv free pl0 mob S m (roadmap_m p) ns" and ends: "start_m p \<in> S" "goal_m p \<in> S"
    and run: "add_ends m p = Some (s, g, m')"
  shows "\<exists>ns'. prm_inv free pl0 mob S m' (roadmap_m p) ns' \<and> s \<in> set ns' \<and> g \<in> set ns' \<and>
    node_position (nheap m') s = Some (start_m p) \<and> node_position (nheap m') g = Some (goal_m p)"
proof -
  obtain m1 m2 m3 where s: "RoadmapNode_new m (start_m p) = (s, m1)" and g: "RoadmapNode_new m1 (goal_m p) = (g, m2)"
      and a1: "addNode m2 (roadmap_m p) s = Some m3" and a2: "addNode m3 (roadmap_m p) g = Some m'"
    using run by (auto simp: add_ends_def bind_Some_iff split: prod.splits)
  text \<open>Registering the first node and making the second one commute.\<close>
  obtain n1 where n1: "addNode m1 (roadmap_m p) s = Some n1" and g': "RoadmapNode_new n1 (goal_m p) = (g, m3)"
    using g a1 by (auto simp: RoadmapNode_new_def Let_def addNode_def bind_Some_iff)
  have one: "prm_inv free pl0 mob S n1 (roadmap_m p) (ns @ [s])" "node_position (nheap n1) s = Some (start_m p)"
    using prm_inv_node [OF inv s n1] ends by blast+
  then show ?thesis
    using prm_inv_node [OF one(1) g' a2] ends by (intro exI [of _ "(ns @ [s]) @ [g]"]) auto
qed

lemma prm_inv_search:
  assumes inv: "prm_inv free pl0 mob S m r ns" and s: "s \<in> set ns"
  shows "search_ok m r s" and "reached (nheap m) s \<subseteq> set ns"
proof -
  have step: "c \<in> set ns" if "p \<in> set ns" "child_of (nheap m) p c" for p c
    using inv that by (auto simp: prm_inv_def vertex_ok_def child_of_def children_at_def)
  show sub: "reached (nheap m) s \<subseteq> set ns"
  proof
    fix q assume "q \<in> reached (nheap m) s"
    then have "(child_of (nheap m))\<^sup>*\<^sup>* s q" by (simp add: reached_def)
    then show "q \<in> set ns" by (induction rule: rtranclp_induct) (use s step in auto)
  qed
  have "set ns \<subseteq> dom (nheap m)"
    using inv by (auto simp: prm_inv_def vertex_ok_def node_position_def bind_Some_iff)
  then show "search_ok m r s" using inv sub by (auto simp: search_ok_def prm_inv_def)
qed

lemma positions_spec:
  "positions h qs = Some cs \<Longrightarrow> list_all2 (\<lambda>q c. node_position h q = Some c) qs cs"
  by (induction qs arbitrary: cs) (auto simp: bind_Some_iff)

lemma positions_successively:
  assumes "\<And>p q x y. R p q \<Longrightarrow> pos p = Some x \<Longrightarrow> pos q = Some y \<Longrightarrow> good x y"
  shows "list_all2 (\<lambda>q c. pos q = Some c) qs cs \<Longrightarrow> successively R qs \<Longrightarrow> successively good cs"
proof (induction qs arbitrary: cs rule: induct_list012)
  case (3 p q qs)
  then obtain x y zs where "cs = x # y # zs" by (auto simp: list_all2_Cons1)
  then show ?case using 3 assms by auto
qed (auto simp: list_all2_Cons1)

lemma node_position_strip: "strip h' = strip h \<Longrightarrow> node_position h' p = node_position h p"
proof -
  assume "strip h' = strip h"
  then have "map_option pos_m (strip h' p) = map_option pos_m (strip h p)" by simp
  then show ?thesis by (cases "h p"; cases "h' p") (auto simp: strip_def node_position_def)
qed

lemma successively_reaches:
  "successively R (x # xs) \<Longrightarrow> y \<in> set (x # xs) \<Longrightarrow> R\<^sup>*\<^sup>* x y"
proof (induction xs arbitrary: x)
  case (Cons z zs)
  then show ?case by (cases "y = x") (auto intro: converse_rtranclp_into_rtranclp)
qed simp

lemma roadmap_way:
  assumes inv: "prm_inv free pl0 mob S m r ns" and s: "s \<in> set ns"
    and walk: "path \<noteq> []" "hd path = s" "last path = g" "successively (child_of (nheap m)) path"
    and ends: "node_position (nheap m) s = Some a" "node_position (nheap m) g = Some b"
    and cs: "list_all2 (\<lambda>q c. node_position (nheap m) q = Some c) path cs"
  shows "way (checked free pl0 mob) a b cs \<and> (\<forall>c \<in> set cs. free c \<or> c \<in> S)"
proof -
  have mem: "set path \<subseteq> set ns"
    using successively_reaches [of "child_of (nheap m)" s "tl path"] walk prm_inv_search(2) [OF inv s]
    by (cases path) (auto simp: reached_def)
  have edge: "checked free pl0 mob x y" if "p \<in> set ns" "child_of (nheap m) p q"
      "node_position (nheap m) p = Some x" "node_position (nheap m) q = Some y" for p q x y
    using inv that by (fastforce simp: prm_inv_def vertex_ok_def child_of_def children_at_def)
  have "successively (\<lambda>p q. p \<in> set ns \<and> child_of (nheap m) p q) path"
    using walk(4) mem by (auto intro: successively_mono)
  then have "successively (checked free pl0 mob) cs"
    using positions_successively [of "\<lambda>p q. p \<in> set ns \<and> child_of (nheap m) p q" "node_position (nheap m)" _ path cs]
      edge cs by blast
  moreover have "cs \<noteq> []" using cs walk(1) by auto
  moreover have "hd cs = a" using cs walk(1,2) ends(1) by (cases path; cases cs) auto
  moreover have "last cs = b"
  proof -
    have len: "length path = length cs" using cs by (rule list_all2_lengthD)
    then have "node_position (nheap m) (path ! (length path - 1)) = Some (cs ! (length path - 1))"
      using list_all2_nthD [OF cs, of "length path - 1"] walk(1) by (cases path) auto
    then show ?thesis using walk(1,3) ends(2) len \<open>cs \<noteq> []\<close> by (simp add: last_conv_nth)
  qed
  moreover have "free c \<or> c \<in> S" if c: "c \<in> set cs" for c
  proof -
    obtain i where "i < length cs" "cs ! i = c" using c by (auto simp: in_set_conv_nth)
    then have "node_position (nheap m) (path ! i) = Some c" "path ! i \<in> set ns"
      using list_all2_nthD2 [OF cs, of i] list_all2_lengthD [OF cs] mem by (auto simp: nth_mem subsetD)
    then show ?thesis using inv by (auto simp: prm_inv_def vertex_ok_def)
  qed
  ultimately show ?thesis by (simp add: way_def)
qed

lemma PRM_search_spec:
  assumes mob: "mobility_m pl0 = Some mob"
    and inv: "prm_inv free pl0 mob S m (roadmap_m p) ns" and ends: "start_m p \<in> S" "goal_m p \<in> S"
    and path: "path_m p = []" and run: "PRM_search m p = Some (ok, m', p')"
  shows "answers free pl0 (planner m') \<and>
    (ok \<longrightarrow> way (checked free pl0 mob) (start_m p) (goal_m p) (path_m p') \<and> (\<forall>c \<in> set (path_m p'). free c \<or> c \<in> S))"
proof -
  obtain s g m1 n m2 nodePath cs where ad: "add_ends m p = Some (s, g, m1)"
      and con: "connect_ends m1 p mob s g [0..<n] = Some m2"
      and dfs: "DFS m2 (roadmap_m p) s g = Some (nodePath, m')"
      and cs: "positions (nheap m') nodePath = Some cs" and res: "ok = (cs \<noteq> [])" "p' = p\<lparr>path_m := cs\<rparr>"
    using run path prm_mobility [OF inv mob]
    by (clarsimp simp: PRM_search_def bind_Some_iff)
  obtain ns1 where one: "prm_inv free pl0 mob S m1 (roadmap_m p) ns1" "s \<in> set ns1" "g \<in> set ns1"
      "node_position (nheap m1) s = Some (start_m p)" "node_position (nheap m1) g = Some (goal_m p)"
    using add_ends_spec [OF inv ends ad] by blast
  have two: "prm_inv free pl0 mob S m2 (roadmap_m p) ns1" "same_places (nheap m1) (nheap m2)"
    using connect_ends_spec [OF mob one(2,3,1) con] by blast+
  have pos: "node_position (nheap m2) s = Some (start_m p)" "node_position (nheap m2) g = Some (goal_m p)"
    using one(4,5) two(2) by (simp_all add: same_places_def)
  obtain path h' where D: "DFS m2 (roadmap_m p) s g = Some (path, m2\<lparr>nheap := h'\<rparr>)" "strip h' = strip (nheap m2)"
      "path \<noteq> [] \<Longrightarrow> hd path = s \<and> last path = g \<and> successively (child_of (nheap m2)) path"
    using DFS_correct [OF prm_inv_search(1) [OF two(1) one(2)]] by metis
  have m': "nodePath = path" "m' = m2\<lparr>nheap := h'\<rparr>" using dfs D(1) by simp_all
  have all: "list_all2 (\<lambda>q c. node_position (nheap m2) q = Some c) path cs"
    using positions_spec [OF cs] unfolding m' by (simp add: node_position_strip [OF D(2)])
  have "answers free pl0 (planner m')" using two(1) by (simp add: m' prm_inv_def)
  moreover have "way (checked free pl0 mob) (start_m p) (goal_m p) cs \<and> (\<forall>c \<in> set cs. free c \<or> c \<in> S)" if ok
  proof -
    have "path \<noteq> []" using that res(1) all by auto
    then show ?thesis using roadmap_way [OF two(1) one(2) _ _ _ _ pos all] D(3) by blast
  qed
  ultimately show ?thesis by (simp add: res)
qed

text \<open>A new \<open>PRM\<close> object: its roadmap is empty.\<close>

definition prm_ready :: "'w mach \<Rightarrow> PRM \<Rightarrow> bool" where
  "prm_ready m p \<longleftrightarrow> heap_fresh m \<and> path_m p = [] \<and> map_option nodes_m (rheap m (roadmap_m p)) = Some []"

lemma PRM_new_ready:
  assumes "heap_fresh m" and "PRM_new m u1 u2 n d = (p, m')"
  shows "prm_ready m' p \<and> planner m' = planner m"
  using assms by (auto simp: PRM_new_def Algorithm_new_def Roadmap_new_def Let_def prm_ready_def heap_fresh_def
      setProperty_def Algorithm.defs PRM.defs)

lemma PRM_calcPath_way:
  assumes dec: "decides free (planner m)" and mob: "mobility_m (planner m) = Some mob"
    and ready: "prm_ready m p"
    and run: "PRM_calcPath m p = Some (ok, m', p')"
  shows "answers free (planner m) (planner m') \<and>
    (ok \<longrightarrow> way (checked free (planner m) mob) (start_m p) (goal_m p) (path_m p') \<and>
       (\<forall>c \<in> set (path_m p'). free c \<or> c = start_m p \<or> c = goal_m p))"
proof -
  let ?S = "{start_m p, goal_m p}"
  define q where "q = snd (prop_index (snd (prop_index p ''max-dist'')) ''max-points'')"
  have q: "start_m q = start_m p" "goal_m q = goal_m p" "roadmap_m q = roadmap_m p" "path_m q = path_m p"
    by (simp_all add: q_def prop_index_def smap_index_def split: option.split)
  obtain d n ok1 m1 p4 where rest: "PRM_search m1 p4 = Some (ok, m', p')"
      and build: "(if nNodes m (roadmap_m p) = Some 0 then buildRoadmap m (q\<lparr>maxDist_m := d, maxPoints_m := n\<rparr>)
        else Some (True, m, q\<lparr>maxDist_m := d, maxPoints_m := n\<rparr>)) = Some (ok1, m1, p4)"
    using run q(3) unfolding q_def by (auto simp: PRM_calcPath_def Let_def bind_Some_iff split_beta)
  let ?p3 = "q\<lparr>maxDist_m := d, maxPoints_m := n\<rparr>"
  have inv: "prm_inv free (planner m) mob ?S m (roadmap_m ?p3) []"
    using ready dec same_setup_refl by (simp add: prm_inv_def prm_ready_def answers_def q)
  have "nNodes m (roadmap_m p) = Some 0" using ready by (auto simp: prm_ready_def nNodes_def)
  then have "buildRoadmap m ?p3 = Some (ok1, m1, p4)" using build by simp
  then obtain ns where ns: "prm_inv free (planner m) mob ?S m1 (roadmap_m ?p3) ns" and sp: "same_plan ?p3 p4"
    using buildRoadmap_spec [OF mob _ inv] by blast
  have p4: "start_m p4 = start_m p" "goal_m p4 = goal_m p" "roadmap_m p4 = roadmap_m ?p3" "path_m p4 = []"
    using same_plan_fields [OF sp] ready by (simp_all add: q prm_ready_def)
  show ?thesis
    using PRM_search_spec [OF mob ns [folded p4(3)] _ _ p4(4) rest] by (simp add: p4)
qed

text \<open>When the way back is as free as the way there, a checked path is a free one.\<close>

definition reversible_ok :: "(Configuration \<Rightarrow> bool) \<Rightarrow> 'w planner \<Rightarrow> Mobility \<Rightarrow> bool" where
  "reversible_ok free pl0 mob \<longleftrightarrow>
     (isReversible mob \<longrightarrow> (\<forall>x y. seg_free free pl0 mob x y \<longrightarrow> seg_free free pl0 mob y x))"

lemma checked_reversible: "reversible_ok free pl mob \<Longrightarrow> checked free pl mob = seg_free free pl mob"
  by (intro ext) (auto simp: reversible_ok_def checked_def)

lemma reversible_ok_one_way: "\<not> isReversible mob \<Longrightarrow> reversible_ok free pl mob"
  by (simp add: reversible_ok_def)

text \<open>
  C3: when a new \<open>PRM\<close> object reports success, its path leads from the start to the goal, every
  waypoint but the two ends is free, and every segment was checked and found free: in its own
  direction, or in the other when the mobility calls itself reversible, for then \<open>PRM\<close> takes
  an edge both ways after one check. So with a mobility that is not reversible every segment
  is free in the direction of the path; with a reversible one that holds when the way back is
  free whenever the way there is, which \<open>OmniWheel_not_reversible\<close> shows of \<open>OmniWheel\<close> is not
  so. The detector's verdict has to depend on the configuration only (\<open>decides\<close>).
\<close>

theorem PRM_calcPath_sound:
  assumes "decides free (planner m)" and "mobility_m (planner m) = Some mob" and "prm_ready m p"
    and "PRM_calcPath m p = Some (True, m', p')"
  shows "way (checked free (planner m) mob) (start_m p) (goal_m p) (path_m p') \<and>
    (\<forall>c \<in> set (path_m p'). free c \<or> c = start_m p \<or> c = goal_m p) \<and>
    (\<not> isReversible mob \<or> reversible_ok free (planner m) mob \<longrightarrow>
       way (seg_free free (planner m) mob) (start_m p) (goal_m p) (path_m p'))"
  using PRM_calcPath_way [OF assms] checked_reversible [of free "planner m" mob]
    reversible_ok_one_way [of mob free "planner m"] by auto

end
