(* ===== verification/WorldModel.thy ===== *)
theory WorldModel
  imports CollisionCheck
begin

text \<open>
  \<open>hrplib/hrpModel/World.{h,cpp}\<close>: the registry of bodies and of link pairs of a simulated
  world, and its settings. A link is known by its address, a number. A body is kept by value
  with the operations its clients call; renaming a body after it was added is not followed.
  The forward dynamics objects and the range sensors are not modelled.
\<close>

section \<open>State\<close>

text \<open>
  Of \<open>hrp::Body\<close>: the name, the links in traversal order (null pointers do not occur there),
  the table from link names to links, and the forward kinematics.
\<close>

record 'w Body = "'w Robot" +
  body_name :: string
  body_links :: "nat list"
  nameToLinkMap :: "nat smap"
  calcForwardKinematics :: "'w \<Rightarrow> 'w"

record 'w World =
  currentTime_m :: double
  timeStep_m :: double
  bodyInfoArray :: "'w Body list"
  sensorsAreEnabled :: bool
  nameToBodyIndexMap :: "int smap"
  linkPairKeyToIndexMap :: "nat \<times> nat \<Rightarrow> int option"
  numRegisteredLinkPairs :: int
  gravity :: "double \<times> double \<times> double"
  isEulerMethod :: bool

definition DEFAULT_GRAVITY_ACCELERATION :: double where
  "DEFAULT_GRAVITY_ACCELERATION = rnd (980665 / 100000)"

definition World_new :: "'w World" where
  "World_new = \<lparr>currentTime_m = Fin 0, timeStep_m = rnd (5 / 1000), bodyInfoArray = [], sensorsAreEnabled = False,
     nameToBodyIndexMap = [], linkPairKeyToIndexMap = (\<lambda>_. None), numRegisteredLinkPairs = 0,
     gravity = (Fin 0, Fin 0, DEFAULT_GRAVITY_ACCELERATION), isEulerMethod = False\<rparr>"

section \<open>Bodies\<close>

definition numBodies :: "'w World \<Rightarrow> nat" where
  "numBodies wd = length (bodyInfoArray wd)"

definition bodyIndex :: "'w World \<Rightarrow> string \<Rightarrow> int" where
  "bodyIndex wd name = (case map_of (nameToBodyIndexMap wd) name of Some i \<Rightarrow> i | None \<Rightarrow> -1)"

text \<open>An index out of range gives the null pointer.\<close>

definition body_by_index :: "'w World \<Rightarrow> int \<Rightarrow> 'w Body option" where
  "body_by_index wd i =
     (if i < 0 \<or> int (length (bodyInfoArray wd)) \<le> i then None else Some (bodyInfoArray wd ! nat i))"

definition body_by_name :: "'w World \<Rightarrow> string \<Rightarrow> 'w Body option" where
  "body_by_name wd name =
     (let i = bodyIndex wd name
      in if i < 0 \<or> int (length (bodyInfoArray wd)) \<le> i then None else Some (bodyInfoArray wd ! nat i))"

definition addBody :: "'w World \<Rightarrow> 'w Body \<Rightarrow> int \<times> 'w World" where
  "addBody wd b =
     (let wd1 = (if body_name b \<noteq> ''''
                 then wd\<lparr>nameToBodyIndexMap :=
                        smap_put (body_name b) (int (length (bodyInfoArray wd))) (nameToBodyIndexMap wd)\<rparr>
                 else wd);
          wd2 = wd1\<lparr>bodyInfoArray := bodyInfoArray wd @ [b]\<rparr>
      in (int (length (bodyInfoArray wd2)) - 1, wd2))"

definition clearBodies :: "'w World \<Rightarrow> 'w World" where
  "clearBodies wd = wd\<lparr>nameToBodyIndexMap := [], bodyInfoArray := []\<rparr>"

section \<open>Settings\<close>

definition setTimeStep :: "'w World \<Rightarrow> double \<Rightarrow> 'w World" where
  "setTimeStep wd ts = wd\<lparr>timeStep_m := ts\<rparr>"

definition setCurrentTime :: "'w World \<Rightarrow> double \<Rightarrow> 'w World" where
  "setCurrentTime wd t = wd\<lparr>currentTime_m := t\<rparr>"

definition setGravityAcceleration :: "'w World \<Rightarrow> double \<times> double \<times> double \<Rightarrow> 'w World" where
  "setGravityAcceleration wd v = wd\<lparr>gravity := v\<rparr>"

definition enableSensors :: "'w World \<Rightarrow> bool \<Rightarrow> 'w World" where
  "enableSensors wd on = wd\<lparr>sensorsAreEnabled := on\<rparr>"

definition setEulerMethod :: "'w World \<Rightarrow> 'w World" where
  "setEulerMethod wd = wd\<lparr>isEulerMethod := True\<rparr>"

definition setRungeKuttaMethod :: "'w World \<Rightarrow> 'w World" where
  "setRungeKuttaMethod wd = wd\<lparr>isEulerMethod := False\<rparr>"

section \<open>Link pairs\<close>

definition clearCollisionPairs :: "'w World \<Rightarrow> 'w World" where
  "clearCollisionPairs wd = wd\<lparr>linkPairKeyToIndexMap := (\<lambda>_. None), numRegisteredLinkPairs := 0\<rparr>"

text \<open>The counter is an \<open>int\<close>; \<open>2 ^ 31\<close> pairs are not considered.\<close>

definition getIndexOfLinkPairs :: "'w World \<Rightarrow> nat \<Rightarrow> nat \<Rightarrow> (int \<times> bool) \<times> 'w World" where
  "getIndexOfLinkPairs wd link1 link2 =
     (if link1 \<noteq> link2 then
        (let key = (if link1 < link2 then (link1, link2) else (link2, link1))
         in case linkPairKeyToIndexMap wd key of
              Some index \<Rightarrow> ((index, True), wd)
            | None \<Rightarrow>
                ((numRegisteredLinkPairs wd, False),
                 wd\<lparr>numRegisteredLinkPairs := numRegisteredLinkPairs wd + 1,
                    linkPairKeyToIndexMap := (linkPairKeyToIndexMap wd)(key \<mapsto> numRegisteredLinkPairs wd)\<rparr>))
      else ((-1, False), wd))"

section \<open>Properties\<close>

text \<open>The position of the last body of a name; the table of names points there.\<close>

definition last_named :: "'w Body list \<Rightarrow> string \<Rightarrow> nat option" where
  "last_named bs name = List.find (\<lambda>i. body_name (bs ! i) = name) (rev [0..<length bs])"

lemma find_cong_on: "(\<And>x. x \<in> set xs \<Longrightarrow> P x = Q x) \<Longrightarrow> List.find P xs = List.find Q xs"
  by (induction xs) auto

lemma last_named_Nil [simp]: "last_named [] name = None"
  by (simp add: last_named_def)

lemma last_named_snoc [simp]:
  "last_named (bs @ [b]) name = (if body_name b = name then Some (length bs) else last_named bs name)"
proof -
  have "List.find (\<lambda>i. body_name ((bs @ [b]) ! i) = name) (rev [0..<length bs]) = last_named bs name"
    unfolding last_named_def by (rule find_cong_on) (auto simp: nth_append)
  then show ?thesis by (simp add: last_named_def)
qed

lemma last_named_SomeD: "last_named bs name = Some i \<Longrightarrow>
    i < length bs \<and> List.find (\<lambda>b. body_name b = name) (rev bs) = Some (bs ! i)"
  by (induction bs arbitrary: i rule: rev_induct) (auto simp: nth_append split: if_splits)

lemma last_named_NoneD: "last_named bs name = None \<Longrightarrow> List.find (\<lambda>b. body_name b = name) (rev bs) = None"
  by (induction bs rule: rev_induct) (auto split: if_splits)

definition bodies_ok :: "'w World \<Rightarrow> bool" where
  "bodies_ok wd \<longleftrightarrow> smap_wf (nameToBodyIndexMap wd) \<and>
     (\<forall>name. map_of (nameToBodyIndexMap wd) name =
        (if name = '''' then None else map_option int (last_named (bodyInfoArray wd) name)))"

lemma bodies_ok_new: "bodies_ok World_new" "bodies_ok (clearBodies wd)"
  by (simp_all add: bodies_ok_def World_new_def clearBodies_def smap_wf_def)

lemma bodies_ok_add:
  assumes "bodies_ok wd"
  shows "bodies_ok (snd (addBody wd b))"
  using assms by (auto simp: bodies_ok_def addBody_def Let_def smap_wf_put map_of_smap_put)

lemma body_by_name_eq:
  assumes "bodies_ok wd" and "name \<noteq> ''''"
  shows "body_by_name wd name = List.find (\<lambda>b. body_name b = name) (rev (bodyInfoArray wd))"
proof -
  have "map_of (nameToBodyIndexMap wd) name = map_option int (last_named (bodyInfoArray wd) name)"
    using assms by (simp add: bodies_ok_def)
  then show ?thesis
    unfolding body_by_name_def bodyIndex_def Let_def
    by (cases "last_named (bodyInfoArray wd) name") (auto dest: last_named_SomeD last_named_NoneD)
qed

text \<open>
  C19: in every world built with \<open>addBody\<close> and \<open>clearBodies\<close>, \<open>body (name)\<close> is the body of
  that name that was added last, null when there is none; adding a body keeps this.
\<close>

theorem body_by_name_last_added:
  assumes "bodies_ok wd" and "name \<noteq> ''''"
  shows "body_by_name wd name = List.find (\<lambda>b. body_name b = name) (rev (bodyInfoArray wd)) \<and>
    bodies_ok (snd (addBody wd b)) \<and> bodies_ok (clearBodies wd) \<and>
    (body_name b = name \<longrightarrow> body_by_name (snd (addBody wd b)) name = Some b) \<and>
    body_by_index (snd (addBody wd b)) (fst (addBody wd b)) = Some b"
proof -
  have arr: "bodyInfoArray (snd (addBody wd b)) = bodyInfoArray wd @ [b]" by (simp add: addBody_def Let_def)
  have "body_by_name (snd (addBody wd b)) name = Some b" if "body_name b = name"
    using body_by_name_eq [OF bodies_ok_add [OF assms(1)] assms(2), of b] that by (simp add: arr)
  moreover have "body_by_index (snd (addBody wd b)) (fst (addBody wd b)) = Some b"
    by (simp add: body_by_index_def addBody_def Let_def)
  ultimately show ?thesis
    using body_by_name_eq [OF assms] bodies_ok_add [OF assms(1)] bodies_ok_new by blast
qed

text \<open>Indices of link pairs are below the counter and different for different pairs.\<close>

definition numbered :: "('k \<Rightarrow> int option) \<Rightarrow> int \<Rightarrow> bool" where
  "numbered mp n \<longleftrightarrow> 0 \<le> n \<and> (\<forall>k i. mp k = Some i \<longrightarrow> 0 \<le> i \<and> i < n) \<and>
     (\<forall>k l i. mp k = Some i \<longrightarrow> mp l = Some i \<longrightarrow> k = l)"

lemma numbered_add: "numbered mp n \<Longrightarrow> numbered (mp(k \<mapsto> n)) (n + 1)"
  unfolding numbered_def by (auto split: if_splits) fastforce+

definition pairs_ok :: "'w World \<Rightarrow> bool" where
  "pairs_ok wd \<longleftrightarrow> numbered (linkPairKeyToIndexMap wd) (numRegisteredLinkPairs wd)"

lemma pairs_ok_new: "pairs_ok World_new" "pairs_ok (clearCollisionPairs wd)"
  by (simp_all add: pairs_ok_def numbered_def World_new_def clearCollisionPairs_def)

text \<open>A run of queries, and what is known about a pair in a world.\<close>

definition ask_pairs :: "(nat \<times> nat) list \<Rightarrow> 'w World \<Rightarrow> 'w World" where
  "ask_pairs qs wd = fold (\<lambda>(c, d) w. snd (getIndexOfLinkPairs w c d)) qs wd"

definition pair_key :: "nat \<Rightarrow> nat \<Rightarrow> nat \<times> nat" where
  "pair_key a b = (if a < b then (a, b) else (b, a))"

lemma pair_key_eq: "pair_key c d = pair_key a b \<longleftrightarrow> {c, d} = {a, b}"
  by (auto simp: pair_key_def doubleton_eq_iff)

lemma pair_key_flip: "pair_key b a = pair_key a b"
  by (auto simp: pair_key_def)

lemma getIndexOfLinkPairs_eq:
  "a \<noteq> b \<Longrightarrow> getIndexOfLinkPairs wd a b = (case linkPairKeyToIndexMap wd (pair_key a b) of
      Some index \<Rightarrow> ((index, True), wd)
    | None \<Rightarrow> ((numRegisteredLinkPairs wd, False),
        wd\<lparr>numRegisteredLinkPairs := numRegisteredLinkPairs wd + 1,
          linkPairKeyToIndexMap := (linkPairKeyToIndexMap wd)(pair_key a b \<mapsto> numRegisteredLinkPairs wd)\<rparr>))"
  "getIndexOfLinkPairs wd a a = ((-1, False), wd)"
  by (simp_all add: getIndexOfLinkPairs_def pair_key_def Let_def cong: option.case_cong)

lemma getIndexOfLinkPairs_ok: "pairs_ok wd \<Longrightarrow> pairs_ok (snd (getIndexOfLinkPairs wd a b))"
  by (cases "a = b") (auto simp: getIndexOfLinkPairs_eq pairs_ok_def numbered_add split: option.splits)

text \<open>A query changes what is known about the pair asked for only.\<close>

lemma getIndexOfLinkPairs_others:
  "k \<noteq> pair_key a b \<or> linkPairKeyToIndexMap wd k \<noteq> None \<Longrightarrow>
    linkPairKeyToIndexMap (snd (getIndexOfLinkPairs wd a b)) k = linkPairKeyToIndexMap wd k"
  by (cases "a = b") (auto simp: getIndexOfLinkPairs_eq split: option.splits)

lemma ask_pairs_known:
  "linkPairKeyToIndexMap wd k = Some i \<Longrightarrow> linkPairKeyToIndexMap (ask_pairs qs wd) k = Some i"
proof (induction qs arbitrary: wd)
  case (Cons q qs)
  obtain c d where q: "q = (c, d)" by fastforce
  have "linkPairKeyToIndexMap (snd (getIndexOfLinkPairs wd c d)) k = Some i"
    using getIndexOfLinkPairs_others [of k c d wd] Cons.prems by simp
  then show ?case using Cons.IH by (simp add: ask_pairs_def q)
qed (simp add: ask_pairs_def)

lemma known_pair:
  "c \<noteq> d \<Longrightarrow> fst (getIndexOfLinkPairs wd c d) = (j, True) \<longleftrightarrow> linkPairKeyToIndexMap wd (pair_key c d) = Some j"
  by (auto simp: getIndexOfLinkPairs_eq split: option.splits)

text \<open>
  C18: \<open>getIndexOfLinkPairs\<close> numbers unordered pairs of links. A pair asked for the first time
  gets the count of the pairs before it and the flag unset; asked again, in either order and
  after any other queries, it gives that index with the flag set. No query changes what is known
  about another pair, different pairs have different indices, a link and itself have none, and
  \<open>clearCollisionPairs\<close> starts again from 0.
\<close>

theorem getIndexOfLinkPairs_numbering:
  assumes "pairs_ok wd" and "getIndexOfLinkPairs wd a b = ((i, old), wd')"
  shows "pairs_ok wd' \<and> (a = b \<longrightarrow> i = -1 \<and> \<not> old \<and> wd' = wd) \<and>
    (a \<noteq> b \<longrightarrow> 0 \<le> i \<and> i < numRegisteredLinkPairs wd' \<and>
       (old \<longrightarrow> wd' = wd) \<and>
       (\<not> old \<longrightarrow> i = numRegisteredLinkPairs wd \<and> numRegisteredLinkPairs wd' = numRegisteredLinkPairs wd + 1) \<and>
       (\<forall>qs. getIndexOfLinkPairs (ask_pairs qs wd') a b = ((i, True), ask_pairs qs wd') \<and>
             getIndexOfLinkPairs (ask_pairs qs wd') b a = ((i, True), ask_pairs qs wd')) \<and>
       (\<forall>c d. {c, d} \<noteq> {a, b} \<longrightarrow> fst (fst (getIndexOfLinkPairs wd' c d)) \<noteq> i \<and>
          (\<forall>j. fst (getIndexOfLinkPairs wd' c d) = (j, True) \<longleftrightarrow> fst (getIndexOfLinkPairs wd c d) = (j, True))) \<and>
       fst (getIndexOfLinkPairs (clearCollisionPairs wd) a b) = (0, False))"
proof (cases "a = b")
  case True
  then show ?thesis
    using assms by (auto simp: getIndexOfLinkPairs_def)
next
  case False
  have wd': "wd' = snd (getIndexOfLinkPairs wd a b)" using assms(2) by simp
  have ok': "pairs_ok wd'" unfolding wd' by (rule getIndexOfLinkPairs_ok [OF assms(1)])
  have i: "linkPairKeyToIndexMap wd' (pair_key a b) = Some i"
    using assms False by (auto simp: getIndexOfLinkPairs_eq split: option.splits)
  have num: "numbered (linkPairKeyToIndexMap wd') (numRegisteredLinkPairs wd')" using ok' by (simp add: pairs_ok_def)
  have range: "0 \<le> i \<and> i < numRegisteredLinkPairs wd'" using num i unfolding numbered_def by blast
  have counted: "(old \<longrightarrow> wd' = wd) \<and> (\<not> old \<longrightarrow> i = numRegisteredLinkPairs wd \<and>
      numRegisteredLinkPairs wd' = numRegisteredLinkPairs wd + 1)"
    using assms(2) False by (auto simp: getIndexOfLinkPairs_eq split: option.splits)
  have again: "getIndexOfLinkPairs (ask_pairs qs wd') a b = ((i, True), ask_pairs qs wd') \<and>
      getIndexOfLinkPairs (ask_pairs qs wd') b a = ((i, True), ask_pairs qs wd')" for qs
    using ask_pairs_known [OF i, of qs] False by (simp add: getIndexOfLinkPairs_eq pair_key_flip [of b a])
  have others: "fst (fst (getIndexOfLinkPairs wd' c d)) \<noteq> i \<and>
      (\<forall>j. fst (getIndexOfLinkPairs wd' c d) = (j, True) \<longleftrightarrow> fst (getIndexOfLinkPairs wd c d) = (j, True))"
    if cd: "{c, d} \<noteq> {a, b}" for c d
  proof (cases "c = d")
    case True
    then show ?thesis using range by (simp add: getIndexOfLinkPairs_eq(2))
  next
    case ne: False
    have key: "pair_key c d \<noteq> pair_key a b" using cd pair_key_eq by blast
    have "fst (fst (getIndexOfLinkPairs wd' c d)) \<noteq> i"
    proof (cases "linkPairKeyToIndexMap wd' (pair_key c d)")
      case None
      then show ?thesis using ne range by (simp add: getIndexOfLinkPairs_eq)
    next
      case (Some j)
      have "j \<noteq> i" using num i Some key unfolding numbered_def by metis
      then show ?thesis using Some ne by (simp add: getIndexOfLinkPairs_eq)
    qed
    then show ?thesis
      using getIndexOfLinkPairs_others [of "pair_key c d" a b wd] key ne by (simp add: known_pair wd')
  qed
  have "fst (getIndexOfLinkPairs (clearCollisionPairs wd) a b) = (0, False)"
    using False by (simp add: getIndexOfLinkPairs_eq clearCollisionPairs_def)
  then show ?thesis using ok' False range counted again others by blast
qed

end
