(* ===== verification/PathPlannerModel.thy ===== *)
theory PathPlannerModel
  imports PRMModel OptimizerModel WorldModel
begin

text \<open>
  \<open>hrplib/hrpPlanner/PathPlanner.{h,cpp}\<close>, the planning engine: the registries of algorithms,
  mobilities and optimizers, the configuration of a run, \<open>calcPath\<close>, \<open>optimize\<close> and
  \<open>getPath\<close>. Its collision checks are in \<open>CollisionCheck\<close>. Not modelled: the CORBA servers,
  loading and drawing of characters, the debug mode and the clocks.
\<close>

section \<open>Algorithm objects\<close>

text \<open>What the virtual methods of \<open>Algorithm\<close> dispatch on.\<close>

datatype AlgorithmObject = RRT_object RRT | PRM_object PRM

text \<open>What the constructors find in the memory of the members they do not set.\<close>

record memory =
  mem_flag1 :: bool
  mem_flag2 :: bool
  mem_eps :: double
  mem_times :: int
  mem_maxPoints :: "64 word"
  mem_maxDist :: double

type_synonym 'w AlgorithmNewFunc = "'w mach \<Rightarrow> memory \<Rightarrow> AlgorithmObject \<times> 'w mach"

definition AlgorithmCreate_RRT :: "'w AlgorithmNewFunc" where
  "AlgorithmCreate_RRT m mem = (let (r, m1) = RRT_new m (mem_eps mem) (mem_times mem) in (RRT_object r, m1))"

definition AlgorithmCreate_PRM :: "'w AlgorithmNewFunc" where
  "AlgorithmCreate_PRM m mem =
     (let (p, m1) = PRM_new m (mem_flag1 mem) (mem_flag2 mem) (mem_maxPoints mem) (mem_maxDist mem)
      in (PRM_object p, m1))"

fun base_part :: "AlgorithmObject \<Rightarrow> Algorithm" where
  "base_part (RRT_object r) = Algorithm.truncate r"
| "base_part (PRM_object p) = Algorithm.truncate p"

fun object_setProperties :: "AlgorithmObject \<Rightarrow> string smap \<Rightarrow> AlgorithmObject" where
  "object_setProperties (RRT_object r) ps = RRT_object (setProperties r ps)"
| "object_setProperties (PRM_object p) ps = PRM_object (setProperties p ps)"

fun object_setStart :: "AlgorithmObject \<Rightarrow> Configuration \<Rightarrow> AlgorithmObject" where
  "object_setStart (RRT_object r) c = RRT_object (setStartConfiguration r c)"
| "object_setStart (PRM_object p) c = PRM_object (setStartConfiguration p c)"

fun object_setGoal :: "AlgorithmObject \<Rightarrow> Configuration \<Rightarrow> AlgorithmObject" where
  "object_setGoal (RRT_object r) c = RRT_object (setGoalConfiguration r c)"
| "object_setGoal (PRM_object p) c = PRM_object (setGoalConfiguration p c)"

fun object_stop :: "AlgorithmObject \<Rightarrow> AlgorithmObject" where
  "object_stop (RRT_object r) = RRT_object (stopPlanning r)"
| "object_stop (PRM_object p) = PRM_object (stopPlanning p)"

text \<open>The result of a method that returns a flag and changes the object.\<close>

definition wrap :: "('a \<Rightarrow> AlgorithmObject) \<Rightarrow> (bool \<times> 'w mach \<times> 'a) option \<Rightarrow> (bool \<times> 'w mach \<times> AlgorithmObject) option" where
  "wrap mk res = map_option (\<lambda>(ok, m, al). (ok, m, mk al)) res"

fun object_prepare :: "'w mach \<Rightarrow> AlgorithmObject \<Rightarrow> (bool \<times> 'w mach \<times> AlgorithmObject) option" where
  "object_prepare m (RRT_object r) = wrap RRT_object (preparePlanning m r)"
| "object_prepare m (PRM_object p) = wrap PRM_object (preparePlanning m p)"

fun object_tryDirect :: "'w mach \<Rightarrow> AlgorithmObject \<Rightarrow> (bool \<times> 'w mach \<times> AlgorithmObject) option" where
  "object_tryDirect m (RRT_object r) = wrap RRT_object (tryDirectConnection m r)"
| "object_tryDirect m (PRM_object p) = wrap PRM_object (tryDirectConnection m p)"

fun object_calcPath :: "'w mach \<Rightarrow> AlgorithmObject \<Rightarrow> (bool \<times> 'w mach \<times> AlgorithmObject) option" where
  "object_calcPath m (RRT_object r) = wrap RRT_object (RRT_calcPath m r)"
| "object_calcPath m (PRM_object p) = wrap PRM_object (PRM_calcPath m p)"

section \<open>The planner\<close>

text \<open>
  \<open>mach_m\<close> holds the members that \<open>CollisionCheck\<close> names and the shared objects;
  \<open>path_\<close> is \<open>waypoints_m\<close> here. A factory entry is the creating function; the deleting
  function frees the object and has no other effect.
\<close>

record 'w PathPlanner =
  mach_m :: "'w mach"
  algorithmFactory_m :: "'w AlgorithmNewFunc smap"
  mobilityFactory_m :: "Mobility smap"
  optimizerFactory_m :: "Optimizer smap"
  algorithmName_m :: string
  algorithm_m :: "AlgorithmObject option"
  mobilityName_m :: string
  waypoints_m :: "Configuration list"
  registry_m :: "'w World"

definition set_planner :: "('w planner \<Rightarrow> 'w planner) \<Rightarrow> 'w PathPlanner \<Rightarrow> 'w PathPlanner" where
  "set_planner f pp = pp\<lparr>mach_m := (mach_m pp)\<lparr>planner := f (planner (mach_m pp))\<rparr>\<rparr>"

subsection \<open>Registries\<close>

definition registerAlgorithm :: "'w PathPlanner \<Rightarrow> string \<Rightarrow> 'w AlgorithmNewFunc \<Rightarrow> 'w PathPlanner" where
  "registerAlgorithm pp name f = pp\<lparr>algorithmFactory_m := smap_insert name f (algorithmFactory_m pp)\<rparr>"

definition registerMobility :: "'w PathPlanner \<Rightarrow> string \<Rightarrow> Mobility \<Rightarrow> 'w PathPlanner" where
  "registerMobility pp name f = pp\<lparr>mobilityFactory_m := smap_insert name f (mobilityFactory_m pp)\<rparr>"

definition registerOptimizer :: "'w PathPlanner \<Rightarrow> string \<Rightarrow> Optimizer \<Rightarrow> 'w PathPlanner" where
  "registerOptimizer pp name f = pp\<lparr>optimizerFactory_m := smap_insert name f (optimizerFactory_m pp)\<rparr>"

definition getOptimizerNames :: "'w PathPlanner \<Rightarrow> string list" where
  "getOptimizerNames pp = map fst (optimizerFactory_m pp)"

definition getMobilityNames :: "'w PathPlanner \<Rightarrow> string list" where
  "getMobilityNames pp = map fst (mobilityFactory_m pp)"

definition getAlgorithmNames :: "'w PathPlanner \<Rightarrow> string list" where
  "getAlgorithmNames pp = map fst (algorithmFactory_m pp)"

text \<open>
  The constructor. \<open>m\<close> gives the store and the static and uninitialised members,
  \<open>apply\<close> is the default function that moves the robot's base.
\<close>

definition PathPlanner_new :: "(double \<Rightarrow> double \<Rightarrow> double) \<Rightarrow> ('w \<Rightarrow> Configuration \<Rightarrow> bool \<times> 'w) \<Rightarrow> 'w mach \<Rightarrow> nat \<Rightarrow> 'w World option \<Rightarrow> 'w PathPlanner" where
  "PathPlanner_new atan2 apply m n world =
     (let pl = (planner m)\<lparr>m_applyConfigFunc := apply, mobility_m := None, cspace_m := ConfigurationSpace_new n,
                  model_m := None, timeCollisionCheck_calls := 0, timeForwardKinematics_calls := 0,
                  checkPairs_m := [], pointCloud_m := [], collidingPair_m := ('''', ''''),
                  customCollisionDetector_m := None\<rparr>;
          wd = (case world of None \<Rightarrow> World_new | Some w \<Rightarrow> w);
          p0 = \<lparr>mach_m = m\<lparr>planner := pl\<rparr>, algorithmFactory_m = [], mobilityFactory_m = [],
                 optimizerFactory_m = [], algorithmName_m = '''', algorithm_m = None, mobilityName_m = '''',
                 waypoints_m = [], registry_m = wd\<rparr>;
          p1 = registerAlgorithm p0 ''RRT'' AlgorithmCreate_RRT;
          p2 = registerAlgorithm p1 ''PRM'' AlgorithmCreate_PRM;
          p3 = registerMobility p2 ''TurnGoTurn'' (TGT atan2);
          p4 = registerMobility p3 ''OmniWheel'' OmniWheel;
          p5 = registerOptimizer p4 ''Shortcut'' ShortcutOptimizer
      in registerOptimizer p5 ''RandomShortcut'' RandomShortcutOptimizer)"

text \<open>
  The destructor asks the factories for the deleting functions by the names set last; an
  unknown name makes it call a null pointer.
\<close>

definition PathPlanner_delete :: "'w PathPlanner \<Rightarrow> unit option" where
  "PathPlanner_delete pp =
     (if algorithm_m pp \<noteq> None \<and> map_of (algorithmFactory_m pp) (algorithmName_m pp) = None then None
      else if mobility_m (planner (mach_m pp)) \<noteq> None \<and> map_of (mobilityFactory_m pp) (mobilityName_m pp) = None
      then None
      else Some ())"

subsection \<open>Setting up a run\<close>

definition getProperties_of :: "'w PathPlanner \<Rightarrow> memory \<Rightarrow> string \<Rightarrow> (string list \<times> string list) option \<times> 'w PathPlanner" where
  "getProperties_of pp mem name =
     (case map_of (algorithmFactory_m pp) name of
        Some new \<Rightarrow> (case new (mach_m pp) mem of (al, m) \<Rightarrow> (Some (getProperties (base_part al)), pp\<lparr>mach_m := m\<rparr>))
      | None \<Rightarrow> (None, pp))"

text \<open>The name is kept even when it is unknown; the old object then stays.\<close>

definition setAlgorithmName :: "'w PathPlanner \<Rightarrow> memory \<Rightarrow> string \<Rightarrow> 'w PathPlanner" where
  "setAlgorithmName pp mem name =
     (let pp1 = pp\<lparr>algorithmName_m := name\<rparr>
      in case map_of (algorithmFactory_m pp1) name of
           Some new \<Rightarrow> (case new (mach_m pp1) mem of (al, m) \<Rightarrow> pp1\<lparr>algorithm_m := Some al, mach_m := m\<rparr>)
         | None \<Rightarrow> pp1)"

definition setMobilityName :: "'w PathPlanner \<Rightarrow> string \<Rightarrow> bool \<times> 'w PathPlanner" where
  "setMobilityName pp name =
     (let pp1 = pp\<lparr>mobilityName_m := name\<rparr>
      in case map_of (mobilityFactory_m pp1) name of
           Some mob \<Rightarrow> (True, set_planner (mobility_m_update (\<lambda>_. Some mob)) pp1)
         | None \<Rightarrow> (False, pp1))"

definition setRobotName :: "'w PathPlanner \<Rightarrow> string \<Rightarrow> 'w PathPlanner" where
  "setRobotName pp name =
     set_planner (model_m_update (\<lambda>_. map_option Robot.truncate (body_by_name (registry_m pp) name))) pp"

definition registerCharacter :: "'w PathPlanner \<Rightarrow> string \<Rightarrow> 'w Body \<Rightarrow> 'w PathPlanner" where
  "registerCharacter pp name b =
     pp\<lparr>registry_m := snd (addBody (registry_m pp) (b\<lparr>body_name := name\<rparr>))\<rparr>"

definition setApplyConfigFunc :: "'w PathPlanner \<Rightarrow> ('w \<Rightarrow> Configuration \<Rightarrow> bool \<times> 'w) \<Rightarrow> 'w PathPlanner" where
  "setApplyConfigFunc pp f = set_planner (m_applyConfigFunc_update (\<lambda>_. f)) pp"

definition setPointCloud :: "'w PathPlanner \<Rightarrow> (double \<times> double \<times> double) list \<Rightarrow> double \<Rightarrow> 'w PathPlanner" where
  "setPointCloud pp cloud r = set_planner (\<lambda>pl. pl\<lparr>pointCloud_m := cloud, radius_m := r\<rparr>) pp"

definition setCollisionDetector :: "'w PathPlanner \<Rightarrow> 'w CollisionDetector option \<Rightarrow> 'w PathPlanner" where
  "setCollisionDetector pp cd = set_planner (customCollisionDetector_m_update (\<lambda>_. cd)) pp"

definition countCollisionCheck :: "'w PathPlanner \<Rightarrow> nat" where
  "countCollisionCheck pp = timeCollisionCheck_calls (planner (mach_m pp))"

definition collidingPair :: "'w PathPlanner \<Rightarrow> string \<times> string" where
  "collidingPair pp = collidingPair_m (planner (mach_m pp))"

text \<open>Calls through \<open>algorithm_\<close>, a null pointer before the first \<open>setAlgorithmName\<close>.\<close>

definition on_algorithm :: "'w PathPlanner \<Rightarrow> (AlgorithmObject \<Rightarrow> AlgorithmObject) \<Rightarrow> 'w PathPlanner option" where
  "on_algorithm pp f = do { al \<leftarrow> algorithm_m pp; Some (pp\<lparr>algorithm_m := Some (f al)\<rparr>) }"

definition pp_setProperties :: "'w PathPlanner \<Rightarrow> string smap \<Rightarrow> 'w PathPlanner option" where
  "pp_setProperties pp ps = on_algorithm pp (\<lambda>al. object_setProperties al ps)"

definition pp_setStartConfiguration :: "'w PathPlanner \<Rightarrow> Configuration \<Rightarrow> 'w PathPlanner option" where
  "pp_setStartConfiguration pp c = on_algorithm pp (\<lambda>al. object_setStart al c)"

definition pp_setGoalConfiguration :: "'w PathPlanner \<Rightarrow> Configuration \<Rightarrow> 'w PathPlanner option" where
  "pp_setGoalConfiguration pp c = on_algorithm pp (\<lambda>al. object_setGoal al c)"

definition pp_stopPlanning :: "'w PathPlanner \<Rightarrow> 'w PathPlanner option" where
  "pp_stopPlanning pp = on_algorithm pp object_stop"

text \<open>
  Pairs of links to check; an empty name stands for every link of the body. The pair of two
  links is made by \<open>ColdetModelPair\<close>'s constructor, here \<open>mk\<close>.
\<close>

definition named_links :: "'w Body \<Rightarrow> string \<Rightarrow> nat option list" where
  "named_links b name = (if name = '''' then map Some (body_links b) else [map_of (nameToLinkMap b) name])"

fun link_pairs_row :: "(nat \<Rightarrow> nat \<Rightarrow> double \<Rightarrow> 'w ColdetModelPair) \<Rightarrow> double \<Rightarrow> nat option \<Rightarrow> nat option list \<Rightarrow> 'w ColdetModelPair list" where
  "link_pairs_row mk tol l1 [] = []"
| "link_pairs_row mk tol l1 (l2 # ls) =
     (case (l1, l2) of
        (Some a, Some b) \<Rightarrow> if a \<noteq> b then mk a b tol # link_pairs_row mk tol l1 ls else link_pairs_row mk tol l1 ls
      | _ \<Rightarrow> link_pairs_row mk tol l1 ls)"

fun link_pairs :: "(nat \<Rightarrow> nat \<Rightarrow> double \<Rightarrow> 'w ColdetModelPair) \<Rightarrow> double \<Rightarrow> nat option list \<Rightarrow> nat option list \<Rightarrow> 'w ColdetModelPair list" where
  "link_pairs mk tol [] ls2 = []"
| "link_pairs mk tol (l1 # ls1) ls2 = link_pairs_row mk tol l1 ls2 @ link_pairs mk tol ls1 ls2"

definition registerIntersectionCheckPair ::
  "(nat \<Rightarrow> nat \<Rightarrow> double \<Rightarrow> 'w ColdetModelPair) \<Rightarrow> 'w PathPlanner \<Rightarrow> string \<Rightarrow> string \<Rightarrow> string \<Rightarrow> string \<Rightarrow> double \<Rightarrow> 'w PathPlanner option" where
  "registerIntersectionCheckPair mk pp char1 link1 char2 link2 tol =
     (let i1 = bodyIndex (registry_m pp) char1; i2 = bodyIndex (registry_m pp) char2
      in if 0 \<le> i1 \<and> 0 \<le> i2 then
           do { b1 \<leftarrow> body_by_index (registry_m pp) i1;
                b2 \<leftarrow> body_by_index (registry_m pp) i2;
                Some (set_planner (\<lambda>pl. pl\<lparr>checkPairs_m :=
                  checkPairs_m pl @ link_pairs mk tol (named_links b1 link1) (named_links b2 link2)\<rparr>) pp) }
         else Some pp)"

subsection \<open>Planning\<close>

text \<open>Every body of the world is brought up to date first.\<close>

definition refresh_body :: "'w Body \<Rightarrow> 'w \<Rightarrow> 'w" where
  "refresh_body b w = fold (setLinkPosition b) [0..<numLinks b] (calcForwardKinematics b w)"

definition refresh :: "'w PathPlanner \<Rightarrow> 'w PathPlanner" where
  "refresh pp = set_planner (\<lambda>pl. pl\<lparr>world_m := fold refresh_body (bodyInfoArray (registry_m pp)) (world_m pl)\<rparr>) pp"

text \<open>The two ways to a path: directly, or by the algorithm.\<close>

definition run_algorithm :: "'w mach \<Rightarrow> AlgorithmObject \<Rightarrow> (bool \<times> 'w mach \<times> AlgorithmObject) option" where
  "run_algorithm m al =
     do { (direct, m1, al1) \<leftarrow> object_tryDirect m al;
          if direct then Some (True, m1, al1) else object_calcPath m1 al1 }"

definition pp_calcPath :: "'w PathPlanner \<Rightarrow> (bool \<times> 'w PathPlanner) option" where
  "pp_calcPath pp =
     (let pp1 = refresh (pp\<lparr>waypoints_m := []\<rparr>)
      in do {
        al \<leftarrow> algorithm_m pp1;
        (ready, m1, al1) \<leftarrow> object_prepare (mach_m pp1) al;
        if \<not> ready then Some (False, pp1\<lparr>mach_m := m1, algorithm_m := Some al1\<rparr>)
        else do {
          (ok, m2, al2) \<leftarrow> run_algorithm m1 al1;
          let pp2 = pp1\<lparr>mach_m := m2, algorithm_m := Some al2\<rparr>
          in Some (ok, if ok then pp2\<lparr>waypoints_m := path_m (base_part al2)\<rparr> else pp2) } })"

definition pp_optimize :: "'w PathPlanner \<Rightarrow> string \<Rightarrow> (bool \<times> 'w PathPlanner) option" where
  "pp_optimize pp name =
     (case map_of (optimizerFactory_m pp) name of
        Some opt \<Rightarrow> do { (path, m) \<leftarrow> optimize_with opt (mach_m pp) (waypoints_m pp);
                         Some (True, pp\<lparr>waypoints_m := path, mach_m := m\<rparr>) }
      | None \<Rightarrow> Some (False, pp))"

definition getWayPoints :: "'w PathPlanner \<Rightarrow> Configuration list" where
  "getWayPoints pp = waypoints_m pp"

text \<open>The waypoints with the interpolated configurations between them.\<close>

fun final_path :: "'w planner \<Rightarrow> Configuration list \<Rightarrow> Configuration list option" where
  "final_path pl (a # b # cs) =
     do { mob \<leftarrow> mobility_m pl;
          localPath \<leftarrow> Mobility_getPath pl mob a b;
          rest \<leftarrow> final_path pl (b # cs);
          Some (butlast localPath @ rest) }"
| "final_path pl cs = Some cs"

definition pp_getPath :: "'w PathPlanner \<Rightarrow> Configuration list option" where
  "pp_getPath pp = final_path (planner (mach_m pp)) (waypoints_m pp)"

section \<open>The contract of a planning algorithm\<close>

text \<open>
  What \<open>PathPlanner\<close> relies on when it runs an algorithm: \<open>ready\<close> is the state of a new object,
  which asking the planner and preparing a run preserve, and a successful \<open>calcPath\<close> leaves a
  way whose segments are \<open>edge\<close>s, that is, checked as the algorithm checks them; a segment that
  is free in its own direction always is an edge.
\<close>

locale path_algorithm =
  fixes calc :: "'w mach \<Rightarrow> 'a Algorithm_scheme \<Rightarrow> (bool \<times> 'w mach \<times> 'a Algorithm_scheme) option"
    and ready :: "'w mach \<Rightarrow> 'a Algorithm_scheme \<Rightarrow> bool"
    and edge :: "(Configuration \<Rightarrow> bool) \<Rightarrow> 'w planner \<Rightarrow> Mobility \<Rightarrow> Configuration \<Rightarrow> Configuration \<Rightarrow> bool"
  assumes calc_way: "decides free (planner m) \<Longrightarrow> mobility_m (planner m) = Some mob \<Longrightarrow>
      ready m al \<Longrightarrow> path_m al = [] \<Longrightarrow> calc m al = Some (True, m', al') \<Longrightarrow>
      answers free (planner m) (planner m') \<and>
      way (edge free (planner m) mob) (start_m al) (goal_m al) (path_m al') \<and>
      (\<forall>c \<in> set (path_m al'). free c \<or> c = start_m al \<or> c = goal_m al)"
    and ready_prepared: "ready m al \<Longrightarrow> m' = m\<lparr>planner := pl\<rparr> \<Longrightarrow>
      ready m' (al\<lparr>isRunning_m := b, path_m := [], properties_m := ps\<rparr>)"
    and ready_asked: "ready m al \<Longrightarrow> m' = m\<lparr>planner := pl\<rparr> \<Longrightarrow> ready m' al"
    and edge_free: "seg_free free pl mob c1 c2 \<Longrightarrow> edge free pl mob c1 c2"
    and edge_same: "same_setup pl pl' \<Longrightarrow> edge free pl' mob = edge free pl mob"
begin

text \<open>Direct connection first, the search otherwise.\<close>

lemma connected_way:
  assumes dec: "decides free (planner m)" and mob: "mobility_m (planner m) = Some mob"
    and ready: "ready m al" and path: "path_m al = []"
    and direct: "tryDirectConnection m al = Some (ok, m1, al1)"
    and rest: "(if ok then Some (True, m1, al1) else calc m1 al1) = Some (True, m', al')"
  shows "answers free (planner m) (planner m') \<and>
    way (edge free (planner m) mob) (start_m al) (goal_m al) (path_m al') \<and>
    (\<forall>c \<in> set (path_m al'). free c \<or> c = start_m al \<or> c = goal_m al)"
proof -
  have one: "asked free m m1" "ok = seg_free free (planner m) mob (start_m al) (goal_m al)"
      "al1 = (if ok then al\<lparr>path_m := path_m al @ [start_m al, goal_m al]\<rparr> else al)"
    using tryDirectConnection_SomeD [OF dec mob direct] by blast+
  then have ans: "answers free (planner m) (planner m1)" by (simp add: asked_def answers_def)
  show ?thesis
  proof (cases ok)
    case True
    then have "edge free (planner m) mob (start_m al) (goal_m al)" using one(2) edge_free by blast
    then show ?thesis using True rest one path ans by (auto simp: way_def)
  next
    case False
    have same: "same_setup (planner m) (planner m1)" and dec1: "decides free (planner m1)"
      using ans by (simp_all add: answers_def)
    have m1: "m1 = m\<lparr>planner := planner m1\<rparr>" using one(1) by (simp add: asked_def)
    have "answers free (planner m1) (planner m') \<and>
        way (edge free (planner m1) mob) (start_m al) (goal_m al) (path_m al') \<and>
        (\<forall>c \<in> set (path_m al'). free c \<or> c = start_m al \<or> c = goal_m al)"
    proof (rule calc_way [OF dec1 _ ready_asked [OF ready m1] path])
      show "calc m1 al = Some (True, m', al')" using rest False one(3) by simp
      show "mobility_m (planner m1) = Some mob" using mob same_setup_fields(1) [OF same] by simp
    qed
    then show ?thesis
      using same same_setup_trans [OF same] by (auto simp: answers_def edge_same [OF same])
  qed
qed

text \<open>A whole run: preparation included, both ends are free.\<close>

lemma plan_way:
  assumes dec: "decides free (planner m)" and wf: "cs_wf (cspace_m (planner m))"
    and mob: "mobility_m (planner m) = Some mob"
    and ready: "ready m al"
    and flags: "\<not> ignoreCollisionAtStart_m al" "\<not> ignoreCollisionAtGoal_m al"
    and prep: "preparePlanning m al = Some (True, m1, al1)"
    and direct: "tryDirectConnection m1 al1 = Some (ok, m2, al2)"
    and rest: "(if ok then Some (True, m2, al2) else calc m2 al2) = Some (True, m', al')"
  shows "mobility_m (planner m') = Some mob \<and>
    way (edge free (planner m') mob) (start_m al) (goal_m al) (path_m al') \<and> (\<forall>c \<in> set (path_m al'). free c)"
proof -
  let ?ix = "smap_index '''' (properties_m al) ''interpolation-distance''"
  let ?m0 = "m\<lparr>planner := (planner m)\<lparr>interpolationDistance_m := c_atof (fst ?ix)\<rparr>\<rparr>"
  have one: "end_ok free (cspace_m (planner m)) (start_m al) False" "end_ok free (cspace_m (planner m)) (goal_m al) False"
      "al1 = al\<lparr>isRunning_m := True, path_m := [], properties_m := snd ?ix\<rparr>" "asked free ?m0 m1"
    using preparePlanning_run [OF dec wf, of al] prep flags by auto
  then have ends: "free (start_m al)" "free (goal_m al)" by (simp_all add: end_ok_def)
  have same: "same_setup (planner ?m0) (planner m1)" and dec1: "decides free (planner m1)"
    using one(4) by (simp_all add: asked_def)
  have m1: "m1 = m\<lparr>planner := planner m1\<rparr>" using one(4) by (cases m; cases m1) (simp add: asked_def)
  have mob1: "mobility_m (planner m1) = Some mob" using same_setup_fields(1) [OF same] mob by simp
  have "answers free (planner m1) (planner m') \<and>
      way (edge free (planner m1) mob) (start_m al1) (goal_m al1) (path_m al') \<and>
      (\<forall>c \<in> set (path_m al'). free c \<or> c = start_m al1 \<or> c = goal_m al1)"
    by (rule connected_way [OF dec1 mob1 _ _ direct rest])
      (use ready_prepared [OF ready m1] in \<open>simp_all add: one(3)\<close>)
  then show ?thesis
    using ends mob1 same_setup_fields(1) [of "planner m1" "planner m'"]
      edge_same [of "planner m1" "planner m'" free mob]
    by (auto simp: answers_def one(3))
qed

end

lemma tree_of_object: "tree_of (r\<lparr>isRunning_m := b, path_m := p, properties_m := ps\<rparr>) c = tree_of r c"
  by (simp add: tree_of_def)

interpretation rrt_algorithm: path_algorithm RRT_calcPath rrt_ready seg_free
proof unfold_locales
  fix free and m :: "'w mach" and mob al m' al'
  assume "decides free (planner m)" "mobility_m (planner m) = Some mob" "rrt_ready m al"
    and "RRT_calcPath m al = Some (True, m', al')"
  then show "answers free (planner m) (planner m') \<and>
      way (seg_free free (planner m) mob) (start_m al) (goal_m al) (path_m al') \<and>
      (\<forall>c \<in> set (path_m al'). free c \<or> c = start_m al \<or> c = goal_m al)"
    using RRT_calcPath_way by blast
qed (simp_all add: rrt_ready_def heap_fresh_def tree_of_object seg_free_same)

interpretation prm_algorithm: path_algorithm PRM_calcPath prm_ready checked
proof unfold_locales
  fix free and m :: "'w mach" and mob al m' al'
  assume "decides free (planner m)" "mobility_m (planner m) = Some mob"
    "prm_ready m al" "PRM_calcPath m al = Some (True, m', al')"
  then show "answers free (planner m) (planner m') \<and>
      way (checked free (planner m) mob) (start_m al) (goal_m al) (path_m al') \<and>
      (\<forall>c \<in> set (path_m al'). free c \<or> c = start_m al \<or> c = goal_m al)"
    using PRM_calcPath_way by blast
qed (auto simp: prm_ready_def heap_fresh_def checkedI checked_same)

section \<open>The path handed out\<close>

lemma seg_free_points:
  assumes "seg_free free pl mob a b"
  shows "\<exists>ps. Mobility_getPath pl mob a b = Some (a # ps @ [b]) \<and> (\<forall>c \<in> set ps. free c)"
proof -
  obtain lp where lp: "Mobility_getPath pl mob a b = Some lp" and fr: "\<forall>i. 0 < i \<and> i < length lp - 1 \<longrightarrow> free (lp ! i)"
    using assms unfolding seg_free_def by blast
  obtain ps where ps: "lp = a # ps @ [b]" using getPath_Some_shape [OF lp] by blast
  have "free c" if c: "c \<in> set ps" for c
  proof -
    obtain j where "j < length ps" "ps ! j = c" using c by (auto simp: in_set_conv_nth)
    then show ?thesis using fr [rule_format, of "Suc j"] by (simp add: ps nth_append)
  qed
  then show ?thesis using lp ps by blast
qed

text \<open>What \<open>getPath\<close> makes of a way: every waypoint is there, and only free configurations.\<close>

lemma final_path_free:
  assumes mob: "mobility_m pl = Some mob"
  shows "path \<noteq> [] \<Longrightarrow> successively (seg_free free pl mob) path \<Longrightarrow> \<forall>c \<in> set path. free c \<Longrightarrow>
    \<exists>final. final_path pl path = Some final \<and> final \<noteq> [] \<and> hd final = hd path \<and> last final = last path \<and>
      set path \<subseteq> set final \<and> (\<forall>c \<in> set final. free c)"
proof (induction path rule: induct_list012)
  case (3 a b cs)
  obtain ps where ps: "Mobility_getPath pl mob a b = Some (a # ps @ [b])" "\<forall>c \<in> set ps. free c"
    using seg_free_points "3.prems"(2) by fastforce
  have tail: "successively (seg_free free pl mob) (b # cs)" "\<forall>c \<in> set (b # cs). free c"
    using "3.prems" by simp_all
  obtain final where final: "final_path pl (b # cs) = Some final" "final \<noteq> []"
      "last final = last (b # cs)" "set (b # cs) \<subseteq> set final" "\<forall>c \<in> set final. free c"
    using "3.IH"(2) [OF _ tail] by blast
  have "final_path pl (a # b # cs) = Some ((a # ps) @ final)"
    using ps(1) final(1) mob by (simp add: butlast_append)
  then show ?case using final ps(2) "3.prems"(3) by auto
qed auto

text \<open>
  A configuration on the path from one waypoint to the next that is not free, although the way
  from the next to the one was found free and the mobility calls itself reversible.
\<close>

definition checked_backwards :: "(Configuration \<Rightarrow> bool) \<Rightarrow> 'w planner \<Rightarrow> Mobility \<Rightarrow> Configuration list \<Rightarrow> Configuration \<Rightarrow> bool" where
  "checked_backwards free pl mob wps c \<longleftrightarrow> isReversible mob \<and>
     (\<exists>i lp. i + 1 < length wps \<and> Mobility_getPath pl mob (wps ! i) (wps ! (i + 1)) = Some lp \<and> c \<in> set lp \<and>
        \<not> seg_free free pl mob (wps ! i) (wps ! (i + 1)) \<and> seg_free free pl mob (wps ! (i + 1)) (wps ! i))"

lemma checked_backwards_Cons:
  "checked_backwards free pl mob wps c \<Longrightarrow> checked_backwards free pl mob (w # wps) c"
  unfolding checked_backwards_def by (metis Suc_eq_plus1 Suc_less_eq length_Cons nth_Cons_Suc)

lemma final_path_checked:
  assumes mob: "mobility_m pl = Some mob"
  shows "path \<noteq> [] \<Longrightarrow> successively (checked free pl mob) path \<Longrightarrow> \<forall>c \<in> set path. free c \<Longrightarrow>
    final_path pl path = Some final \<Longrightarrow> final \<noteq> [] \<and> hd final = hd path \<and> last final = last path \<and>
      set path \<subseteq> set final \<and> (\<forall>c \<in> set final. free c \<or> checked_backwards free pl mob path c)"
proof (induction path arbitrary: final rule: induct_list012)
  case (3 a b cs)
  obtain lp rest where lp: "Mobility_getPath pl mob a b = Some lp" and rest: "final_path pl (b # cs) = Some rest"
      and final: "final = butlast lp @ rest"
    using "3.prems"(4) mob by (auto simp: bind_Some_iff)
  obtain ps where ps: "lp = a # ps @ [b]" using getPath_Some_shape [OF lp] by blast
  have tail: "successively (checked free pl mob) (b # cs)" "\<forall>c \<in> set (b # cs). free c" "checked free pl mob a b" "free a"
    using "3.prems" by simp_all
  have IH: "rest \<noteq> []" "hd rest = b" "last rest = last (b # cs)" "set (b # cs) \<subseteq> set rest"
      "\<forall>c \<in> set rest. free c \<or> checked_backwards free pl mob (a # b # cs) c"
    using "3.IH"(2) [OF _ tail(1,2) rest] checked_backwards_Cons by (simp; blast)+
  have seg: "free c \<or> checked_backwards free pl mob (a # b # cs) c" if c: "c \<in> set ps" for c
  proof (cases "seg_free free pl mob a b")
    case True
    then show ?thesis using seg_free_points [OF True] c lp ps by auto
  next
    case False
    then have "checked_backwards free pl mob (a # b # cs) c"
      unfolding checked_backwards_def using tail(3) c lp ps by (intro conjI exI [of _ 0]) (auto simp: checked_def)
    then show ?thesis ..
  qed
  show ?case using IH seg tail(4) by (auto simp: final ps butlast_append)
qed auto

section \<open>A planning run\<close>

text \<open>A new object of either class, with the collision checks at both ends on.\<close>

fun object_ready :: "'w mach \<Rightarrow> AlgorithmObject \<Rightarrow> bool" where
  "object_ready m (RRT_object r) = rrt_ready m r"
| "object_ready m (PRM_object p) = prm_ready m p"

definition checks_ends :: "AlgorithmObject \<Rightarrow> bool" where
  "checks_ends al \<longleftrightarrow> \<not> ignoreCollisionAtStart_m (base_part al) \<and> \<not> ignoreCollisionAtGoal_m (base_part al)"

lemma truncate_sel [simp]:
  "start_m (Algorithm.truncate a) = start_m a" "goal_m (Algorithm.truncate a) = goal_m a"
  "path_m (Algorithm.truncate a) = path_m a"
  "ignoreCollisionAtStart_m (Algorithm.truncate a) = ignoreCollisionAtStart_m a"
  "ignoreCollisionAtGoal_m (Algorithm.truncate a) = ignoreCollisionAtGoal_m a"
  by (simp_all add: Algorithm.defs)

lemma wrap_Some: "wrap mk res = Some (ok, m, al) \<longleftrightarrow> (\<exists>x. res = Some (ok, m, x) \<and> al = mk x)"
  by (auto simp: wrap_def)

text \<open>How the segments of the two algorithms' paths were checked.\<close>

fun object_edge :: "AlgorithmObject \<Rightarrow> (Configuration \<Rightarrow> bool) \<Rightarrow> 'w planner \<Rightarrow> Mobility \<Rightarrow> Configuration \<Rightarrow> Configuration \<Rightarrow> bool" where
  "object_edge (RRT_object r) = seg_free"
| "object_edge (PRM_object p) = checked"

lemma object_edge_checked: "object_edge al free pl mob a b \<Longrightarrow> checked free pl mob a b"
  by (cases al) (simp_all add: checkedI)

lemma object_run_way:
  assumes dec: "decides free (planner m)" and wf: "cs_wf (cspace_m (planner m))"
    and mob: "mobility_m (planner m) = Some mob"
    and ready: "object_ready m al" and ends: "checks_ends al"
    and prep: "object_prepare m al = Some (True, m1, al1)" and run: "run_algorithm m1 al1 = Some (True, m', al')"
  shows "mobility_m (planner m') = Some mob \<and>
    way (object_edge al free (planner m') mob) (start_m (base_part al)) (goal_m (base_part al)) (path_m (base_part al')) \<and>
    (\<forall>c \<in> set (path_m (base_part al')). free c)"
proof (cases al)
  case (RRT_object r)
  then obtain r1 where r1: "preparePlanning m r = Some (True, m1, r1)" "al1 = RRT_object r1"
    using prep by (auto simp: wrap_Some)
  then obtain ok m2 r2 r' where run: "tryDirectConnection m1 r1 = Some (ok, m2, r2)" "al' = RRT_object r'"
      "(if ok then Some (True, m2, r2) else RRT_calcPath m2 r2) = Some (True, m', r')"
    using run by (auto simp: run_algorithm_def bind_Some_iff wrap_Some split: if_splits)
  show ?thesis
    using rrt_algorithm.plan_way [OF dec wf mob _ _ _ r1(1) run(1,3)] ready ends RRT_object run(2)
    by (simp add: checks_ends_def)
next
  case (PRM_object p)
  then obtain p1 where p1: "preparePlanning m p = Some (True, m1, p1)" "al1 = PRM_object p1"
    using prep by (auto simp: wrap_Some)
  then obtain ok m2 p2 p' where run: "tryDirectConnection m1 p1 = Some (ok, m2, p2)" "al' = PRM_object p'"
      "(if ok then Some (True, m2, p2) else PRM_calcPath m2 p2) = Some (True, m', p')"
    using run by (auto simp: run_algorithm_def bind_Some_iff wrap_Some split: if_splits)
  show ?thesis
    using prm_algorithm.plan_way [OF dec wf mob _ _ _ p1(1) run(1,3)] ready ends PRM_object run(2)
    by (simp add: checks_ends_def)
qed

lemma decides_world: "decides free (pl\<lparr>world_m := w\<rparr>) = decides free pl"
  by (simp add: decides_def)

lemma object_ready_planner: "object_ready (m\<lparr>planner := pl\<rparr>) al = object_ready m al"
  by (cases al) (simp_all add: rrt_ready_def prm_ready_def heap_fresh_def)

text \<open>
  C1: a planning run that reports success, with a new algorithm object of either class and the
  collision checks at both ends on, leaves waypoints from the start to the goal, all of them
  free. With an \<open>RRT\<close>, or with a \<open>PRM\<close> and a mobility that is not reversible or whose ways back
  are free whenever the ways there are (\<open>reversible_ok\<close>), \<open>getPath\<close> hands out a path through
  the waypoints every configuration of which is free. In the remaining case, a \<open>PRM\<close> with a
  reversible mobility such as \<open>OmniWheel\<close> (which \<open>OmniWheel_not_reversible\<close> shows not to be
  \<open>reversible_ok\<close>), a path handed out leads through the waypoints as well, and a configuration
  on it that is not free lies on a segment that was checked in the opposite direction only.
  Throughout, the detector's verdict has to depend on the configuration only (\<open>decides\<close>).
\<close>

theorem calcPath_getPath_free:
  assumes "decides free (planner (mach_m pp))" and "cs_wf (cspace_m (planner (mach_m pp)))"
    and "mobility_m (planner (mach_m pp)) = Some mob"
    and "algorithm_m pp = Some al" and "object_ready (mach_m pp) al" and "checks_ends al"
    and "pp_calcPath pp = Some (True, pp')"
  shows "way (object_edge al free (planner (mach_m pp')) mob)
      (start_m (base_part al)) (goal_m (base_part al)) (getWayPoints pp') \<and>
    (\<forall>c \<in> set (getWayPoints pp'). free c) \<and>
    ((\<exists>r. al = RRT_object r) \<or> \<not> isReversible mob \<or> reversible_ok free (planner (mach_m pp')) mob \<longrightarrow>
      (\<exists>path. pp_getPath pp' = Some path \<and> path \<noteq> [] \<and>
        hd path = start_m (base_part al) \<and> last path = goal_m (base_part al) \<and>
        set (getWayPoints pp') \<subseteq> set path \<and> (\<forall>c \<in> set path. free c))) \<and>
    (\<forall>path. pp_getPath pp' = Some path \<longrightarrow> path \<noteq> [] \<and>
      hd path = start_m (base_part al) \<and> last path = goal_m (base_part al) \<and>
      set (getWayPoints pp') \<subseteq> set path \<and>
      (\<forall>c \<in> set path. free c \<or> checked_backwards free (planner (mach_m pp')) mob (getWayPoints pp') c))"
proof -
  let ?w = "fold refresh_body (bodyInfoArray (registry_m pp)) (world_m (planner (mach_m pp)))"
  let ?m = "(mach_m pp)\<lparr>planner := (planner (mach_m pp))\<lparr>world_m := ?w\<rparr>\<rparr>"
  obtain m1 al1 m2 al2 where prep: "object_prepare ?m al = Some (True, m1, al1)"
      and run: "run_algorithm m1 al1 = Some (True, m2, al2)"
      and pp': "mach_m pp' = m2" "waypoints_m pp' = path_m (base_part al2)"
    using assms(4,7)
    by (auto simp: pp_calcPath_def refresh_def set_planner_def Let_def bind_Some_iff split: if_splits)
  let ?path = "path_m (base_part al2)"
  have mob: "mobility_m (planner m2) = Some mob"
      and w: "way (object_edge al free (planner m2) mob) (start_m (base_part al)) (goal_m (base_part al)) ?path"
      and fr: "\<forall>c \<in> set ?path. free c"
    using object_run_way [of free ?m mob al m1 al1 m2 al2] assms prep run
    by (simp_all add: decides_world object_ready_planner)
  have path: "?path \<noteq> []" "hd ?path = start_m (base_part al)" "last ?path = goal_m (base_part al)"
      "successively (object_edge al free (planner m2) mob) ?path"
    using w by (simp_all add: way_def)
  have chk: "successively (checked free (planner m2) mob) ?path"
    using path(4) object_edge_checked by (rule successively_mono)
  have seg: "successively (seg_free free (planner m2) mob) ?path"
    if "(\<exists>r. al = RRT_object r) \<or> \<not> isReversible mob \<or> reversible_ok free (planner m2) mob"
    using that path(4) chk checked_reversible [of free "planner m2" mob]
      reversible_ok_one_way [of mob free "planner m2"] by auto
  show ?thesis
    using final_path_free [OF mob path(1) _ fr] seg final_path_checked [OF mob path(1) chk fr] path(2,3) w fr
    by (simp add: pp_getPath_def getWayPoints_def pp')
qed

text \<open>What \<open>setAlgorithmName\<close> creates is ready for a run.\<close>

lemma setAlgorithmName_ready:
  assumes "heap_fresh (mach_m pp)"
    and "map_of (algorithmFactory_m pp) name = Some AlgorithmCreate_RRT \<or>
      map_of (algorithmFactory_m pp) name = Some AlgorithmCreate_PRM"
  shows "\<exists>al. algorithm_m (setAlgorithmName pp mem name) = Some al \<and>
    object_ready (mach_m (setAlgorithmName pp mem name)) al"
proof -
  obtain r m1 where r: "RRT_new (mach_m pp) (mem_eps mem) (mem_times mem) = (r, m1)" by fastforce
  obtain p m2 where p: "PRM_new (mach_m pp) (mem_flag1 mem) (mem_flag2 mem) (mem_maxPoints mem) (mem_maxDist mem) = (p, m2)"
    by fastforce
  show ?thesis
    using assms(2) RRT_new_ready [OF assms(1) r] PRM_new_ready [OF assms(1) p]
    by (auto simp: setAlgorithmName_def AlgorithmCreate_RRT_def AlgorithmCreate_PRM_def r p)
qed

text \<open>
  A new planner offers its two algorithms, mobilities and optimizers under their names in
  alphabetical order, and a name once taken keeps its first creator.
\<close>

lemma PathPlanner_new_registries:
  "getAlgorithmNames (PathPlanner_new atan2 apply m n wd) = [''PRM'', ''RRT''] \<and>
   getMobilityNames (PathPlanner_new atan2 apply m n wd) = [''OmniWheel'', ''TurnGoTurn''] \<and>
   getOptimizerNames (PathPlanner_new atan2 apply m n wd) = [''RandomShortcut'', ''Shortcut''] \<and>
   registerAlgorithm (PathPlanner_new atan2 apply m n wd) ''RRT'' f = PathPlanner_new atan2 apply m n wd \<and>
   PathPlanner_delete (PathPlanner_new atan2 apply m n wd) = Some ()"
  by (simp add: PathPlanner_new_def Let_def registerAlgorithm_def registerMobility_def registerOptimizer_def
      smap_insert_def getAlgorithmNames_def getMobilityNames_def getOptimizerNames_def PathPlanner_delete_def)

text \<open>
  C20: setting an unknown algorithm name keeps the old algorithm object but not its name, and
  from then on the destructor calls a null pointer, until a known name is set.
\<close>

theorem setAlgorithmName_unknown:
  assumes "map_of (algorithmFactory_m pp) name = None" and "algorithm_m pp = Some al"
    and "map_of (algorithmFactory_m pp) known = Some new"
  shows "algorithm_m (setAlgorithmName pp mem name) = Some al \<and>
    PathPlanner_delete (setAlgorithmName pp mem name) = None \<and>
    (let pp' = setAlgorithmName (setAlgorithmName pp mem name) mem known
     in mobility_m (planner (mach_m pp')) = None \<longrightarrow> PathPlanner_delete pp' = Some ())"
  using assms by (simp add: setAlgorithmName_def PathPlanner_delete_def split_beta)

end
