(* ===== verification/Witnesses.thy ===== *)
theory Witnesses
  imports PathPlannerModel
begin

text \<open>
  The properties of the planner at work on a small instance: a robot with one degree of
  freedom whose world is just the configuration last applied, and which collides at the
  value \<open>1\<close> only. The mobility \<open>still\<close> has distance zero everywhere and interpolates to the
  target, so every interpolated path consists of its two ends.
\<close>

section \<open>The instance\<close>

definition posture :: "rat \<Rightarrow> Configuration" where
  "posture q = \<lparr>m_values = [Fin q]\<rparr>"

definition still :: Mobility where
  "still = \<lparr>isReversible = True, interpolate = (\<lambda>cs a b t. Some b), distance = (\<lambda>cs a b. Some (Fin 0))\<rparr>"

definition bumper :: "Configuration CollisionDetector" where
  "bumper = \<lparr>updatePositions = (\<lambda>w. w), detectorCheck = (\<lambda>w. w = posture 1),
     detectorPair = (\<lambda>w. (''robot'', ''wall''))\<rparr>"

definition lab :: "Configuration planner" where
  "lab = \<lparr>m_applyConfigFunc = (\<lambda>w c. (True, c)), mobility_m = Some still,
     cspace_m = \<lparr>m_size = 1, m_ubounds = [Fin 9], m_lbounds = [Fin 0], m_weights = [Fin 1],
                 m_isUnboundedRotation = [False]\<rparr>,
     model_m = None, world_m = posture 0, timeCollisionCheck_calls = 0, timeForwardKinematics_calls = 0,
     checkPairs_m = [], pointCloud_m = [], radius_m = Fin 0, collidingPair_m = ('''', ''''),
     customCollisionDetector_m = Some bumper, interpolationDistance_m = Fin 1\<rparr>"

definition lab_mach :: "Configuration mach" where
  "lab_mach = \<lparr>planner = lab, nheap = (\<lambda>_. None), next_node = 0, rheap = (\<lambda>_. None), next_map = 0,
     rsource = \<lparr>RAND_MAX = 2, rand_seq = (\<lambda>_. 0)\<rparr>, rand_calls = 0, uninit = (\<lambda>_. False),
     stop_at = (\<lambda>_. False), polls = 0\<rparr>"

definition lab_rrt :: "RRT \<times> Configuration mach" where
  "lab_rrt = RRT_new lab_mach (Fin 0) 0"

definition lab_task :: RRT where
  "lab_task = (fst lab_rrt)\<lparr>start_m := posture 0, goal_m := posture 2,
     properties_m := [(''eps'', ''1''), (''max-trials'', ''1'')]\<rparr>"

definition run_mach :: "Configuration mach" where
  "run_mach = snd lab_rrt"

definition lab_free :: "Configuration \<Rightarrow> bool" where
  "lab_free c = (c \<noteq> posture 1)"

subsection \<open>Its planner\<close>

lemma lab_check:
  assumes "customCollisionDetector_m pl = Some bumper" and "m_applyConfigFunc pl = (\<lambda>w c. (True, c))"
  shows "checkCollision_cfg pl c =
    Some (c = posture 1, (if c = posture 1 then (\<lambda>p. p\<lparr>collidingPair_m := (''robot'', ''wall'')\<rparr>) else (\<lambda>p. p))
      (pl\<lparr>world_m := c, timeForwardKinematics_calls := timeForwardKinematics_calls pl + 1,
          timeCollisionCheck_calls := timeCollisionCheck_calls pl + 1\<rparr>))"
  by (simp add: checkCollision_cfg_def setConfiguration_def checkCollision_now_def assms bumper_def Let_def)

lemma lab_decides: "decides lab_free lab"
  by (auto simp: decides_def lab_check lab_def lab_free_def)

lemma lab_wf: "cs_wf (cspace_m lab)"
  by (simp add: lab_def cs_wf_def)

lemma still_path: "interpolationDistance_m pl = Fin 1 \<Longrightarrow> Mobility_getPath pl still a b = Some [a, b]"
  by (simp add: Mobility_getPath_def still_def Let_def)

lemma two_ends: "checkCollision_path pl [a, b] = Some (False, pl)"
  by (simp add: checkCollision_path_def path_check_def div_loop.simps stride_loop.simps)

lemma still_reach: "interpolationDistance_m pl = Fin 1 \<Longrightarrow> isReachable pl still a b True = Some (True, pl)"
  by (simp add: isReachable_def still_path two_ends)

lemma lab_path: "Mobility_getPath lab still a b = Some [a, b]"
  by (rule still_path) (simp add: lab_def)

lemma lab_seg: "seg_free lab_free lab still a b"
  by (simp add: seg_free_def lab_path)

lemma lab_mobility: "mobility_m lab = Some still"
  by (simp add: lab_def)

lemma lab_planner: "planner lab_mach = lab" "planner run_mach = lab"
  by (simp_all add: lab_mach_def run_mach_def lab_rrt_def RRT_new_def Algorithm_new_def Roadmap_new_def Let_def)

section \<open>Configurations and their space\<close>

text \<open>A space of one dof without weight and with the bounds 0 and 0 accepts the value 5.\<close>

definition weightless :: ConfigurationSpace where
  "weightless = (ConfigurationSpace_new 1)\<lparr>m_weights := [Fin 0]\<rparr>"

theorem isValid_spec_witness:
  "isValid weightless \<lparr>m_values = [Fin 5]\<rparr> = Some True \<and>
    \<not> all_in_range weightless \<lparr>m_values = [Fin 5]\<rparr> \<and>
    isValid (cspace_m lab) (posture 0) = Some (cfg_size (posture 0) = m_size (cspace_m lab) \<and>
      dof_ok (cspace_m lab) (posture 0) 0)"
proof -
  have wf: "cs_wf weightless" by (simp add: weightless_def cs_wf_def ConfigurationSpace_new_def)
  have "isValid weightless \<lparr>m_values = [Fin 5]\<rparr> = Some True"
    using conjunct1 [OF isValid_spec [OF wf, of "\<lparr>m_values = [Fin 5]\<rparr>"]]
    by (simp add: weightless_def ConfigurationSpace_new_def cfg_size_def dof_ok_def)
  moreover have "\<not> all_in_range weightless \<lparr>m_values = [Fin 5]\<rparr>"
    by (simp add: weightless_def ConfigurationSpace_new_def all_in_range_def dle_def)
  moreover have "isValid (cspace_m lab) (posture 0) = Some (cfg_size (posture 0) = m_size (cspace_m lab) \<and>
      dof_ok (cspace_m lab) (posture 0) 0)"
    using conjunct1 [OF isValid_spec [OF lab_wf, of "posture 0"]] by (simp add: lab_def)
  ultimately show ?thesis by simp
qed

section \<open>Collision checks and paths\<close>

theorem checkCollision_path_correct_witness:
  "\<exists>pl'. checkCollision_path lab [posture 0, posture 1, posture 2] = Some (True, pl')"
proof -
  have "\<exists>i. 0 < i \<and> i < length [posture 0, posture 1, posture 2] - 1 \<and> \<not> lab_free ([posture 0, posture 1, posture 2] ! i)"
    by (intro exI [of _ 1]) (simp add: lab_free_def)
  then show ?thesis
    using checkCollision_path_correct [OF lab_decides, of "[posture 0, posture 1, posture 2]"] by auto
qed

theorem getPath_spec_witness:
  "length [posture 0, posture 2] = 0 + 2 \<and> hd [posture 0, posture 2] = posture 0 \<and> last [posture 0, posture 2] = posture 2"
proof -
  have "distance still (cspace_m lab) (posture 0) (posture 2) = Some (Fin 0)"
      "to_uint (ddiv (Fin 0) (interpolationDistance_m lab)) = Some 0"
    by (simp_all add: still_def lab_def)
  then show ?thesis using getPath_spec [OF lab_path, of "posture 0" "posture 2" "Fin 0" 0] by simp
qed

theorem isReachable_correct_witness:
  "isReachable lab still (posture 0) (posture 1) False = Some (True, lab) \<and>
    (\<exists>pl'. isReachable lab still (posture 0) (posture 1) True = Some (seg_free lab_free lab still (posture 0) (posture 1), pl'))"
  using isReachable_correct [OF lab_decides lab_path, of "posture 0" "posture 1"] by auto

section \<open>Roadmaps\<close>

text \<open>Two nodes with edges both ways, in a roadmap at address \<open>0\<close>.\<close>

definition pair_mach :: "Configuration mach" where
  "pair_mach = lab_mach\<lparr>nheap :=
     [0 \<mapsto> \<lparr>parents_m = [1], children_m = [1], pos_m = posture 0, visited_m = True\<rparr>,
      1 \<mapsto> \<lparr>parents_m = [0], children_m = [0], pos_m = posture 2, visited_m = False\<rparr>],
     next_node := 2, rheap := [0 \<mapsto> \<lparr>nodes_m = [0, 1], m_nEdges = 2\<rparr>], next_map := 1\<rparr>"

lemma pair_edges: "child_of (nheap pair_mach) p q \<longleftrightarrow> (p = 0 \<and> q = 1) \<or> (p = 1 \<and> q = 0)"
  by (auto simp: child_of_def pair_mach_def split: if_splits)

lemma pair_reached: "reached (nheap pair_mach) 0 \<subseteq> {0, 1}"
proof
  fix q assume "q \<in> reached (nheap pair_mach) 0"
  then have "(child_of (nheap pair_mach))\<^sup>*\<^sup>* 0 q" by (simp add: reached_def)
  then show "q \<in> {0, 1}" by (induction rule: rtranclp_induct) (auto simp: pair_edges)
qed

lemma pair_search: "search_ok pair_mach 0 0"
  using pair_reached unfolding search_ok_def by (auto simp: pair_mach_def)

theorem DFS_complete_and_sound_witness:
  "\<exists>path m'. DFS pair_mach 0 0 1 = Some (path, m') \<and> hd path = 0 \<and> last path = 1 \<and> path \<noteq> []"
proof -
  have "1 \<in> reached (nheap pair_mach) 0"
    by (auto simp: reached_def pair_edges intro: r_into_rtranclp)
  then show ?thesis using DFS_complete_and_sound [OF pair_search, of 1] by fastforce
qed

theorem findNearestNode_nearest_witness:
  "\<exists>p d. findNearestNode pair_mach 0 (posture 2) = Some (Some (p, d)) \<and> p \<in> {0, 1}"
proof -
  have "rheap pair_mach 0 = Some \<lparr>nodes_m = [0, 1], m_nEdges = 2\<rparr>" "mobility_m (planner pair_mach) = Some still"
    by (simp_all add: pair_mach_def lab_mach_def lab_def)
  then show ?thesis
    using findNearestNode_nearest [of pair_mach 0 "\<lparr>nodes_m = [0, 1], m_nEdges = 2\<rparr>" still "posture 2"]
    by (fastforce simp: node_distance_def node_position_def pair_mach_def still_def)
qed

theorem edges_mirrored_witness:
  "\<exists>m1. addEdge pair_mach 0 0 1 = Some m1 \<and> mirrored (nheap m1)"
proof -
  have "mirrored (nheap pair_mach)"
    by (auto simp: mirrored_def children_at_def parents_at_def pair_mach_def)
  moreover obtain m1 where "addEdge pair_mach 0 0 1 = Some m1"
    by (auto simp: addEdge_def addChild_def addParent_def pair_mach_def)
  ultimately show ?thesis using edges_mirrored [of pair_mach 0 0 1 m1] by blast
qed

section \<open>The base class of the algorithms\<close>

theorem setProperties_getProperties_witness:
  "getProperties (setProperties lab_task [(''alpha'', ''7''), (''eps'', ''2'')]) =
      ([''alpha'', ''eps'', ''max-trials''], [''7'', ''2'', ''1'']) \<and>
    map_of (zip [''alpha'', ''eps'', ''max-trials''] [''7'', ''2'', ''1'']) =
      map_of (properties_m lab_task) ++ map_of [(''alpha'', ''7''), (''eps'', ''2'')]"
proof -
  have wf: "smap_wf (properties_m lab_task)" "smap_wf [(''alpha'', ''7''), (''eps'', ''2'')]"
    by (simp add: lab_task_def smap_wf_def, code_simp)
  have "getProperties (setProperties lab_task [(''alpha'', ''7''), (''eps'', ''2'')]) =
      ([''alpha'', ''eps'', ''max-trials''], [''7'', ''2'', ''1''])"
    by (simp add: getProperties_def lab_task_def)
  then show ?thesis using setProperties_getProperties [OF wf] by blast
qed

theorem preparePlanning_correct_witness:
  "\<exists>ok m' r'. preparePlanning run_mach lab_task = Some (ok, m', r') \<and> path_m r' = [] \<and> isRunning_m r'"
  using preparePlanning_correct [of lab_free run_mach lab_task] lab_decides lab_wf
  by (auto simp: lab_planner)

theorem tryDirectConnection_correct_witness:
  "\<exists>m' r'. tryDirectConnection run_mach lab_task = Some (True, m', r') \<and>
    way (seg_free lab_free lab still) (start_m lab_task) (goal_m lab_task) (path_m r')"
proof -
  have "path_m lab_task = []"
    by (simp add: lab_task_def lab_rrt_def RRT_new_def Algorithm_new_def Roadmap_new_def Let_def Algorithm.defs
        RRT.defs setProperty_def)
  then show ?thesis
    using tryDirectConnection_correct [of lab_free run_mach still lab_task] lab_decides
    by (auto simp: lab_planner lab_mobility lab_path lab_seg)
qed

section \<open>Optimizers\<close>

theorem ShortcutOptimizer_keeps_way_witness:
  "\<exists>res m'. ShortcutOptimizer_optimize lab_mach [posture 0, posture 3, posture 2] = Some (res, m') \<and>
    way (seg_free lab_free lab still) (posture 0) (posture 2) res"
  using ShortcutOptimizer_keeps_way [of lab_free lab_mach still "posture 0" "posture 2" "[posture 0, posture 3, posture 2]"]
  by (auto simp: lab_planner lab_mobility lab_decides way_def lab_seg has_path_def lab_path)

text \<open>A generator whose first three values are \<open>0\<close>, \<open>1\<close>, \<open>1\<close>.\<close>

definition dice_mach :: "Configuration mach" where
  "dice_mach = lab_mach\<lparr>rsource := \<lparr>RAND_MAX = 2, rand_seq = (\<lambda>k. if k = 0 then 0 else 1)\<rparr>\<rparr>"

lemma dice_draw: "draw_segments (rsource dice_mach) (rand_calls dice_mach) 2 = Some (0, 1, Fin (1 / 2), Fin (1 / 2), 4)"
proof -
  have f: "rnd32 2 = Fin 2" "rnd32 1 = Fin 1" "rnd32 (1 / 2) = Fin (1 / 2)" by code_simp+
  have d: "rnd 2 = Fin 2" "rnd 1 = Fin 1" "rnd (1 / 2) = Fin (1 / 2)" by code_simp+
  have i: "random_index (rsource dice_mach) 0 2 = Some 0"
      "random_index (rsource dice_mach) 1 2 = Some 1"
    by (simp_all add: random_index_def dice_mach_def of_int_f_def f rnd32_def [of 0])
  have "draw_other (rsource dice_mach) 2 0 (Suc 0) = Some (1, 2)"
    using i(2) by (subst draw_other.simps) simp
  then show ?thesis
    using i(1) by (simp add: draw_segments_def dice_mach_def lab_mach_def rand_unit_def of_int_d_def d)
qed

theorem RandomShortcutOptimizer_keeps_ends_witness:
  "\<exists>res m'. RandomShortcutOptimizer_optimize dice_mach [posture 0, posture 3, posture 2] = Some (res, m') \<and>
    hd res = posture 0 \<and> last res = posture 2"
proof -
  let ?path = "[posture 0, posture 3, posture 2]"
  have pl: "planner dice_mach = lab" by (simp add: dice_mach_def lab_planner)
  have "\<exists>res m'. RandomShortcutOptimizer_optimize dice_mach ?path = Some (res, m')"
    using dice_draw still_reach [of lab]
    by (simp add: RandomShortcutOptimizer_optimize_def segment_point_def pl lab_mobility numeral_2_eq_2)
      (simp add: still_def lab_def)
  then obtain res m' where "RandomShortcutOptimizer_optimize dice_mach ?path = Some (res, m')" by blast
  then show ?thesis
    using RandomShortcutOptimizer_keeps_ends [of lab_free dice_mach still ?path res m']
    by (auto simp: pl lab_mobility lab_decides)
qed

text \<open>First a value 63 below the largest one, which is \<open>RAND_MAX\<close> as a \<open>float\<close>, then zeros.\<close>

definition high_rand :: rand_source where
  "high_rand = \<lparr>RAND_MAX = 2147483647, rand_seq = (\<lambda>k. if k = 0 then 2147483584 else 0)\<rparr>"

theorem RandomShortcutOptimizer_out_of_range_witness:
  "random_index high_rand 0 2 = Some 2 \<and> elem_at [posture 0, posture 3, posture 2] (2 + 1) = None \<and>
    RandomShortcutOptimizer_optimize (lab_mach\<lparr>rsource := high_rand\<rparr>) [posture 0, posture 3, posture 2] = None"
proof -
  have idx: "random_index high_rand 0 2 = Some 2"
    using random_index_out_of_range [of high_rand 0 2] by (simp add: high_rand_def)
  have "rnd32 0 = Fin 0" "rnd32 2147483647 = Fin 2147483648" "rnd32 2 = Fin 2" by code_simp+
  then have low: "random_index high_rand (Suc 0) 2 = Some 0"
    by (simp add: random_index_def high_rand_def of_int_f_def)
  have other: "draw_other high_rand 2 2 (Suc 0) = Some (0, 2)"
    by (subst draw_other.simps) (simp add: low)
  let ?m = "lab_mach\<lparr>rsource := high_rand\<rparr>" and ?path = "[posture 0, posture 3, posture 2]"
  have draw: "draw_segments high_rand 0 2 = Some (0, 2, rand_unit high_rand 2, rand_unit high_rand 3, 4)"
    by (simp add: draw_segments_def idx other)
  have m: "rsource ?m = high_rand" "rand_calls ?m = 0" by (simp_all add: lab_mach_def)
  have r: "RAND_MAX high_rand = 2147483647" "rand_seq high_rand 0 = 2147483584" by (simp_all add: high_rand_def)
  have n: "length ?path - 1 = 2" by simp
  show ?thesis
    using RandomShortcutOptimizer_out_of_range [of ?m ?path, unfolded m r n, OF refl _ _ _ _ draw] idx by simp
qed

section \<open>RRT\<close>

text \<open>
  One trial: the random configuration is the start itself and becomes a node; then the tree
  reaches the goal in one more step.
\<close>

lemma lab_rrt_eq:
  "lab_task = \<lparr>start_m = posture 0, goal_m = posture 2, properties_m = [(''eps'', ''1''), (''max-trials'', ''1'')],
     isRunning_m = False, path_m = [], roadmap_m = 0, verbose_m = False, ignoreCollisionAtStart_m = False,
     ignoreCollisionAtGoal_m = False, Tstart_m = 0, Tgoal_m = 1, TlastExtended_m = None, Ta_m = 0, Tb_m = 1,
     eps_m = Fin 0, times_m = 0, extendFromStart_m = True, extendFromGoal_m = False,
     extraConnectionCheckFunc_m = None\<rparr>"
  "run_mach = lab_mach\<lparr>rheap := [0 \<mapsto> \<lparr>nodes_m = [], m_nEdges = 0\<rparr>, 1 \<mapsto> \<lparr>nodes_m = [], m_nEdges = 0\<rparr>],
     next_map := 2\<rparr>"
  by (simp_all add: lab_task_def run_mach_def lab_rrt_def RRT_new_def Algorithm_new_def Roadmap_new_def Let_def
      Algorithm.defs RRT.defs setProperty_def lab_mach_def)

lemma lab_random: "cs_random (cspace_m lab) \<lparr>RAND_MAX = 2, rand_seq = (\<lambda>_. 0)\<rparr> 0 = Some (posture 0, Suc 0)"
  by code_simp

lemma lab_numbers: "c_atoi ''1'' = Some 1" "c_atof ''1'' = Fin 1"
  by code_simp+

lemma lab_run: "\<exists>m r. RRT_calcPath run_mach lab_task = Some (True, m, r)"
proof -
  note heap = RoadmapNode_new_def addNode_def addEdge_def addChild_def addParent_def grow_def Let_def
  note near = findNearestNode_def node_distance_def node_position_def
  have d: "\<And>cs a b. distance still cs a b = Some (Fin 0)" by (simp add: still_def)
  have reach: "\<And>pl a b. interpolationDistance_m pl = Fin 1 \<Longrightarrow> isReachable pl still a b True = Some (True, pl)"
    by (rule still_reach)
  have rand: "cs_random \<lparr>m_size = Suc 0, m_ubounds = [Fin 9], m_lbounds = [Fin 0], m_weights = [Fin 1],
      m_isUnboundedRotation = [False]\<rparr> \<lparr>RAND_MAX = 2, rand_seq = (\<lambda>_. 0)\<rparr> 0 = Some (\<lparr>m_values = [Fin 0]\<rparr>, Suc 0)"
    using lab_random by (simp add: lab_def posture_def)
  show ?thesis
    apply (simp add: lab_rrt_eq RRT_calcPath_def prop_index_def smap_index_def lab_numbers lab_mach_def heap)
    apply (simp add: extendOneStep_def rand RRT_extend_def near lab_def d heap extend_target_def
        extend_edge_def lab_check reach dle_def RRT_connect.simps posture_def)
    apply (simp add: extractPath_def lastAddedNode_def back_loop.simps node_position_def node_parent_def integrate_def)
    done
qed

theorem RRT_calcPath_sound_witness:
  "\<exists>m r. RRT_calcPath run_mach lab_task = Some (True, m, r) \<and>
    way (seg_free lab_free lab still) (posture 0) (posture 2) (path_m r)"
proof -
  obtain m r where run: "RRT_calcPath run_mach lab_task = Some (True, m, r)" using lab_run by blast
  have "rrt_ready run_mach lab_task"
    by (auto simp: rrt_ready_def lab_rrt_eq heap_fresh_def lab_mach_def tree_of_def intro: exI [of _ False])
  moreover have "start_m lab_task = posture 0" "goal_m lab_task = posture 2" by (simp_all add: lab_rrt_eq)
  ultimately show ?thesis
    using RRT_calcPath_sound [of lab_free run_mach still lab_task m r] run lab_decides
    by (auto simp: lab_planner lab_mobility)
qed

section \<open>PRM\<close>

text \<open>No random points: the two ends are connected to each other.\<close>

definition lab_prm :: "PRM \<times> Configuration mach" where
  "lab_prm = PRM_new lab_mach False False 0 (Fin 0)"

definition prm_task :: PRM where
  "prm_task = (fst lab_prm)\<lparr>start_m := posture 0, goal_m := posture 2,
     properties_m := [(''max-dist'', ''1''), (''max-points'', ''0'')]\<rparr>"

definition prm_mach :: "Configuration mach" where
  "prm_mach = snd lab_prm"

lemma lab_prm_eq:
  "prm_task = \<lparr>start_m = posture 0, goal_m = posture 2, properties_m = [(''max-dist'', ''1''), (''max-points'', ''0'')],
     isRunning_m = False, path_m = [], roadmap_m = 0, verbose_m = False, ignoreCollisionAtStart_m = False,
     ignoreCollisionAtGoal_m = False, maxPoints_m = 0, maxDist_m = Fin 0\<rparr>"
  "prm_mach = lab_mach\<lparr>rheap := [0 \<mapsto> \<lparr>nodes_m = [], m_nEdges = 0\<rparr>], next_map := 1\<rparr>"
  by (simp_all add: prm_task_def prm_mach_def lab_prm_def PRM_new_def Algorithm_new_def Roadmap_new_def Let_def
      Algorithm.defs PRM.defs setProperty_def lab_mach_def)

lemma prm_run: "\<exists>m p. PRM_calcPath prm_mach prm_task = Some (True, m, p)"
proof -
  note heap = RoadmapNode_new_def addNode_def addEdge_def addChild_def addParent_def Let_def
  have zero: "c_atoi ''0'' = Some 0" by code_simp
  have d: "\<And>cs a b. distance still cs a b = Some (Fin 0)" by (simp add: still_def)
  have rev: "isReversible still" by (simp add: still_def)
  have reach: "\<And>pl a b. interpolationDistance_m pl = Fin 1 \<Longrightarrow> isReachable pl still a b True = Some (True, pl)"
    by (rule still_reach)
  show ?thesis
    apply (simp add: lab_prm_eq PRM_calcPath_def prop_index_def smap_index_def lab_numbers zero lab_mach_def nNodes_def
        buildRoadmap_def create_loop.simps lab_def)
    apply (simp add: PRM_search_def add_ends_def heap nNodes_def Roadmap_node_def node_position_def connect_close_def d
        tryConnection_def connect_forward_def mach_isReachable_def reach rev upt_rec numeral_2_eq_2)
    apply (simp add: DFS_def set_visited_def dfs_loop.simps node_position_def)
    done
qed

theorem PRM_calcPath_sound_witness:
  "\<exists>m p. PRM_calcPath prm_mach prm_task = Some (True, m, p) \<and>
    way (seg_free lab_free lab still) (posture 0) (posture 2) (path_m p)"
proof -
  obtain m p where run: "PRM_calcPath prm_mach prm_task = Some (True, m, p)" using prm_run by blast
  have "prm_ready prm_mach prm_task"
    by (auto simp: prm_ready_def lab_prm_eq heap_fresh_def lab_mach_def)
  moreover have "planner prm_mach = lab" "start_m prm_task = posture 0" "goal_m prm_task = posture 2"
    by (simp_all add: lab_prm_eq lab_planner)
  moreover have "reversible_ok lab_free lab still" by (simp add: reversible_ok_def lab_seg)
  ultimately show ?thesis
    using PRM_calcPath_sound [of lab_free prm_mach still prm_task m p] run lab_decides
    by (auto simp: lab_mobility)
qed

section \<open>The world\<close>

definition box :: "Configuration Body" where
  "box = \<lparr>numLinks = 1, setLinkPosition = (\<lambda>_ w. w), linkHitsPointCloud = (\<lambda>_ _ _ _. False), body_name = ''box'',
     body_links = [4], nameToLinkMap = [(''base'', 4)], calcForwardKinematics = (\<lambda>w. w)\<rparr>"

theorem body_by_name_last_added_witness:
  "body_by_name (snd (addBody World_new box)) ''box'' = Some box"
  using body_by_name_last_added [OF bodies_ok_new(1), of "''box''" box] by (simp add: box_def)

theorem getIndexOfLinkPairs_numbering_witness:
  "\<exists>wd. getIndexOfLinkPairs (World_new :: Configuration World) 3 5 = ((0, False), wd) \<and>
    getIndexOfLinkPairs (ask_pairs [(5, 7), (7, 3)] wd) 5 3 = ((0, True), ask_pairs [(5, 7), (7, 3)] wd)"
proof -
  obtain wd where "getIndexOfLinkPairs (World_new :: Configuration World) 3 5 = ((0, False), wd)"
    by (simp add: getIndexOfLinkPairs_def World_new_def)
  then show ?thesis using getIndexOfLinkPairs_numbering [OF pairs_ok_new(1)] by fastforce
qed

section \<open>The planning engine\<close>

definition engine :: "Configuration PathPlanner" where
  "engine = \<lparr>mach_m = run_mach, algorithmFactory_m = [(''PRM'', AlgorithmCreate_PRM)], mobilityFactory_m = [],
     optimizerFactory_m = [], algorithmName_m = ''PRM'',
     algorithm_m = Some (RRT_object (lab_task\<lparr>properties_m := [(''interpolation-distance'', ''1'')]\<rparr>)),
     mobilityName_m = '''', waypoints_m = [], registry_m = snd (addBody World_new box)\<rparr>"

lemma engine_run: "\<exists>pp. pp_calcPath engine = Some (True, pp)"
proof -
  have v: "isValid (cspace_m lab) c = Some True" if "c = posture 0 \<or> c = posture 2" for c
    using that isValid_eq [OF lab_wf, of c] by (auto simp: lab_def posture_def cfg_size_def dof_ok_def)
  have n: "c_atof ''1'' = Fin 1" by (rule lab_numbers)
  show ?thesis
    apply (simp add: pp_calcPath_def engine_def refresh_def set_planner_def lab_rrt_eq wrap_def
        preparePlanning_def prop_index_def smap_index_def n Let_def)
    apply (simp add: check_end_def v [unfolded lab_def, simplified] lab_mach_def lab_def lab_check posture_def)
    apply (simp add: run_algorithm_def tryDirectConnection_def still_reach wrap_def)
    done
qed

theorem calcPath_getPath_free_witness:
  "\<exists>pp path. pp_calcPath engine = Some (True, pp) \<and> pp_getPath pp = Some path \<and> hd path = posture 0 \<and>
    last path = posture 2 \<and> (\<forall>c \<in> set path. c \<noteq> posture 1)"
proof -
  let ?al = "RRT_object (lab_task\<lparr>properties_m := [(''interpolation-distance'', ''1'')]\<rparr>)"
  obtain pp where run: "pp_calcPath engine = Some (True, pp)" using engine_run by blast
  have eng: "planner (mach_m engine) = lab" "algorithm_m engine = Some ?al" "mach_m engine = run_mach"
    by (simp_all add: engine_def lab_planner)
  have "rrt_ready run_mach (lab_task\<lparr>properties_m := ps\<rparr>)" for ps
    by (auto simp: rrt_ready_def lab_rrt_eq heap_fresh_def lab_mach_def tree_of_def intro: exI [of _ False])
  then have "object_ready (mach_m engine) ?al" "checks_ends ?al"
    by (simp_all add: eng checks_ends_def, simp add: lab_rrt_eq)
  moreover have "start_m (base_part ?al) = posture 0" "goal_m (base_part ?al) = posture 2"
    by (simp_all add: lab_rrt_eq)
  ultimately show ?thesis
    using calcPath_getPath_free [of lab_free engine still ?al pp] run eng lab_decides lab_wf lab_mobility
    by (fastforce simp: lab_free_def)
qed

theorem setAlgorithmName_unknown_witness:
  "algorithm_m (setAlgorithmName engine undefined ''prm'') = algorithm_m engine \<and>
    PathPlanner_delete (setAlgorithmName engine undefined ''prm'') = None"
  using setAlgorithmName_unknown [of engine "''prm''" _ "''PRM''" _ undefined]
  by (simp add: engine_def)

end
