(* ===== verification/ScannerModel.thy ===== *)
theory ScannerModel
  imports CStdlib "HOL-Library.Sublist"
begin

text \<open>
  \<open>hrplib/hrpUtil/EasyScanner.{h,cpp}\<close>: the lexical scanner under the VRML parser. The
  pointer \<open>text\<close> is the part of the buffer from it on, the terminating NUL included; an empty
  list is a pointer behind the buffer (or an unset one), and reading there is no normal
  return. \<open>throwException\<close> is the left side of a sum. The locale is C, a \<open>char\<close> is signed.
  The symbol table is shared between copies in the code; here a copy has the table as it was.
\<close>

section \<open>State\<close>

datatype TokenType = T_NONE | T_SPACE | T_ALPHABET | T_INTEGER | T_DOUBLE | T_WORD | T_STRING | T_SIGLUM | T_LF | T_EOF

record EasyScanner =
  intValue :: int
  doubleValue :: double
  stringValue :: string
  charValue :: char
  symbolValue :: int
  defaultErrorMessage :: string
  lineNumber :: int
  stext :: string
  filename :: string
  textBuf :: string
  lineNumberOffset :: int
  commentChar :: int
  quoteChar :: int
  isLineOriented :: bool
  whiteSpaceChars :: "int list"
  symbols :: "int smap"

record Exception =
  ex_message :: string
  ex_filename :: string
  ex_lineNumber :: int

definition NUL :: char where "NUL = CHR 0x00"

definition LF :: char where "LF = CHR 0x0A"

definition CR :: char where "CR = CHR 0x0D"

definition no_char :: int where "no_char = 65535"

section \<open>Floating point numbers without a locale\<close>

text \<open>\<open>pow10\<close> is the C library's \<open>pow (10.0, x)\<close>, whose last digit is not specified.\<close>

definition acc_digits :: "string \<Rightarrow> double" where
  "acc_digits ds = foldl (\<lambda>v c. dadd (dmul v (Fin 10)) (of_int_d (int (code c) - 48))) (Fin 0) ds"

definition acc_fraction :: "double \<Rightarrow> string \<Rightarrow> double" where
  "acc_fraction v ds =
     fst (foldl (\<lambda>(v, sm) c. (dadd v (dmul sm (of_int_d (int (code c) - 48))), dmul sm (rnd (1 / 10))))
            (v, rnd (1 / 10)) ds)"

text \<open>The part from the first digit on: the value, whether it is valid, and what is left.\<close>

definition fraction_part :: "double \<Rightarrow> bool \<Rightarrow> string \<Rightarrow> double \<times> bool \<times> string" where
  "fraction_part v valid s =
     (case s of
        c # r \<Rightarrow>
          if c = CHR ''.'' then
            (let ds = takeWhile c_isdigit r
             in if ds = [] then (v, False, r) else (acc_fraction v ds, True, dropWhile c_isdigit r))
          else (v, valid, s)
      | [] \<Rightarrow> (v, valid, s))"

definition exponent_part :: "(double \<Rightarrow> double) \<Rightarrow> double \<Rightarrow> bool \<Rightarrow> string \<Rightarrow> double \<times> bool \<times> string" where
  "exponent_part pow10 v valid s =
     (case s of
        c # r \<Rightarrow>
          if valid \<and> (c = CHR ''e'' \<or> c = CHR ''E'') then
            (let (pneg, t) = take_sign r; ds = takeWhile c_isdigit t
             in if ds = [] then (v, False, t)
                else (dmul v (pow10 (dmul (if pneg then Fin (- 1) else Fin 1) (acc_digits ds))), True, dropWhile c_isdigit t))
          else (v, valid, s)
      | [] \<Rightarrow> (v, valid, s))"

definition mystrtod_number :: "(double \<Rightarrow> double) \<Rightarrow> string \<Rightarrow> bool \<Rightarrow> string \<Rightarrow> double \<times> string" where
  "mystrtod_number pow10 org neg s =
     (let ds = takeWhile c_isdigit s;
          (v1, valid1, r1) = fraction_part (acc_digits ds) (ds \<noteq> []) (dropWhile c_isdigit s);
          (v2, valid2, r2) = exponent_part pow10 v1 valid1 r1
      in (dmul (if neg then Fin (- 1) else Fin 1) v2, if valid2 then r2 else org))"

definition is_n :: "char \<Rightarrow> bool" where "is_n c = (c = CHR ''n'' \<or> c = CHR ''N'')"

definition is_a :: "char \<Rightarrow> bool" where "is_a c = (c = CHR ''a'' \<or> c = CHR ''A'')"

text \<open>After \<open>n\<close> an \<open>a\<close> is required; after \<open>na\<close> another \<open>n\<close> is not.\<close>

definition mystrtod :: "(double \<Rightarrow> double) \<Rightarrow> string \<Rightarrow> double \<times> string" where
  "mystrtod pow10 org =
     (let (neg, s) = take_sign org
      in if s \<noteq> [] \<and> is_n (hd s) then
           (let s1 = tl s
            in if s1 \<noteq> [] \<and> is_a (hd s1) then
                 (let s2 = tl s1
                  in if s2 \<noteq> [] \<and> is_n (hd s2) then (NaN, tl s2) else mystrtod_number pow10 org neg s2)
               else (Fin 0, org))
         else mystrtod_number pow10 org neg s)"

section \<open>Exceptions and settings\<close>

definition getFullMessage :: "Exception \<Rightarrow> string" where
  "getFullMessage ex =
     ex_message ex
     @ (if 0 < ex_lineNumber ex then '' at line '' @ decimal_int (ex_lineNumber ex) else [])
     @ (if ex_filename ex \<noteq> [] then '' of '' @ ex_filename ex else [])"

text \<open>\<open>init\<close> leaves the values, \<open>text\<close> and \<open>lineNumber\<close> as the memory has them (\<open>mem\<close>).\<close>

definition EasyScanner_new :: "EasyScanner \<Rightarrow> EasyScanner" where
  "EasyScanner_new mem =
     mem\<lparr>stext := [], textBuf := [], lineNumberOffset := 1, commentChar := schar (CHR ''#''),
         quoteChar := no_char, isLineOriented := True,
         defaultErrorMessage := ''unknown error of the lexical scanner'',
         whiteSpaceChars := [schar (CHR '' ''), schar (CHR 0x09)], symbols := [], filename := [], stringValue := []\<rparr>"

text \<open>A copy with text starts at the head of the buffer, with the original's line number.\<close>

definition EasyScanner_copy :: "EasyScanner \<Rightarrow> EasyScanner \<Rightarrow> bool \<Rightarrow> EasyScanner" where
  "EasyScanner_copy mem org copyText =
     (let s = mem\<lparr>whiteSpaceChars := whiteSpaceChars org, commentChar := commentChar org,
                  quoteChar := quoteChar org, isLineOriented := isLineOriented org, filename := filename org,
                  defaultErrorMessage := defaultErrorMessage org, lineNumber := lineNumber org,
                  lineNumberOffset := lineNumberOffset org, symbols := symbols org, stringValue := []\<rparr>
      in if copyText \<and> textBuf org \<noteq> [] then s\<lparr>textBuf := textBuf org, stext := textBuf org\<rparr>
         else s\<lparr>textBuf := [], stext := []\<rparr>)"

definition setText :: "EasyScanner \<Rightarrow> string \<Rightarrow> EasyScanner" where
  "setText s txt =
     s\<lparr>textBuf := txt @ [NUL], stext := txt @ [NUL], lineNumber := lineNumberOffset s, filename := []\<rparr>"

definition setLineNumberOffset :: "EasyScanner \<Rightarrow> int \<Rightarrow> EasyScanner" where
  "setLineNumberOffset s offset = s\<lparr>lineNumberOffset := offset\<rparr>"

definition moveToHead :: "EasyScanner \<Rightarrow> EasyScanner" where
  "moveToHead s = s\<lparr>stext := textBuf s, lineNumber := lineNumberOffset s\<rparr>"

text \<open>The exception; without a message the default one is used.\<close>

definition throwException :: "EasyScanner \<Rightarrow> string option \<Rightarrow> Exception" where
  "throwException s msg =
     \<lparr>ex_message = (case msg of Some m \<Rightarrow> m | None \<Rightarrow> defaultErrorMessage s), ex_filename = filename s,
      ex_lineNumber = lineNumber s\<rparr>"

definition setCommentChar :: "EasyScanner \<Rightarrow> char \<Rightarrow> EasyScanner" where
  "setCommentChar s cc = s\<lparr>commentChar := (if cc \<noteq> NUL then schar cc else no_char)\<rparr>"

definition setLineOriented :: "EasyScanner \<Rightarrow> bool \<Rightarrow> EasyScanner" where
  "setLineOriented s on = s\<lparr>isLineOriented := on\<rparr>"

definition setWhiteSpaceChar :: "EasyScanner \<Rightarrow> char \<Rightarrow> EasyScanner" where
  "setWhiteSpaceChar s ws = s\<lparr>whiteSpaceChars := whiteSpaceChars s @ [schar ws]\<rparr>"

definition setQuoteChar :: "EasyScanner \<Rightarrow> char \<Rightarrow> EasyScanner" where
  "setQuoteChar s qs = s\<lparr>quoteChar := schar qs\<rparr>"

definition setDefaultErrorMessage :: "EasyScanner \<Rightarrow> string \<Rightarrow> EasyScanner" where
  "setDefaultErrorMessage s msg = s\<lparr>defaultErrorMessage := msg\<rparr>"

definition registerSymbol :: "EasyScanner \<Rightarrow> int \<Rightarrow> string \<Rightarrow> EasyScanner" where
  "registerSymbol s i name = s\<lparr>symbols := smap_insert name i (symbols s)\<rparr>"

definition getSymbolID :: "EasyScanner \<Rightarrow> string \<Rightarrow> int" where
  "getSymbolID s name = (case map_of (symbols s) name of Some i \<Rightarrow> i | None \<Rightarrow> 0)"

text \<open>What opening the file gives; a scanner that throws keeps the error state.\<close>

datatype file_access = ENOENT | Other_error | Contents string

definition loadFile :: "(string \<Rightarrow> file_access) \<Rightarrow> EasyScanner \<Rightarrow> string \<Rightarrow> (Exception + unit) \<times> EasyScanner" where
  "loadFile files s name =
     (let s1 = s\<lparr>filename := []\<rparr>; s2 = s1\<lparr>lineNumber := -1\<rparr>
      in case files name of
           ENOENT \<Rightarrow> (Inl (throwException s2 (Some (name @ '' cannot be found.''))), s2)
         | Other_error \<Rightarrow> (Inl (throwException s2 (Some (''I/O error in accessing '' @ name))), s2)
         | Contents txt \<Rightarrow>
             (Inr (), s1\<lparr>filename := name, textBuf := txt @ [NUL], stext := txt @ [NUL],
                         lineNumber := lineNumberOffset s1\<rparr>))"

section \<open>Moving over the text\<close>

text \<open>Characters are skipped while \<open>P\<close> holds.\<close>

fun advance :: "(char \<Rightarrow> bool) \<Rightarrow> string \<Rightarrow> string option" where
  "advance P [] = None"
| "advance P (c # cs) = (if P c then advance P cs else Some (c # cs))"

text \<open>The characters between two positions.\<close>

definition taken :: "string \<Rightarrow> string \<Rightarrow> string" where
  "taken org t = take (length org - length t) org"

definition not_line_end :: "char \<Rightarrow> bool" where
  "not_line_end c = (c \<noteq> CR \<and> c \<noteq> LF \<and> c \<noteq> NUL)"

definition skipToLineEnd :: "string \<Rightarrow> string option" where
  "skipToLineEnd t = advance not_line_end t"

text \<open>One line end: \<open>LF\<close>, \<open>CR\<close> or both.\<close>

fun eat_newline :: "string \<Rightarrow> (bool \<times> string) option" where
  "eat_newline [] = None"
| "eat_newline (c # cs) =
     (if c = LF then Some (True, cs)
      else if c = CR then
        (case cs of [] \<Rightarrow> None | d # ds \<Rightarrow> Some (True, if d = LF then ds else cs))
      else Some (False, c # cs))"

definition skip_blanks :: "int list \<Rightarrow> int \<Rightarrow> string \<Rightarrow> string option" where
  "skip_blanks ws cc t =
     do { t1 \<leftarrow> advance (\<lambda>c. schar c \<in> set ws) t;
          case t1 of
            [] \<Rightarrow> None
          | c # cs \<Rightarrow> if schar c = cc then skipToLineEnd cs else Some t1 }"

partial_function (option) skipSpace_loop :: "int list \<Rightarrow> int \<Rightarrow> bool \<Rightarrow> string \<Rightarrow> int \<Rightarrow> (string \<times> int) option" where
  "skipSpace_loop ws cc lineOriented t n =
     do { t1 \<leftarrow> skip_blanks ws cc t;
          if lineOriented then Some (t1, n)
          else do { (nl, t2) \<leftarrow> eat_newline t1;
                    if nl then skipSpace_loop ws cc lineOriented t2 (n + 1) else Some (t1, n) } }"

declare skipSpace_loop.simps [code]

definition skipSpace :: "EasyScanner \<Rightarrow> EasyScanner option" where
  "skipSpace s =
     do { (t, n) \<leftarrow> skipSpace_loop (whiteSpaceChars s) (commentChar s) (isLineOriented s) (stext s) (lineNumber s);
          Some (s\<lparr>stext := t, lineNumber := n\<rparr>) }"

definition readLF0 :: "EasyScanner \<Rightarrow> (bool \<times> EasyScanner) option" where
  "readLF0 s =
     do { (nl, t) \<leftarrow> eat_newline (stext s);
          Some (nl, if nl then s\<lparr>stext := t, lineNumber := lineNumber s + 1\<rparr> else s) }"

definition readLF :: "EasyScanner \<Rightarrow> (bool \<times> EasyScanner) option" where
  "readLF s = do { s1 \<leftarrow> skipSpace s; readLF0 s1 }"

definition peek :: "EasyScanner \<Rightarrow> char option" where
  "peek s = (case stext s of [] \<Rightarrow> None | c # _ \<Rightarrow> Some c)"

definition isEOF :: "EasyScanner \<Rightarrow> (bool \<times> EasyScanner) option" where
  "isEOF s = do { s1 \<leftarrow> skipSpace s; c \<leftarrow> peek s1; Some (c = NUL, s1) }"

definition readLFEOF :: "EasyScanner \<Rightarrow> (bool \<times> EasyScanner) option" where
  "readLFEOF s =
     do { s1 \<leftarrow> skipSpace s; (nl, s2) \<leftarrow> readLF0 s1;
          if nl then Some (True, s2) else do { c \<leftarrow> peek s2; Some (c = NUL, s2) } }"

text \<open>Only the position is put back when a line end was found, not the line number.\<close>

definition checkLF :: "EasyScanner \<Rightarrow> (bool \<times> EasyScanner) option" where
  "checkLF s =
     do { (nl, s1) \<leftarrow> readLF s; Some (nl, if nl then s1\<lparr>stext := stext s\<rparr> else s1) }"

section \<open>Reading\<close>

definition set_text :: "EasyScanner \<Rightarrow> string \<Rightarrow> EasyScanner" where
  "set_text s t = s\<lparr>stext := t\<rparr>"

text \<open>
  The closing quote: \<open>Some None\<close> when there is none. A quoted string may span lines when the
  scanner is not line oriented; the line end is skipped before the quote is looked for, also
  when the text ends there.
\<close>

fun quoted_line :: "int \<Rightarrow> string \<Rightarrow> string option option" where
  "quoted_line q [] = None"
| "quoted_line q (c # cs) =
     (if \<not> not_line_end c then Some None
      else if schar c = q then Some (Some (c # cs))
      else quoted_line q cs)"

partial_function (option) quoted_text :: "int \<Rightarrow> string \<Rightarrow> int \<Rightarrow> (string option \<times> int) option" where
  "quoted_text q t n =
     (case t of
        [] \<Rightarrow> None
      | c # _ \<Rightarrow>
          if c = NUL then Some (None, n)
          else do {
            (nl, t1) \<leftarrow> eat_newline t;
            let n1 = (if nl then n + 1 else n)
            in case t1 of
                 [] \<Rightarrow> None
               | d # ds \<Rightarrow> if schar d = q then Some (Some t1, n1) else quoted_text q ds n1 })"

declare quoted_text.simps [code]

definition extractQuotedString :: "EasyScanner \<Rightarrow> (bool \<times> EasyScanner) option" where
  "extractQuotedString s =
     (case stext s of
        [] \<Rightarrow> None
      | _ # org \<Rightarrow>
          do { (close, n) \<leftarrow> (if isLineOriented s then map_option (\<lambda>r. (r, lineNumber s)) (quoted_line (quoteChar s) org)
                              else quoted_text (quoteChar s) org (lineNumber s));
               case close of
                 None \<Rightarrow> Some (False, s\<lparr>stext := org, lineNumber := n\<rparr>)
               | Some t \<Rightarrow> Some (True, s\<lparr>stext := tl t, lineNumber := n, stringValue := taken org t\<rparr>) })"

text \<open>\<open>readToken\<close> after the blanks: a number, a name, or one character.\<close>

definition read_number :: "(double \<Rightarrow> double) \<Rightarrow> EasyScanner \<Rightarrow> char \<Rightarrow> TokenType \<times> EasyScanner" where
  "read_number pow10 s c =
     (let (v, t) = c_strtol (stext s); s1 = s\<lparr>intValue := to_int32 v\<rparr>
      in if t \<noteq> stext s then (T_INTEGER, set_text s1 t)
         else
           let (d, t') = mystrtod pow10 (stext s); s2 = s1\<lparr>doubleValue := d\<rparr>
           in if t' \<noteq> stext s then (T_DOUBLE, set_text s2 t')
              else (T_SIGLUM, s2\<lparr>charValue := c, stext := tl (stext s)\<rparr>))"

definition read_name :: "EasyScanner \<Rightarrow> char \<Rightarrow> (TokenType \<times> EasyScanner) option" where
  "read_name s c =
     do { t \<leftarrow> advance (\<lambda>d. c_isalnum d \<or> d = CHR ''_'') (tl (stext s));
          let w = taken (stext s) t; s1 = s\<lparr>stext := t, stringValue := w\<rparr>
          in if length w = 1 then Some (T_ALPHABET, s1\<lparr>charValue := c\<rparr>) else Some (T_WORD, s1) }"

definition readToken :: "(double \<Rightarrow> double) \<Rightarrow> EasyScanner \<Rightarrow> (TokenType \<times> EasyScanner) option" where
  "readToken pow10 s0 =
     do { s \<leftarrow> skipSpace s0;
          c \<leftarrow> peek s;
          if c_isdigit c \<or> c = CHR ''+'' \<or> c = CHR ''-'' then Some (read_number pow10 s c)
          else if c_isalpha c then read_name s c
          else if schar c = quoteChar s then
            do { (ok, s1) \<leftarrow> extractQuotedString s; Some (if ok then T_STRING else T_SIGLUM, s1) }
          else if c_ispunct c then Some (T_SIGLUM, s\<lparr>charValue := c, stext := tl (stext s)\<rparr>)
          else do {
            (nl, s1) \<leftarrow> readLF0 s;
            Some (if nl then T_LF else if c = NUL then T_EOF else T_NONE, s1) } }"

definition toLower :: "EasyScanner \<Rightarrow> EasyScanner" where
  "toLower s = s\<lparr>stringValue := map c_tolower (stringValue s)\<rparr>"

definition readDouble :: "(double \<Rightarrow> double) \<Rightarrow> EasyScanner \<Rightarrow> (bool \<times> EasyScanner) option" where
  "readDouble pow10 s0 =
     do { (nl, s) \<leftarrow> checkLF s0;
          if nl then Some (False, s)
          else let (d, t) = mystrtod pow10 (stext s); s1 = s\<lparr>doubleValue := d\<rparr>
               in Some (if t \<noteq> stext s then (True, set_text s1 t) else (False, s1)) }"

definition readInt :: "EasyScanner \<Rightarrow> (bool \<times> EasyScanner) option" where
  "readInt s0 =
     do { (nl, s) \<leftarrow> checkLF s0;
          if nl then Some (False, s)
          else let (v, t) = c_strtol (stext s); s1 = s\<lparr>intValue := to_int32 v\<rparr>
               in Some (if t \<noteq> stext s then (True, set_text s1 t) else (False, s1)) }"

definition readChar :: "EasyScanner \<Rightarrow> (bool \<times> EasyScanner) option" where
  "readChar s0 =
     do { s \<leftarrow> skipSpace s0; c \<leftarrow> peek s;
          Some (if c_isgraph c then (True, s\<lparr>charValue := c, stext := tl (stext s)\<rparr>) else (False, s)) }"

definition readChar_is :: "EasyScanner \<Rightarrow> int \<Rightarrow> (bool \<times> EasyScanner) option" where
  "readChar_is s0 chara =
     do { s \<leftarrow> skipSpace s0; c \<leftarrow> peek s;
          Some (if schar c = chara then (True, set_text s (tl (stext s))) else (False, s)) }"

definition peekChar :: "EasyScanner \<Rightarrow> (int \<times> EasyScanner) option" where
  "peekChar s0 = do { s \<leftarrow> skipSpace s0; c \<leftarrow> peek s; Some (schar c, s) }"

text \<open>The longest run of characters that satisfy \<open>P\<close> becomes the string value, unless it is empty.\<close>

definition read_run :: "(char \<Rightarrow> bool) \<Rightarrow> EasyScanner \<Rightarrow> (bool \<times> EasyScanner) option" where
  "read_run P s =
     do { t \<leftarrow> advance P (stext s);
          Some (if t \<noteq> stext s then (True, s\<lparr>stext := t, stringValue := taken (stext s) t\<rparr>) else (False, s)) }"

definition word_char :: "char \<Rightarrow> bool" where
  "word_char c = (c_isalnum c \<or> \<not> c_isascii c \<or> c = CHR ''_'')"

definition readWord0 :: "EasyScanner \<Rightarrow> (bool \<times> EasyScanner) option" where
  "readWord0 s = read_run word_char s"

definition readWord :: "EasyScanner \<Rightarrow> (bool \<times> EasyScanner) option" where
  "readWord s0 = do { s \<leftarrow> skipSpace s0; readWord0 s }"

definition string_char :: "int \<Rightarrow> char \<Rightarrow> bool" where
  "string_char delimiterChar c = (\<not> c_isspace c \<and> \<not> c_iscntrl c \<and> int (code c) \<noteq> delimiterChar)"

definition readString0 :: "EasyScanner \<Rightarrow> int \<Rightarrow> (bool \<times> EasyScanner) option" where
  "readString0 s delimiterChar = read_run (string_char delimiterChar) s"

definition readString :: "EasyScanner \<Rightarrow> int \<Rightarrow> (bool \<times> EasyScanner) option" where
  "readString s0 delimiterChar = do { s \<leftarrow> skipSpace s0; readString0 s delimiterChar }"

text \<open>A given string has to come next; else the position stays behind the blanks.\<close>

fun match_text :: "string \<Rightarrow> string \<Rightarrow> string option option" where
  "match_text [] t = Some (Some t)"
| "match_text (p # ps) [] = None"
| "match_text (p # ps) (c # cs) = (if p \<noteq> c then Some None else match_text ps cs)"

definition readString_is :: "EasyScanner \<Rightarrow> string \<Rightarrow> (bool \<times> EasyScanner) option" where
  "readString_is s0 str =
     do { s \<leftarrow> skipSpace s0;
          res \<leftarrow> match_text str (stext s);
          Some (case res of Some t \<Rightarrow> (True, set_text s t) | None \<Rightarrow> (False, s)) }"

definition readQuotedString :: "EasyScanner \<Rightarrow> bool \<Rightarrow> (bool \<times> EasyScanner) option" where
  "readQuotedString s0 allowNoQuotedWord =
     do { s \<leftarrow> skipSpace s0; c \<leftarrow> peek s;
          if schar c = quoteChar s then extractQuotedString s
          else if allowNoQuotedWord then readString0 s (schar (CHR '' ''))
          else Some (False, s) }"

definition readUnquotedTextBlock :: "EasyScanner \<Rightarrow> (bool \<times> EasyScanner) option" where
  "readUnquotedTextBlock s0 =
     do { s \<leftarrow> skipSpace s0; read_run (\<lambda>c. not_line_end c \<and> schar c \<noteq> commentChar s) s }"

definition readSymbol :: "EasyScanner \<Rightarrow> (bool \<times> EasyScanner) option" where
  "readSymbol s0 =
     do { (ok, s) \<leftarrow> readWord s0;
          if ok then (let i = getSymbolID s (stringValue s) in Some (i \<noteq> 0, s\<lparr>symbolValue := i\<rparr>))
          else Some (False, s) }"

text \<open>Position and line number go back when another word comes next.\<close>

definition readSymbol_is :: "EasyScanner \<Rightarrow> int \<Rightarrow> (bool \<times> EasyScanner) option" where
  "readSymbol_is s0 i =
     do { (ok, s) \<leftarrow> readWord s0;
          if ok then
            (let j = getSymbolID s (stringValue s); s1 = s\<lparr>symbolValue := j\<rparr>
             in Some (if j = i then (True, s1) else (False, s1\<lparr>stext := stext s0, lineNumber := lineNumber s0\<rparr>)))
          else Some (False, s) }"

text \<open>Lines. The line read is everything before its line end, which is \<open>LF\<close> or \<open>CR LF\<close> here.\<close>

fun skip_line :: "string \<Rightarrow> (bool \<times> string) option" where
  "skip_line [] = None"
| "skip_line (c # cs) =
     do { (nl, t) \<leftarrow> eat_newline (c # cs);
          if nl then Some (True, t)
          else if c = NUL then Some (False, c # cs)
          else skip_line cs }"

definition skipLine :: "EasyScanner \<Rightarrow> (bool \<times> EasyScanner) option" where
  "skipLine s =
     do { (nl, t) \<leftarrow> skip_line (stext s);
          Some (nl, s\<lparr>stext := t, lineNumber := lineNumber s + (if nl then 1 else 0)\<rparr>) }"

text \<open>
  The end of the line is found by looking back from the new position; \<open>before\<close> is the buffer
  up to there, last character first. Looking behind the head of the buffer, or ending before
  the old position, is no normal return.
\<close>

definition line_length :: "string \<Rightarrow> nat \<Rightarrow> nat option" where
  "line_length before n =
     (case before of
        [] \<Rightarrow> None
      | c # cs \<Rightarrow>
          if c \<noteq> LF then Some n
          else (case cs of
                  [] \<Rightarrow> None
                | d # _ \<Rightarrow> if d \<noteq> CR then Some (n - 1) else if n < 2 then None else Some (n - 2)))"

definition readLine :: "EasyScanner \<Rightarrow> (bool \<times> EasyScanner) option" where
  "readLine s0 =
     do { (ok, s) \<leftarrow> skipLine s0;
          if \<not> ok then Some (False, s)
          else do {
            k \<leftarrow> line_length (rev (taken (textBuf s) (stext s))) (length (stext s0) - length (stext s));
            Some (True, s\<lparr>stringValue := take k (stext s0)\<rparr>) } }"

partial_function (option) skipBlankLines :: "EasyScanner \<Rightarrow> (bool \<times> EasyScanner) option" where
  "skipBlankLines s =
     do { c \<leftarrow> peek s;
          if c = NUL then Some (False, s)
          else do { (nl, s1) \<leftarrow> readLF s; if nl then skipBlankLines s1 else Some (True, s1) } }"

declare skipBlankLines.simps [code]

section \<open>Readers that throw\<close>

text \<open>A failed read throws with the message given, or the default one.\<close>

definition or_throw :: "(bool \<times> EasyScanner) option \<Rightarrow> (EasyScanner \<Rightarrow> 'a) \<Rightarrow> string option \<Rightarrow> ((Exception + 'a) \<times> EasyScanner) option" where
  "or_throw res value msg =
     do { (ok, s) \<leftarrow> res; Some (if ok then Inr (value s) else Inl (throwException s msg), s) }"

definition readIntEx :: "EasyScanner \<Rightarrow> string option \<Rightarrow> ((Exception + int) \<times> EasyScanner) option" where
  "readIntEx s msg = or_throw (readInt s) intValue msg"

definition readDoubleEx :: "(double \<Rightarrow> double) \<Rightarrow> EasyScanner \<Rightarrow> string option \<Rightarrow> ((Exception + double) \<times> EasyScanner) option" where
  "readDoubleEx pow10 s msg = or_throw (readDouble pow10 s) doubleValue msg"

definition readCharEx :: "EasyScanner \<Rightarrow> string option \<Rightarrow> ((Exception + int) \<times> EasyScanner) option" where
  "readCharEx s msg = or_throw (readChar s) (\<lambda>s'. schar (charValue s')) msg"

definition readCharEx_is :: "EasyScanner \<Rightarrow> int \<Rightarrow> string option \<Rightarrow> ((Exception + unit) \<times> EasyScanner) option" where
  "readCharEx_is s chara msg = or_throw (readChar_is s chara) (\<lambda>_. ()) msg"

definition readWordEx :: "EasyScanner \<Rightarrow> string option \<Rightarrow> ((Exception + string) \<times> EasyScanner) option" where
  "readWordEx s msg = or_throw (readWord s) stringValue msg"

definition readStringEx :: "EasyScanner \<Rightarrow> string option \<Rightarrow> ((Exception + string) \<times> EasyScanner) option" where
  "readStringEx s msg = or_throw (readString s (schar (CHR '',''))) stringValue msg"

definition readQuotedStringEx :: "EasyScanner \<Rightarrow> string option \<Rightarrow> ((Exception + string) \<times> EasyScanner) option" where
  "readQuotedStringEx s msg = or_throw (readQuotedString s False) stringValue msg"

definition readSymbolEx :: "EasyScanner \<Rightarrow> string option \<Rightarrow> ((Exception + int) \<times> EasyScanner) option" where
  "readSymbolEx s msg = or_throw (readSymbol s) symbolValue msg"

definition readLFex :: "EasyScanner \<Rightarrow> string option \<Rightarrow> ((Exception + unit) \<times> EasyScanner) option" where
  "readLFex s msg = or_throw (readLF s) (\<lambda>_. ()) msg"

definition readLFEOFex :: "EasyScanner \<Rightarrow> string option \<Rightarrow> ((Exception + unit) \<times> EasyScanner) option" where
  "readLFEOFex s msg = or_throw (readLFEOF s) (\<lambda>_. ()) msg"

text \<open>The operators \<open>>>\<close>. A failed match of text has consumed the offending character.\<close>

definition cannot_read :: "string \<Rightarrow> string" where
  "cannot_read what = ''scan error: can'' @ [CHR 0x27] @ ''t read '' @ what"

definition get_double :: "(double \<Rightarrow> double) \<Rightarrow> EasyScanner \<Rightarrow> ((Exception + double) \<times> EasyScanner) option" where
  "get_double pow10 s = or_throw (readDouble pow10 s) doubleValue (Some (cannot_read ''double value''))"

definition get_int :: "EasyScanner \<Rightarrow> ((Exception + int) \<times> EasyScanner) option" where
  "get_int s = or_throw (readInt s) intValue (Some (cannot_read ''int value''))"

fun match_op :: "string \<Rightarrow> string \<Rightarrow> (bool \<times> string) option" where
  "match_op [] t = Some (True, t)"
| "match_op (p # ps) [] = None"
| "match_op (p # ps) (c # cs) = (if p \<noteq> c then Some (False, cs) else match_op ps cs)"

definition get_match :: "EasyScanner \<Rightarrow> string \<Rightarrow> ((Exception + unit) \<times> EasyScanner) option" where
  "get_match s0 str =
     do { s \<leftarrow> skipSpace s0; (ok, t) \<leftarrow> match_op str (stext s);
          or_throw (Some (ok, set_text s t)) (\<lambda>_. ()) (Some ''scan error: unmatched string'') }"

definition get_char :: "EasyScanner \<Rightarrow> char \<Rightarrow> ((Exception + unit) \<times> EasyScanner) option" where
  "get_char s0 matchChar =
     do { s \<leftarrow> skipSpace s0; (ok, t) \<leftarrow> match_op [matchChar] (stext s);
          or_throw (Some (ok, set_text s t)) (\<lambda>_. ()) (Some ''scan error: unmatched cahracter'') }"

definition get_string :: "EasyScanner \<Rightarrow> ((Exception + string) \<times> EasyScanner) option" where
  "get_string s0 =
     do { s \<leftarrow> skipSpace s0; or_throw (readQuotedString s True) stringValue (Some (cannot_read ''string'')) }"

definition get_endl :: "EasyScanner \<Rightarrow> ((Exception + unit) \<times> EasyScanner) option" where
  "get_endl s = or_throw (readLF s) (\<lambda>_. ()) (Some ''scan error: end of line unmatched'')"

end
