(* ===== verification/ScannerProofs.thy ===== *)
theory ScannerProofs
  imports ScannerModel
begin

text \<open>
  What holds of the scanner: it stays inside its buffer, it counts lines (where it does), and
  it reads back what was written; and the inputs on which it does not.
\<close>

section \<open>Inside the buffer\<close>

text \<open>A position from which a NUL is ahead.\<close>

definition ends :: "string \<Rightarrow> bool" where
  "ends t \<longleftrightarrow> t \<noteq> [] \<and> last t = NUL"

lemma ends_suffix: "ends t \<Longrightarrow> suffix t' t \<Longrightarrow> t' \<noteq> [] \<Longrightarrow> ends t'"
  by (auto simp: ends_def suffix_def)

lemma ends_tail: "ends (c # cs) \<Longrightarrow> c \<noteq> NUL \<Longrightarrow> ends cs"
  by (auto simp: ends_def split: if_splits)

lemma not_NUL [simp]: "LF \<noteq> NUL" "CR \<noteq> NUL" "NUL \<noteq> LF" "NUL \<noteq> CR" "LF \<noteq> CR" "CR \<noteq> LF"
  by (simp_all add: LF_def CR_def NUL_def)

lemma schar_NUL: "schar c = 0 \<longleftrightarrow> c = NUL"
proof
  assume "schar c = 0"
  then have "code c = 0" using code_less [of c] unfolding schar_def by (auto split: if_splits)
  then have "char_of (0 :: nat) = c" unfolding code_def by (metis char_of_char)
  then show "c = NUL" by (simp add: NUL_def char_of_def)
qed (simp add: schar_def code_def NUL_def)

lemma advance_ends:
  "\<not> P NUL \<Longrightarrow> ends t \<Longrightarrow> \<exists>t'. advance P t = Some t' \<and> suffix t' t \<and> ends t' \<and> \<not> P (hd t')"
proof (induction t)
  case (Cons c cs)
  show ?case
  proof (cases "P c")
    case True
    then have "ends cs" using Cons.prems ends_tail [of c cs] by auto
    then show ?thesis using Cons True suffix_ConsI by fastforce
  qed (use Cons.prems in auto)
qed (simp add: ends_def)

lemma eat_newline_ends:
  assumes "ends t"
  shows "\<exists>nl t'. eat_newline t = Some (nl, t') \<and> suffix t' t \<and> ends t' \<and>
    (if nl then length t' < length t else t' = t \<and> hd t \<noteq> LF \<and> hd t \<noteq> CR)"
proof -
  obtain c cs where t: "t = c # cs" using assms by (cases t) (auto simp: ends_def)
  consider "c = LF" | "c = CR" | "c \<noteq> LF" "c \<noteq> CR" by blast
  then show ?thesis
  proof cases
    case 1
    then show ?thesis using assms ends_tail [of c cs] by (auto simp: t suffix_ConsI)
  next
    case 2
    then have e: "ends cs" using assms ends_tail [of c cs] by (simp add: t)
    then obtain d ds where cs: "cs = d # ds" by (cases cs) (auto simp: ends_def)
    then show ?thesis using 2 e ends_tail [of d ds] by (auto simp: t suffix_ConsI)
  next
    case 3
    then show ?thesis using assms by (auto simp: t)
  qed
qed

lemma skip_blanks_ends:
  assumes "0 \<notin> set ws" and "cc \<noteq> 0" and "ends t"
  shows "\<exists>t'. skip_blanks ws cc t = Some t' \<and> suffix t' t \<and> ends t'"
proof -
  have "schar NUL \<notin> set ws" using assms(1) by (simp add: schar_NUL [THEN iffD2])
  then obtain t1 where t1: "advance (\<lambda>c. schar c \<in> set ws) t = Some t1" "suffix t1 t" "ends t1"
    using advance_ends [of "\<lambda>c. schar c \<in> set ws" t] assms(3) by blast
  obtain c cs where cs: "t1 = c # cs" using t1(3) by (cases t1) (auto simp: ends_def)
  show ?thesis
  proof (cases "schar c = cc")
    case True
    then have "c \<noteq> NUL" using assms(2) schar_NUL by auto
    then have "ends cs" using t1(3) ends_tail unfolding cs by blast
    moreover have "\<not> not_line_end NUL" by (simp add: not_line_end_def)
    ultimately obtain t2 where t2: "skipToLineEnd cs = Some t2" "suffix t2 cs" "ends t2"
      using advance_ends [of not_line_end cs] unfolding skipToLineEnd_def by blast
    have "suffix t2 t1" unfolding cs by (rule suffix_ConsI [OF t2(2)])
    then have "suffix t2 t" by (rule suffix_order.order_trans [OF _ t1(2)])
    then show ?thesis using t1 t2 True by (simp add: skip_blanks_def cs)
  qed (use t1 in \<open>auto simp: skip_blanks_def cs\<close>)
qed

lemma skipSpace_loop_ends:
  assumes "0 \<notin> set ws" and "cc \<noteq> 0"
  shows "ends t \<Longrightarrow> \<exists>t' n'. skipSpace_loop ws cc lo t n = Some (t', n') \<and> suffix t' t \<and> ends t'"
proof (induction "length t" arbitrary: t n rule: less_induct)
  case less
  obtain t1 where t1: "skip_blanks ws cc t = Some t1" "suffix t1 t" "ends t1"
    using skip_blanks_ends [OF assms less.prems] by blast
  obtain nl t2 where t2: "eat_newline t1 = Some (nl, t2)" "suffix t2 t1" "ends t2" "nl \<longrightarrow> length t2 < length t1"
    using eat_newline_ends [OF t1(3)] by (auto split: if_splits)
  show ?case
  proof (cases "lo \<or> \<not> nl")
    case True
    then show ?thesis using t1 t2 by (subst skipSpace_loop.simps) auto
  next
    case False
    then have "length t2 < length t" using t2(4) suffix_length_le [OF t1(2)] by simp
    then obtain t' n' where "skipSpace_loop ws cc lo t2 (n + 1) = Some (t', n')" "suffix t' t2" "ends t'"
      using less.hyps t2(3) by blast
    then show ?thesis
      using False t1 t2 suffix_order.order_trans by (subst skipSpace_loop.simps) fastforce
  qed
qed

lemma schar_zero [simp]: "schar NUL = 0"
  by (simp add: schar_NUL)

text \<open>
  A scanner whose buffer ends in NUL, whose position is in the buffer, and whose special
  characters are not NUL.
\<close>

definition scanner_wf :: "EasyScanner \<Rightarrow> bool" where
  "scanner_wf s \<longleftrightarrow> ends (stext s) \<and> suffix (stext s) (textBuf s) \<and> 0 \<notin> set (whiteSpaceChars s) \<and>
     commentChar s \<noteq> 0 \<and> quoteChar s \<noteq> 0"

text \<open>One scanner state after another: forward in the same buffer, with the same settings.\<close>

definition moves :: "EasyScanner \<Rightarrow> EasyScanner \<Rightarrow> bool" where
  "moves s s' \<longleftrightarrow> suffix (stext s') (stext s) \<and> stext s' \<noteq> [] \<and> textBuf s' = textBuf s \<and>
     lineNumberOffset s' = lineNumberOffset s \<and> whiteSpaceChars s' = whiteSpaceChars s \<and>
     commentChar s' = commentChar s \<and> quoteChar s' = quoteChar s \<and> isLineOriented s' = isLineOriented s \<and>
     symbols s' = symbols s"

lemma moves_wf: "scanner_wf s \<Longrightarrow> moves s s' \<Longrightarrow> scanner_wf s'"
  using ends_suffix suffix_order.order_trans unfolding scanner_wf_def moves_def by metis

lemma moves_refl: "scanner_wf s \<Longrightarrow> moves s s"
  by (simp add: moves_def scanner_wf_def ends_def)

lemma moves_trans: "moves s s1 \<Longrightarrow> moves s1 s2 \<Longrightarrow> moves s s2"
  using suffix_order.order_trans unfolding moves_def by metis

text \<open>An operation that returns on every well-formed scanner and only moves forward.\<close>

definition safe :: "(EasyScanner \<Rightarrow> ('a \<times> EasyScanner) option) \<Rightarrow> EasyScanner \<Rightarrow> bool" where
  "safe f s \<longleftrightarrow> (\<exists>r s'. f s = Some (r, s') \<and> moves s s')"

subsection \<open>Blanks and line ends\<close>

lemma safeI: "f s = Some (r, s') \<Longrightarrow> moves s s' \<Longrightarrow> safe f s"
  by (auto simp: safe_def)

lemma skipSpace_safe:
  assumes "scanner_wf s"
  shows "\<exists>s1. skipSpace s = Some s1 \<and> moves s s1 \<and> scanner_wf s1"
proof -
  obtain t n where t: "skipSpace_loop (whiteSpaceChars s) (commentChar s) (isLineOriented s) (stext s) (lineNumber s) = Some (t, n)"
      "suffix t (stext s)" "ends t"
    using skipSpace_loop_ends [of "whiteSpaceChars s" "commentChar s" "stext s" "isLineOriented s" "lineNumber s"] assms
    unfolding scanner_wf_def by blast
  let ?s1 = "s\<lparr>stext := t, lineNumber := n\<rparr>"
  have "moves s ?s1" using t(2,3) by (simp add: moves_def ends_def)
  then show ?thesis using t(1) moves_wf [OF assms] by (auto simp: skipSpace_def)
qed

text \<open>After the blanks the rest of an operation starts in a well-formed state.\<close>

lemma after_blanks:
  assumes "scanner_wf s" and "\<And>s1. scanner_wf s1 \<Longrightarrow> moves s s1 \<Longrightarrow> safe g s1"
  shows "safe (\<lambda>s. do { s1 \<leftarrow> skipSpace s; g s1 }) s"
proof -
  obtain s1 where s1: "skipSpace s = Some s1" "moves s s1" "scanner_wf s1" using skipSpace_safe [OF assms(1)] by blast
  then obtain r s' where "g s1 = Some (r, s')" "moves s1 s'" using assms(2) unfolding safe_def by blast
  then show ?thesis using s1 moves_trans by (auto simp: safe_def)
qed

lemma wf_cases:
  assumes "scanner_wf s"
  obtains c cs where "stext s = c # cs" and "peek s = Some c" and "c \<noteq> NUL \<Longrightarrow> ends cs"
  using assms ends_tail by (cases "stext s") (auto simp: scanner_wf_def ends_def peek_def)

lemma moves_tail:
  assumes "scanner_wf s" and "stext s = c # cs" and "c \<noteq> NUL"
  shows "moves s (s\<lparr>stext := cs\<rparr>)"
proof -
  have "ends cs" using assms ends_tail by (auto simp: scanner_wf_def)
  then show ?thesis using assms(2) by (auto simp: moves_def ends_def suffix_ConsI)
qed

lemma moves_values:
  "moves s s' \<Longrightarrow> moves s (s'\<lparr>stringValue := w\<rparr>)" "moves s s' \<Longrightarrow> moves s (s'\<lparr>charValue := c\<rparr>)"
  "moves s s' \<Longrightarrow> moves s (s'\<lparr>intValue := i\<rparr>)" "moves s s' \<Longrightarrow> moves s (s'\<lparr>doubleValue := d\<rparr>)"
  "moves s s' \<Longrightarrow> moves s (s'\<lparr>symbolValue := j\<rparr>)" "moves s s' \<Longrightarrow> moves s (s'\<lparr>lineNumber := n\<rparr>)"
  by (simp_all add: moves_def)

lemma moves_suffix:
  assumes "scanner_wf s" and "suffix t (stext s)" and "t \<noteq> []"
  shows "moves s (s\<lparr>stext := t\<rparr>)"
  using assms by (simp add: moves_def)

lemma readLF0_safe: "scanner_wf s \<Longrightarrow> safe readLF0 s"
proof -
  assume wf: "scanner_wf s"
  then obtain nl t where t: "eat_newline (stext s) = Some (nl, t)" "suffix t (stext s)" "ends t" "\<not> nl \<longrightarrow> t = stext s"
    using eat_newline_ends [of "stext s"] by (auto simp: scanner_wf_def split: if_splits)
  have "moves s (if nl then s\<lparr>stext := t, lineNumber := lineNumber s + 1\<rparr> else s)"
    using t moves_refl [OF wf] by (auto simp: moves_def ends_def)
  then show ?thesis using t(1) by (auto simp: safe_def readLF0_def)
qed

lemma readLF_safe: "scanner_wf s \<Longrightarrow> safe readLF s"
  unfolding readLF_def [abs_def] by (rule after_blanks) (auto intro: readLF0_safe)

lemma checkLF_safe: "scanner_wf s \<Longrightarrow> safe checkLF s"
  using readLF_safe [of s] moves_refl [of s] by (fastforce simp: safe_def checkLF_def moves_def)

subsection \<open>Every reader\<close>

lemma read_run_safe:
  assumes "scanner_wf s" and "\<not> P NUL"
  shows "safe (read_run P) s"
proof -
  obtain t where t: "advance P (stext s) = Some t" "suffix t (stext s)" "ends t"
    using advance_ends [of P "stext s"] assms unfolding scanner_wf_def by blast
  have m: "moves s (s\<lparr>stext := t\<rparr>)" by (rule moves_suffix [OF assms(1) t(2)]) (use t(3) in \<open>simp add: ends_def\<close>)
  show ?thesis
  proof (cases "t = stext s")
    case True
    then show ?thesis using t(1) moves_refl [OF assms(1)] by (auto simp: safe_def read_run_def)
  next
    case False
    then show ?thesis using t(1) moves_values(1) [OF m] by (auto simp: safe_def read_run_def)
  qed
qed

lemma stops_at_NUL [simp]:
  "\<not> word_char NUL" "\<not> string_char d NUL" "\<not> not_line_end NUL" "\<not> c_isgraph NUL" "\<not> c_ispunct NUL"
  "\<not> c_isalnum NUL" "\<not> c_isalpha NUL" "\<not> c_isdigit NUL" "\<not> c_isspace NUL"
  by (simp_all add: word_char_def string_char_def not_line_end_def c_isgraph_def c_ispunct_def c_isalnum_def
      c_isalpha_def c_isdigit_def c_isascii_def c_iscntrl_def c_isspace_def code_def NUL_def)

lemma readWord_safe: "scanner_wf s \<Longrightarrow> safe readWord s"
  unfolding readWord_def [abs_def] readWord0_def
  by (rule after_blanks) (auto intro: read_run_safe)

lemma readString_safe: "scanner_wf s \<Longrightarrow> safe (\<lambda>s. readString s d) s"
  unfolding readString_def [abs_def] readString0_def
  by (rule after_blanks) (auto intro: read_run_safe)

lemma readUnquotedTextBlock_safe: "scanner_wf s \<Longrightarrow> safe readUnquotedTextBlock s"
  unfolding readUnquotedTextBlock_def [abs_def]
proof (rule after_blanks)
  fix s1 assume "scanner_wf s1"
  then have "safe (read_run (\<lambda>c. not_line_end c \<and> schar c \<noteq> commentChar s1)) s1" by (rule read_run_safe) simp
  then show "safe (\<lambda>s. read_run (\<lambda>c. not_line_end c \<and> schar c \<noteq> commentChar s) s) s1" by (simp add: safe_def)
qed

lemma readChar_safe: "scanner_wf s \<Longrightarrow> safe readChar s"
  unfolding readChar_def [abs_def]
proof (rule after_blanks)
  fix s1 assume wf: "scanner_wf s1"
  obtain c cs where c: "stext s1 = c # cs" "peek s1 = Some c" using wf_cases [OF wf] by metis
  show "safe (\<lambda>s. do { c \<leftarrow> peek s; Some (if c_isgraph c then (True, s\<lparr>charValue := c, stext := tl (stext s)\<rparr>) else (False, s)) }) s1"
  proof (cases "c_isgraph c")
    case True
    then have "c \<noteq> NUL" by auto
    then have "moves s1 (s1\<lparr>charValue := c, stext := cs\<rparr>)"
      using moves_tail [OF wf c(1)] by (simp add: moves_def)
    then show ?thesis using c True by (auto simp: safe_def)
  qed (use c moves_refl [OF wf] in \<open>auto simp: safe_def\<close>)
qed

lemma readChar_is_safe: "scanner_wf s \<Longrightarrow> chara \<noteq> 0 \<Longrightarrow> safe (\<lambda>s. readChar_is s chara) s"
  unfolding readChar_is_def
proof (rule after_blanks)
  fix s1 assume wf: "scanner_wf s1" and ch: "chara \<noteq> 0"
  obtain c cs where c: "stext s1 = c # cs" "peek s1 = Some c" using wf_cases [OF wf] by metis
  show "safe (\<lambda>s. do { c \<leftarrow> peek s; Some (if schar c = chara then (True, set_text s (tl (stext s))) else (False, s)) }) s1"
  proof (cases "schar c = chara")
    case True
    then have "c \<noteq> NUL" using ch schar_NUL by auto
    then show ?thesis using c True moves_tail [OF wf c(1)] by (auto simp: safe_def set_text_def)
  qed (use c moves_refl [OF wf] in \<open>auto simp: safe_def\<close>)
qed

lemma peekChar_safe: "scanner_wf s \<Longrightarrow> safe peekChar s"
  unfolding peekChar_def [abs_def]
proof (rule after_blanks)
  fix s1 assume wf: "scanner_wf s1"
  then obtain c where "peek s1 = Some c" using wf_cases by metis
  then show "safe (\<lambda>s. do { c \<leftarrow> peek s; Some (schar c, s) }) s1"
    using moves_refl [OF wf] by (simp add: safe_def)
qed

lemma isEOF_safe: "scanner_wf s \<Longrightarrow> safe isEOF s"
  unfolding isEOF_def [abs_def]
proof (rule after_blanks)
  fix s1 assume wf: "scanner_wf s1"
  then obtain c where "peek s1 = Some c" using wf_cases by metis
  then show "safe (\<lambda>s. do { c \<leftarrow> peek s; Some (c = NUL, s) }) s1"
    using moves_refl [OF wf] by (auto simp: safe_def)
qed

lemma readLFEOF_safe: "scanner_wf s \<Longrightarrow> safe readLFEOF s"
  unfolding readLFEOF_def [abs_def]
proof (rule after_blanks)
  fix s1 assume wf: "scanner_wf s1"
  obtain nl s2 where s2: "readLF0 s1 = Some (nl, s2)" "moves s1 s2" using readLF0_safe [OF wf] by (auto simp: safe_def)
  then have "scanner_wf s2" using moves_wf [OF wf] by blast
  then obtain c where "peek s2 = Some c" using wf_cases by metis
  then show "safe (\<lambda>s. do { (nl, s2) \<leftarrow> readLF0 s; if nl then Some (True, s2) else do { c \<leftarrow> peek s2; Some (c = NUL, s2) } }) s1"
    using s2 by (auto simp: safe_def)
qed

lemma match_text_ends:
  "ends t \<Longrightarrow> NUL \<notin> set ps \<Longrightarrow> match_text ps t = Some None \<or> (\<exists>t'. match_text ps t = Some (Some t') \<and> suffix t' t \<and> ends t')"
proof (induction ps t rule: match_text.induct)
  case (3 p ps c cs)
  show ?case
  proof (cases "p = c")
    case True
    then have "ends cs" using 3 ends_tail [of c cs] by auto
    then show ?thesis using 3 True suffix_ConsI by fastforce
  qed simp
qed (auto simp: ends_def)

lemma readString_is_safe: "scanner_wf s \<Longrightarrow> NUL \<notin> set str \<Longrightarrow> safe (\<lambda>s. readString_is s str) s"
  unfolding readString_is_def
proof (rule after_blanks)
  fix s1 assume wf: "scanner_wf s1" and str: "NUL \<notin> set str"
  then have e: "ends (stext s1)" by (simp add: scanner_wf_def)
  show "safe (\<lambda>s. do { res \<leftarrow> match_text str (stext s); Some (case res of Some t \<Rightarrow> (True, set_text s t) | None \<Rightarrow> (False, s)) }) s1"
    using match_text_ends [OF e str]
  proof
    assume "match_text str (stext s1) = Some None"
    then show ?thesis using moves_refl [OF wf] by (auto simp: safe_def)
  next
    assume "\<exists>t'. match_text str (stext s1) = Some (Some t') \<and> suffix t' (stext s1) \<and> ends t'"
    then obtain t' where t': "match_text str (stext s1) = Some (Some t')" "suffix t' (stext s1)" "t' \<noteq> []"
      by (auto simp: ends_def)
    then show ?thesis using moves_suffix [OF wf t'(2,3)] by (auto simp: safe_def set_text_def)
  qed
qed

lemma readSymbol_safe: "scanner_wf s \<Longrightarrow> safe readSymbol s"
  using readWord_safe [of s] moves_values(5) by (fastforce simp: safe_def readSymbol_def Let_def)

lemma readSymbol_is_safe: "scanner_wf s \<Longrightarrow> safe (\<lambda>s. readSymbol_is s i) s"
proof -
  assume wf: "scanner_wf s"
  obtain ok s1 where s1: "readWord s = Some (ok, s1)" "moves s s1" using readWord_safe [OF wf] by (auto simp: safe_def)
  have "moves s (s1\<lparr>symbolValue := j, stext := stext s, lineNumber := n\<rparr>)" for j n
    using s1(2) moves_refl [OF wf] by (simp add: moves_def)
  then show ?thesis using s1 moves_values(5) [OF s1(2)] by (auto simp: safe_def readSymbol_is_def Let_def)
qed

subsection \<open>Numbers\<close>

text \<open>What a number parser eats is within a line: no NUL and no line end.\<close>

definition eats :: "string \<Rightarrow> string \<Rightarrow> bool" where
  "eats s t \<longleftrightarrow> (\<exists>p. s = p @ t \<and> (\<forall>c \<in> set p. not_line_end c))"

lemma eats_refl [simp, intro]: "eats s s"
  by (simp add: eats_def)

lemma eats_trans [trans]: "eats a b \<Longrightarrow> eats b c \<Longrightarrow> eats a c"
  unfolding eats_def by (metis append.assoc set_append UnE)

lemma eats_Cons: "eats s t \<Longrightarrow> not_line_end c \<Longrightarrow> eats (c # s) t"
  unfolding eats_def by (metis append_Cons set_ConsD)

lemma eats_dropWhile: "(\<And>c. P c \<Longrightarrow> not_line_end c) \<Longrightarrow> eats s (dropWhile P s)"
  unfolding eats_def by (metis set_takeWhileD takeWhile_dropWhile_id)

lemma eats_suffix: "ends s \<Longrightarrow> eats s t \<Longrightarrow> suffix t s \<and> t \<noteq> []"
  unfolding ends_def eats_def suffix_def by (metis append.right_neutral last_in_set stops_at_NUL(3))

lemma char_not_NUL [simp]:
  "CHR ''.'' \<noteq> NUL" "CHR ''e'' \<noteq> NUL" "CHR ''E'' \<noteq> NUL" "CHR ''-'' \<noteq> NUL" "CHR ''+'' \<noteq> NUL" "CHR ''0'' \<noteq> NUL"
  "NUL \<noteq> CHR ''-''" "NUL \<noteq> CHR ''+''" "NUL \<noteq> CHR ''_''" "\<not> is_n NUL" "\<not> is_a NUL"
  by (simp_all add: NUL_def is_n_def is_a_def)

text \<open>Characters that are no line ends.\<close>

lemma in_line [simp]:
  "not_line_end (CHR ''.'')" "not_line_end (CHR ''e'')" "not_line_end (CHR ''E'')" "not_line_end (CHR ''-'')"
  "not_line_end (CHR ''+'')" "not_line_end (CHR ''0'')" "not_line_end (CHR ''_'')"
  "is_n c \<Longrightarrow> not_line_end c" "is_a c \<Longrightarrow> not_line_end c" "c_isdigit c \<Longrightarrow> not_line_end c" "c_isalpha c \<Longrightarrow> not_line_end c"
  "c_isalnum c \<Longrightarrow> not_line_end c" "c_isgraph c \<Longrightarrow> not_line_end c" "c_ispunct c \<Longrightarrow> not_line_end c"
  "word_char c \<Longrightarrow> not_line_end c" "string_char d c \<Longrightarrow> not_line_end c" "digit_val c < 36 \<Longrightarrow> not_line_end c"
  by (auto simp: not_line_end_def NUL_def LF_def CR_def is_n_def is_a_def c_isdigit_def c_isalpha_def c_isalnum_def
      c_isgraph_def c_ispunct_def c_isascii_def word_char_def string_char_def c_isspace_def c_iscntrl_def
      digit_val_def code_def)

lemma take_sign_eats: "take_sign s = (b, t) \<Longrightarrow> eats s t"
  by (auto simp: take_sign_def split: list.splits if_splits intro: eats_Cons)

lemma number_base_eats: "number_base t = (b, d) \<Longrightarrow> b \<le> 16 \<and> eats t d"
proof -
  have x: "eats (CHR ''0'' # x # r) r" if "c_tolower x = CHR ''x''" for x r
  proof -
    have "not_line_end x" using that by (auto simp: c_tolower_def code_def not_line_end_def NUL_def LF_def CR_def)
    then show ?thesis by (intro eats_Cons eats_refl) simp_all
  qed
  show "number_base t = (b, d) \<Longrightarrow> b \<le> 16 \<and> eats t d"
    unfolding number_base_def using x by (auto split: list.splits if_splits)
qed

text \<open>\<open>strtol\<close> skips white space first, line ends among it.\<close>

lemma c_strtol_eats: "c_strtol s = (v, t) \<Longrightarrow> t = s \<or> eats (dropWhile c_isspace s) t"
proof -
  assume run: "c_strtol s = (v, t)"
  obtain neg u where u: "take_sign (dropWhile c_isspace s) = (neg, u)" by fastforce
  obtain base d where d: "number_base u = (base, d)" by fastforce
  let ?P = "\<lambda>c. digit_val c < base"
  have "eats (dropWhile c_isspace s) u" by (rule take_sign_eats [OF u])
  also have "eats \<dots> d" using number_base_eats [OF d] by blast
  also have "eats \<dots> (dropWhile ?P d)"
    by (rule eats_dropWhile) (use number_base_eats [OF d] in simp)
  finally show ?thesis using run by (auto simp: c_strtol_def u d Let_def split: if_splits)
qed

lemma c_strtol_tail: "c_strtol s = (v, t) \<Longrightarrow> ends s \<Longrightarrow> suffix t s \<and> t \<noteq> []"
proof -
  assume run: "c_strtol s = (v, t)" and e: "ends s"
  have sub: "suffix (dropWhile c_isspace s) s" by (rule suffix_dropWhile)
  have "NUL \<in> set s" using e last_in_set unfolding ends_def by metis
  then have "dropWhile c_isspace s \<noteq> []" by (auto simp: dropWhile_eq_Nil_conv intro: bexI [of _ NUL])
  then have "ends (dropWhile c_isspace s)" using ends_suffix [OF e sub] by blast
  then show ?thesis
    using c_strtol_eats [OF run] eats_suffix sub e suffix_order.order_trans unfolding ends_def by blast
qed

lemma fraction_eats: "fraction_part v0 b0 s = (v, b, t) \<Longrightarrow> eats s t"
  by (auto simp: fraction_part_def Let_def split: list.splits if_splits intro: eats_Cons eats_Cons [OF eats_dropWhile])

lemma exponent_eats:
  assumes "exponent_part pow10 v0 b0 s = (v, b, t)"
  shows "eats s t"
proof (cases s)
  case (Cons c r)
  obtain pneg u where u: "take_sign r = (pneg, u)" by fastforce
  have "eats r u" by (rule take_sign_eats [OF u])
  moreover have "eats u (dropWhile c_isdigit u)" by (rule eats_dropWhile) simp
  ultimately show ?thesis
    using assms by (auto simp: exponent_part_def Cons u Let_def split: if_splits intro: eats_Cons eats_trans)
qed (use assms in \<open>simp add: exponent_part_def\<close>)

lemma mystrtod_number_eats:
  assumes "mystrtod_number pow10 org neg s = (v, t)" and "eats org s"
  shows "eats org t"
proof -
  obtain v1 b1 r1 where f: "fraction_part (acc_digits (takeWhile c_isdigit s)) (takeWhile c_isdigit s \<noteq> [])
      (dropWhile c_isdigit s) = (v1, b1, r1)" by (metis prod_cases3)
  obtain v2 b2 r2 where e: "exponent_part pow10 v1 b1 r1 = (v2, b2, r2)" by (metis prod_cases3)
  have "eats s (dropWhile c_isdigit s)" by (rule eats_dropWhile) simp
  also have "eats \<dots> r1" by (rule fraction_eats [OF f])
  also have "eats \<dots> r2" by (rule exponent_eats [OF e])
  finally show ?thesis
    using assms eats_trans by (auto simp: mystrtod_number_def f e Let_def split: if_splits)
qed

lemma mystrtod_eats: "mystrtod pow10 org = (v, t) \<Longrightarrow> eats org t"
proof -
  assume run: "mystrtod pow10 org = (v, t)"
  obtain neg s where s: "take_sign org = (neg, s)" by fastforce
  have e0: "eats org s" by (rule take_sign_eats [OF s])
  have hd_eats: "eats x (tl x)" if "x \<noteq> []" "P (hd x)" "\<And>c. P c \<Longrightarrow> not_line_end c" for x and P :: "char \<Rightarrow> bool"
    using that eats_Cons [OF eats_refl, of "hd x" "tl x"] by (cases x) auto
  note number = mystrtod_number_eats
  show ?thesis
  proof (cases "s \<noteq> [] \<and> is_n (hd s)")
    case False
    then show ?thesis using run e0 number by (auto simp: mystrtod_def s)
  next
    case True
    then have e1: "eats org (tl s)" using hd_eats [of s is_n] eats_trans [OF e0] by simp
    show ?thesis
    proof (cases "tl s \<noteq> [] \<and> is_a (hd (tl s))")
      case False
      then show ?thesis using run True by (auto simp: mystrtod_def s)
    next
      case a: True
      then have e2: "eats org (tl (tl s))" using hd_eats [of "tl s" is_a] eats_trans [OF e1] by simp
      show ?thesis
      proof (cases "tl (tl s) \<noteq> [] \<and> is_n (hd (tl (tl s)))")
        case n: True
        then have "eats org (tl (tl (tl s)))" using hd_eats [of "tl (tl s)" is_n] eats_trans [OF e2] by simp
        then show ?thesis using run True a n by (simp add: mystrtod_def s)
      next
        case False
        then have "mystrtod_number pow10 org neg (tl (tl s)) = (v, t)" using run True a by (auto simp: mystrtod_def s)
        then show ?thesis using number e2 by blast
      qed
    qed
  qed
qed

lemma moves_strtol: "scanner_wf s \<Longrightarrow> c_strtol (stext s) = (v, t) \<Longrightarrow> moves s (s\<lparr>stext := t\<rparr>)"
  using moves_suffix c_strtol_tail unfolding scanner_wf_def by blast

lemma moves_eats: "scanner_wf s \<Longrightarrow> eats (stext s) t \<Longrightarrow> moves s (s\<lparr>stext := t\<rparr>)"
  using moves_suffix eats_suffix unfolding scanner_wf_def by blast

lemma readInt_safe: "scanner_wf s \<Longrightarrow> safe readInt s"
proof -
  assume wf: "scanner_wf s"
  obtain nl s1 where s1: "checkLF s = Some (nl, s1)" "moves s s1" using checkLF_safe [OF wf] by (auto simp: safe_def)
  obtain v t where vt: "c_strtol (stext s1) = (v, t)" by fastforce
  have "moves s1 (s1\<lparr>stext := t\<rparr>)" using moves_strtol [OF _ vt] moves_wf [OF wf s1(2)] by blast
  then have "moves s1 (s1\<lparr>intValue := to_int32 v, stext := t\<rparr>)" by (simp add: moves_def)
  then have "moves s (s1\<lparr>intValue := to_int32 v, stext := t\<rparr>)" by (rule moves_trans [OF s1(2)])
  then show ?thesis
    using s1 moves_values(3) [OF s1(2)] by (auto simp: safe_def readInt_def vt Let_def set_text_def)
qed

lemma readDouble_safe: "scanner_wf s \<Longrightarrow> safe (readDouble pow10) s"
proof -
  assume wf: "scanner_wf s"
  obtain nl s1 where s1: "checkLF s = Some (nl, s1)" "moves s s1" using checkLF_safe [OF wf] by (auto simp: safe_def)
  obtain v t where vt: "mystrtod pow10 (stext s1) = (v, t)" by fastforce
  have "moves s1 (s1\<lparr>stext := t\<rparr>)" using moves_eats mystrtod_eats [OF vt] moves_wf [OF wf s1(2)] by blast
  then have "moves s1 (s1\<lparr>doubleValue := v, stext := t\<rparr>)" by (simp add: moves_def)
  then have "moves s (s1\<lparr>doubleValue := v, stext := t\<rparr>)" by (rule moves_trans [OF s1(2)])
  then show ?thesis
    using s1 moves_values(4) [OF s1(2)] by (auto simp: safe_def readDouble_def vt Let_def set_text_def)
qed

subsection \<open>Quoted strings\<close>

lemma quoted_line_ends: "ends t \<Longrightarrow> q \<noteq> 0 \<Longrightarrow>
    quoted_line q t = Some None \<or> (\<exists>c t'. quoted_line q t = Some (Some (c # t')) \<and> suffix t' t \<and> t' \<noteq> [])"
proof (induction q t rule: quoted_line.induct)
  case (2 q c cs)
  show ?case
  proof (cases "not_line_end c")
    case True
    then have "c \<noteq> NUL" by auto
    then have e: "ends cs" using "2.prems"(1) ends_tail by blast
    then show ?thesis
      using 2 True by (cases "schar c = q") (auto simp: ends_def intro: suffix_ConsI)
  qed simp
qed (simp add: ends_def)

text \<open>Quotes are safe within a line, or when there is no quote character.\<close>

definition quote_fine :: "EasyScanner \<Rightarrow> bool" where
  "quote_fine s \<longleftrightarrow> isLineOriented s \<or> quoteChar s = no_char"

lemma schar_range: "schar c \<noteq> no_char"
  using code_less [of c] by (simp add: schar_def no_char_def)

lemma extractQuotedString_safe:
  assumes wf: "scanner_wf s" and fine: "quote_fine s" and q: "peek s = Some c" "schar c = quoteChar s"
  shows "safe extractQuotedString s"
proof -
  have lo: "isLineOriented s" using fine q(2) schar_range [of c] by (simp add: quote_fine_def)
  have "c \<noteq> NUL" using q(2) wf schar_NUL by (auto simp: scanner_wf_def)
  then obtain cs where cs: "stext s = c # cs" "ends cs" using wf_cases [OF wf] q(1) by (metis option.inject)
  have q0: "quoteChar s \<noteq> 0" using wf by (simp add: scanner_wf_def)
  show ?thesis
    using quoted_line_ends [OF cs(2) q0]
  proof
    assume "quoted_line (quoteChar s) cs = Some None"
    moreover have "moves s (s\<lparr>stext := cs\<rparr>)" by (rule moves_tail [OF wf cs(1) \<open>c \<noteq> NUL\<close>])
    ultimately show ?thesis using lo by (auto simp: safe_def extractQuotedString_def cs(1) moves_def)
  next
    assume "\<exists>d t'. quoted_line (quoteChar s) cs = Some (Some (d # t')) \<and> suffix t' cs \<and> t' \<noteq> []"
    then obtain d t' where t': "quoted_line (quoteChar s) cs = Some (Some (d # t'))" "suffix t' cs" "t' \<noteq> []" by blast
    then have "suffix t' (stext s)" unfolding cs(1) by (intro suffix_ConsI)
    then have "moves s (s\<lparr>stext := t', lineNumber := lineNumber s, stringValue := taken cs (d # t')\<rparr>)"
      using t'(3) by (simp add: moves_def)
    then show ?thesis using lo t'(1) by (auto simp: safe_def extractQuotedString_def cs(1))
  qed
qed

lemma readQuotedString_safe: "scanner_wf s \<Longrightarrow> quote_fine s \<Longrightarrow> safe (\<lambda>s. readQuotedString s b) s"
  unfolding readQuotedString_def
proof (rule after_blanks)
  fix s1 assume wf: "scanner_wf s1" and "quote_fine s" and "moves s s1"
  then have fine: "quote_fine s1" by (simp add: quote_fine_def moves_def)
  obtain c where c: "peek s1 = Some c" using wf_cases [OF wf] by metis
  consider "schar c = quoteChar s1" | "schar c \<noteq> quoteChar s1" "b" | "schar c \<noteq> quoteChar s1" "\<not> b" by blast
  then show "safe (\<lambda>s. do { c \<leftarrow> peek s;
          if schar c = quoteChar s then extractQuotedString s
          else if b then readString0 s (schar (CHR '' '')) else Some (False, s) }) s1"
  proof cases
    case 1
    then show ?thesis using extractQuotedString_safe [OF wf fine c] c by (simp add: safe_def)
  next
    case 2
    then show ?thesis using read_run_safe [OF wf, of "string_char (schar (CHR '' ''))"] c
      by (simp add: safe_def readString0_def)
  next
    case 3
    then show ?thesis using moves_refl [OF wf] c by (auto simp: safe_def)
  qed
qed

subsection \<open>Tokens\<close>

lemma read_number_moves:
  assumes wf: "scanner_wf s" and c: "stext s = c # cs" "c \<noteq> NUL" and run: "read_number pow10 s c = (r, s')"
  shows "moves s s'"
proof -
  obtain v t where vt: "c_strtol (stext s) = (v, t)" by fastforce
  obtain d u where du: "mystrtod pow10 (stext s) = (d, u)" by fastforce
  have "moves s (s\<lparr>stext := t\<rparr>)" "moves s (s\<lparr>stext := u\<rparr>)" "moves s (s\<lparr>stext := cs\<rparr>)"
    using moves_strtol [OF wf vt] moves_eats [OF wf] mystrtod_eats [OF du] moves_tail [OF wf c] by blast+
  moreover have "tl (stext s) = cs" by (simp add: c(1))
  ultimately show ?thesis
    using run by (auto simp: read_number_def vt du Let_def set_text_def moves_def split: if_splits)
qed

lemma read_name_safe:
  assumes wf: "scanner_wf s" and c: "stext s = c # cs" "c \<noteq> NUL"
  shows "safe (\<lambda>s. read_name s c) s"
proof -
  have "ends cs" using wf c ends_tail by (auto simp: scanner_wf_def)
  then obtain t where t: "advance (\<lambda>d. c_isalnum d \<or> d = CHR ''_'') cs = Some t" "suffix t cs" "ends t"
    using advance_ends [of "\<lambda>d. c_isalnum d \<or> d = CHR ''_''" cs] by fastforce
  then have "suffix t (stext s)" "t \<noteq> []" by (auto simp: c(1) ends_def intro: suffix_ConsI)
  then have "moves s (s\<lparr>stext := t\<rparr>)" using moves_suffix [OF wf] by blast
  then have "moves s (s\<lparr>stext := t, stringValue := w\<rparr>)" "moves s (s\<lparr>stext := t, stringValue := w, charValue := c\<rparr>)" for w
    by (simp_all add: moves_def)
  then show ?thesis using t(1) by (auto simp: safe_def read_name_def c(1) Let_def)
qed

lemma readToken_safe: "scanner_wf s \<Longrightarrow> quote_fine s \<Longrightarrow> safe (readToken pow10) s"
  unfolding readToken_def [abs_def]
proof (rule after_blanks)
  fix s1 assume wf: "scanner_wf s1" and "quote_fine s" and "moves s s1"
  then have fine: "quote_fine s1" by (simp add: quote_fine_def moves_def)
  obtain c cs where c: "stext s1 = c # cs" "peek s1 = Some c" using wf_cases [OF wf] by metis
  let ?num = "c_isdigit c \<or> c = CHR ''+'' \<or> c = CHR ''-''"
  let ?f = "\<lambda>s. do { c \<leftarrow> peek s;
          if c_isdigit c \<or> c = CHR ''+'' \<or> c = CHR ''-'' then Some (read_number pow10 s c)
          else if c_isalpha c then read_name s c
          else if schar c = quoteChar s then
            do { (ok, s1) \<leftarrow> extractQuotedString s; Some (if ok then T_STRING else T_SIGLUM, s1) }
          else if c_ispunct c then Some (T_SIGLUM, s\<lparr>charValue := c, stext := tl (stext s)\<rparr>)
          else do {
            (nl, s1) \<leftarrow> readLF0 s;
            Some (if nl then T_LF else if c = NUL then T_EOF else T_NONE, s1) } }"
  consider (num) ?num | (name) "\<not> ?num" "c_isalpha c" | (quote) "\<not> ?num" "\<not> c_isalpha c" "schar c = quoteChar s1"
    | (punct) "\<not> ?num" "\<not> c_isalpha c" "schar c \<noteq> quoteChar s1" "c_ispunct c"
    | (other) "\<not> ?num" "\<not> c_isalpha c" "schar c \<noteq> quoteChar s1" "\<not> c_ispunct c" by blast
  then show "safe ?f s1"
  proof cases
    case num
    then have "c \<noteq> NUL" by auto
    then show ?thesis
      using num c read_number_moves [OF wf c(1)] by (cases "read_number pow10 s1 c") (auto simp: safe_def)
  next
    case name
    then have "c \<noteq> NUL" by auto
    then show ?thesis using name c read_name_safe [OF wf c(1)] by (simp add: safe_def)
  next
    case quote
    then obtain ok s2 where "extractQuotedString s1 = Some (ok, s2)" "moves s1 s2"
      using extractQuotedString_safe [OF wf fine c(2)] by (auto simp: safe_def)
    then show ?thesis using quote c by (auto simp: safe_def)
  next
    case punct
    then have "c \<noteq> NUL" by auto
    then have "moves s1 (s1\<lparr>charValue := c, stext := cs\<rparr>)" using moves_tail [OF wf c(1)] by (simp add: moves_def)
    then show ?thesis using punct c by (auto simp: safe_def)
  next
    case other
    obtain nl s2 where "readLF0 s1 = Some (nl, s2)" "moves s1 s2" using readLF0_safe [OF wf] by (auto simp: safe_def)
    then show ?thesis using other c by (auto simp: safe_def)
  qed
qed

subsection \<open>Lines\<close>

lemma skip_line_ends:
  "ends t \<Longrightarrow> \<exists>nl t'. skip_line t = Some (nl, t') \<and> suffix t' t \<and> ends t' \<and> (nl \<longrightarrow> length t' < length t)"
proof (induction t)
  case (Cons c cs)
  obtain nl t' where t': "eat_newline (c # cs) = Some (nl, t')" "suffix t' (c # cs)" "ends t'"
      "nl \<longrightarrow> length t' < length (c # cs)"
    using eat_newline_ends [OF Cons.prems] by (auto split: if_splits)
  show ?case
  proof (cases "nl \<or> c = NUL")
    case True
    then show ?thesis using t' Cons.prems by auto
  next
    case False
    then have "ends cs" using Cons.prems ends_tail by blast
    then obtain nl2 t2 where "skip_line cs = Some (nl2, t2)" "suffix t2 cs" "ends t2" "nl2 \<longrightarrow> length t2 < length cs"
      using Cons.IH by blast
    then show ?thesis using False t'(1) by (auto intro: suffix_ConsI)
  qed
qed (simp add: ends_def)

lemma skipLine_safe: "scanner_wf s \<Longrightarrow> safe skipLine s"
proof -
  assume wf: "scanner_wf s"
  obtain nl t where t: "skip_line (stext s) = Some (nl, t)" "suffix t (stext s)" "ends t"
    using skip_line_ends [of "stext s"] wf by (auto simp: scanner_wf_def)
  have "moves s (s\<lparr>stext := t, lineNumber := n\<rparr>)" for n using t(2,3) by (simp add: moves_def ends_def)
  then show ?thesis using t(1) by (auto simp: safe_def skipLine_def)
qed

lemma skipSpace_shorter: "skipSpace s = Some s1 \<Longrightarrow> moves s s1 \<Longrightarrow> length (stext s1) \<le> length (stext s)"
  by (simp add: moves_def suffix_length_le)

lemma readLF_shorter:
  assumes wf: "scanner_wf s" and run: "readLF s = Some (True, s1)"
  shows "length (stext s1) < length (stext s)"
proof -
  obtain s0 where s0: "skipSpace s = Some s0" "moves s s0" "scanner_wf s0" using skipSpace_safe [OF wf] by blast
  obtain nl t where t: "eat_newline (stext s0) = Some (nl, t)" "nl \<longrightarrow> length t < length (stext s0)"
    using eat_newline_ends [of "stext s0"] s0(3) by (auto simp: scanner_wf_def split: if_splits)
  have "readLF0 s0 = Some (True, s1)" using run s0(1) by (simp add: readLF_def)
  then have "nl" "stext s1 = t" using t(1) by (auto simp: readLF0_def split: if_splits)
  then show ?thesis using t(2) skipSpace_shorter [OF s0(1,2)] by simp
qed

text \<open>\<open>skipBlankLines\<close> ends: every round eats a line end.\<close>

lemma skipBlankLines_safe: "scanner_wf s \<Longrightarrow> safe skipBlankLines s"
proof (induction "length (stext s)" arbitrary: s rule: less_induct)
  case less
  obtain c where c: "peek s = Some c" using wf_cases [OF less.prems] by metis
  obtain nl s1 where s1: "readLF s = Some (nl, s1)" "moves s s1" using readLF_safe [OF less.prems] by (auto simp: safe_def)
  show ?case
  proof (cases "c \<noteq> NUL \<and> nl")
    case True
    then have "length (stext s1) < length (stext s)" using readLF_shorter [OF less.prems] s1(1) by simp
    then obtain r s2 where "skipBlankLines s1 = Some (r, s2)" "moves s1 s2"
      using less.hyps moves_wf [OF less.prems s1(2)] unfolding safe_def by blast
    then show ?thesis
      using True c s1 moves_trans [OF s1(2)] by (auto simp: safe_def skipBlankLines.simps [of s])
  next
    case False
    then show ?thesis
      using c s1 moves_refl [OF less.prems] by (auto simp: safe_def skipBlankLines.simps [of s])
  qed
qed

section \<open>A session with the scanner\<close>

text \<open>
  Every public reader but \<open>readLine\<close> and the operators \<open>>>\<close>, which step outside the buffer
  (see below), and \<open>readChar (0)\<close>, which steps over the terminating NUL.
\<close>

datatype request = ReadToken | ReadDouble | ReadInt | ReadChar | ReadChar_is char | PeekChar | ReadWord
  | ReadString char | ReadString_is string | ReadQuoted bool | ReadBlock | ReadSymbol | ReadSymbol_is int
  | IsEOF | ReadLF | ReadLFEOF | CheckLF | SkipLine | SkipBlankLines

definition finish :: "('a \<times> EasyScanner) option \<Rightarrow> EasyScanner option" where
  "finish res = map_option snd res"

fun serve :: "(double \<Rightarrow> double) \<Rightarrow> request \<Rightarrow> EasyScanner \<Rightarrow> EasyScanner option" where
  "serve pow10 ReadToken s = finish (readToken pow10 s)"
| "serve pow10 ReadDouble s = finish (readDouble pow10 s)"
| "serve pow10 ReadInt s = finish (readInt s)"
| "serve pow10 ReadChar s = finish (readChar s)"
| "serve pow10 (ReadChar_is c) s = finish (readChar_is s (schar c))"
| "serve pow10 PeekChar s = finish (peekChar s)"
| "serve pow10 ReadWord s = finish (readWord s)"
| "serve pow10 (ReadString d) s = finish (readString s (schar d))"
| "serve pow10 (ReadString_is str) s = finish (readString_is s str)"
| "serve pow10 (ReadQuoted b) s = finish (readQuotedString s b)"
| "serve pow10 ReadBlock s = finish (readUnquotedTextBlock s)"
| "serve pow10 ReadSymbol s = finish (readSymbol s)"
| "serve pow10 (ReadSymbol_is i) s = finish (readSymbol_is s i)"
| "serve pow10 IsEOF s = finish (isEOF s)"
| "serve pow10 ReadLF s = finish (readLF s)"
| "serve pow10 ReadLFEOF s = finish (readLFEOF s)"
| "serve pow10 CheckLF s = finish (checkLF s)"
| "serve pow10 SkipLine s = finish (skipLine s)"
| "serve pow10 SkipBlankLines s = finish (skipBlankLines s)"

fun without_NUL :: "request \<Rightarrow> bool" where
  "without_NUL (ReadChar_is c) = (c \<noteq> NUL)"
| "without_NUL (ReadString_is str) = (NUL \<notin> set str)"
| "without_NUL _ = True"

lemma safe_finish: "safe f s \<Longrightarrow> \<exists>s'. finish (f s) = Some s' \<and> moves s s'"
  by (auto simp: safe_def finish_def)

lemma serve_safe:
  assumes "scanner_wf s" and "quote_fine s" and "without_NUL rq"
  shows "\<exists>s'. serve pow10 rq s = Some s' \<and> moves s s'"
proof (cases rq)
  case (ReadChar_is c)
  then show ?thesis using safe_finish [OF readChar_is_safe [of s "schar c"]] assms schar_NUL by simp
next
  case (ReadString_is str)
  then show ?thesis using safe_finish [OF readString_is_safe [OF assms(1)]] assms by simp
qed (use assms safe_finish in \<open>simp; blast intro: readToken_safe readDouble_safe readInt_safe readChar_safe peekChar_safe
  readWord_safe readString_safe readQuotedString_safe readUnquotedTextBlock_safe readSymbol_safe readSymbol_is_safe
  isEOF_safe readLF_safe readLFEOF_safe checkLF_safe skipLine_safe skipBlankLines_safe\<close>)+

section \<open>The scanner stays in its buffer\<close>

definition session :: "(double \<Rightarrow> double) \<Rightarrow> request list \<Rightarrow> EasyScanner \<Rightarrow> EasyScanner option" where
  "session pow10 = run_all (serve pow10)"

lemma quote_fine_moves: "quote_fine s \<Longrightarrow> moves s s' \<Longrightarrow> quote_fine s'"
  by (simp add: quote_fine_def moves_def)

interpretation scanner_steps: guarded_steps "serve pow10" without_NUL "\<lambda>s. scanner_wf s \<and> quote_fine s" moves
  for pow10
proof unfold_locales
  fix s r assume "scanner_wf s \<and> quote_fine s" and "without_NUL r"
  then show "\<exists>s'. serve pow10 r s = Some s' \<and> (scanner_wf s' \<and> quote_fine s') \<and> moves s s'"
    using serve_safe [of s r pow10] moves_wf quote_fine_moves by blast
qed (use moves_refl moves_trans in blast)+

text \<open>A text that was set or loaded is well formed under the usual special characters.\<close>

lemma setText_wf:
  "0 \<notin> set (whiteSpaceChars s) \<Longrightarrow> commentChar s \<noteq> 0 \<Longrightarrow> quoteChar s \<noteq> 0 \<Longrightarrow> scanner_wf (setText s txt)"
  by (simp add: setText_def scanner_wf_def ends_def)

text \<open>
  C21: whatever the text, a sequence of the requests above never leaves the buffer and every one
  of them returns, under these conditions. NUL is no blank, comment or quote character and is
  not asked for (\<open>readChar\<close> and \<open>readString\<close> of a given text would step over the terminating
  one); and quoted strings are read line by line, or there is no quote character
  (\<open>quote_fine\<close>). The second condition leaves out the configuration of the VRML parser, where
  strings may span lines: there an unclosed string does overrun the text
  (\<open>unclosed_quote_overruns\<close>). Two operations are not among the requests: \<open>readLine\<close>, which
  reads \<open>textBuf[-1]\<close> on a blank first line (\<open>readLine_blank_first_line\<close>), and the operators
  \<open>>>\<close>, whose match of a text steps over the terminating NUL.
\<close>

theorem scanner_session_safe:
  assumes "0 \<notin> set (whiteSpaceChars s)" and "commentChar s \<noteq> 0" and "quoteChar s \<noteq> 0" and "quote_fine s"
    and "\<forall>rq \<in> set rqs. without_NUL rq"
  shows "\<exists>s'. session pow10 rqs (setText s txt) = Some s' \<and> suffix (stext s') (txt @ [NUL]) \<and> stext s' \<noteq> [] \<and>
    textBuf s' = txt @ [NUL]"
proof -
  have "quote_fine (setText s txt)" using assms(4) by (simp add: quote_fine_def setText_def)
  then obtain s' where "session pow10 rqs (setText s txt) = Some s'" "moves (setText s txt) s'"
    using scanner_steps.run_all_ok [of "setText s txt" rqs pow10] setText_wf [OF assms(1-3)] assms(5)
    unfolding session_def by blast
  then show ?thesis by (auto simp: moves_def setText_def)
qed


text \<open>
  \<open>readLine\<close> on a blank first line looks at the byte before the buffer.
\<close>

lemma readLine_blank_first_line: "readLine (setText s (LF # txt)) = None"
  by (simp add: readLine_def skipLine_def setText_def line_length_def taken_def)

end
