(* ===== verification/ScannerLines.thy ===== *)
theory ScannerLines
  imports ScannerProofs
begin

text \<open>
  What the scanner counts and what it reads: line numbers, numbers, words and symbols.
\<close>

section \<open>Line numbers\<close>

text \<open>The line ends ahead: \<open>CR LF\<close> is one.\<close>

fun newlines :: "string \<Rightarrow> int" where
  "newlines [] = 0"
| "newlines (c # cs) =
     (if c = LF then 1 + newlines cs
      else if c = CR then 1 + newlines (if cs \<noteq> [] \<and> hd cs = LF then tl cs else cs)
      else newlines cs)"

definition line_sum :: "EasyScanner \<Rightarrow> int" where
  "line_sum s = lineNumber s + newlines (stext s)"

lemma newlines_in_line [simp]: "not_line_end c \<Longrightarrow> newlines (c # cs) = newlines cs"
  by (simp add: not_line_end_def)

lemma newlines_NUL [simp]: "newlines (NUL # cs) = newlines cs"
  by simp

lemma newlines_eats: "eats s t \<Longrightarrow> newlines s = newlines t"
proof -
  assume "eats s t"
  then obtain p where p: "s = p @ t" "\<forall>c \<in> set p. not_line_end c" by (auto simp: eats_def)
  then show ?thesis
  proof (induction p arbitrary: s)
    case (Cons c cs)
    then have "newlines s = newlines (cs @ t)" using newlines_in_line [of c "cs @ t"] by simp
    then show ?case using Cons.IH [of "cs @ t"] Cons.prems by simp
  qed simp
qed

lemma newlines_eat:
  "eat_newline t = Some (nl, t') \<Longrightarrow> newlines t = newlines t' + (if nl then 1 else 0)"
  by (cases t rule: eat_newline.cases) (auto split: if_splits list.splits)

text \<open>Special characters that are no line ends.\<close>

definition plain :: "EasyScanner \<Rightarrow> bool" where
  "plain s \<longleftrightarrow> schar LF \<notin> set (whiteSpaceChars s) \<and> schar CR \<notin> set (whiteSpaceChars s) \<and>
     commentChar s \<noteq> schar LF \<and> commentChar s \<noteq> schar CR \<and> quoteChar s \<noteq> schar LF \<and> quoteChar s \<noteq> schar CR"

lemma plain_moves: "plain s \<Longrightarrow> moves s s' \<Longrightarrow> plain s'"
  by (simp add: plain_def moves_def)

lemma newlines_advance:
  "advance P t = Some t' \<Longrightarrow> \<not> P LF \<Longrightarrow> \<not> P CR \<Longrightarrow> newlines t = newlines t'"
  by (induction t) (auto split: if_splits)

lemma newlines_blanks:
  assumes "skip_blanks ws cc t = Some t'" and "schar LF \<notin> set ws" "schar CR \<notin> set ws" "cc \<noteq> schar LF" "cc \<noteq> schar CR"
  shows "newlines t = newlines t'"
proof -
  obtain t1 where t1: "advance (\<lambda>c. schar c \<in> set ws) t = Some t1"
      and rest: "(case t1 of [] \<Rightarrow> None | c # cs \<Rightarrow> if schar c = cc then skipToLineEnd cs else Some t1) = Some t'"
    using assms(1) by (auto simp: skip_blanks_def bind_Some_iff)
  have "newlines t = newlines t1" using newlines_advance [OF t1] assms(2,3) by simp
  moreover have "newlines t1 = newlines t'"
  proof (cases t1)
    case (Cons c cs)
    show ?thesis
    proof (cases "schar c = cc")
      case True
      then have "advance not_line_end cs = Some t'" "c \<noteq> LF" "c \<noteq> CR"
        using rest assms(4,5) by (auto simp: Cons skipToLineEnd_def)
      then show ?thesis using newlines_advance [of not_line_end cs t'] by (simp add: Cons not_line_end_def)
    qed (use rest in \<open>simp add: Cons\<close>)
  qed (use rest in simp)
  ultimately show ?thesis by simp
qed

lemma newlines_skipSpace_loop:
  assumes "schar LF \<notin> set ws" "schar CR \<notin> set ws" "cc \<noteq> schar LF" "cc \<noteq> schar CR"
    and run: "skipSpace_loop ws cc lo t n = Some (t', n')"
  shows "n' + newlines t' = n + newlines t"
proof -
  let ?P = "\<lambda>ws cc lo t n (t', n'). schar LF \<notin> set ws \<and> schar CR \<notin> set ws \<and> cc \<noteq> schar LF \<and> cc \<noteq> schar CR \<longrightarrow>
      n' + newlines t' = n + newlines t"
  have "?P ws cc lo t n (t', n')"
  proof (rule skipSpace_loop.raw_induct [where P = ?P, OF _ run])
    fix loop :: "int list \<Rightarrow> int \<Rightarrow> bool \<Rightarrow> string \<Rightarrow> int \<Rightarrow> (string \<times> int) option"
    fix ws cc lo t n x
    assume IH: "\<And>ws cc lo t n x. loop ws cc lo t n = Some x \<Longrightarrow> ?P ws cc lo t n x"
      and step: "skip_blanks ws cc t \<bind> (\<lambda>t1. if lo then Some (t1, n)
        else eat_newline t1 \<bind> (\<lambda>(nl, t2). if nl then loop ws cc lo t2 (n + 1) else Some (t1, n))) = Some x"
    show "?P ws cc lo t n x"
    proof (cases x, clarify)
      fix t' n'
      assume x: "x = (t', n')" and pl: "schar LF \<notin> set ws" "schar CR \<notin> set ws" "cc \<noteq> schar LF" "cc \<noteq> schar CR"
      obtain t1 where t1: "skip_blanks ws cc t = Some t1"
          and rest: "(if lo then Some (t1, n)
        else eat_newline t1 \<bind> (\<lambda>(nl, t2). if nl then loop ws cc lo t2 (n + 1) else Some (t1, n))) = Some x"
        using step by (auto simp: bind_Some_iff)
      have one: "newlines t = newlines t1" by (rule newlines_blanks [OF t1 pl])
      show "n' + newlines t' = n + newlines t"
      proof (cases lo)
        case True
        then show ?thesis using rest one x by simp
      next
        case False
        then obtain nl t2 where t2: "eat_newline t1 = Some (nl, t2)"
            and rec: "(if nl then loop ws cc lo t2 (n + 1) else Some (t1, n)) = Some x"
          using rest by (auto simp: bind_Some_iff)
        show ?thesis
        proof (cases nl)
          case True
          then have "n' + newlines t' = n + 1 + newlines t2" using IH [of ws cc lo t2 "n + 1" x] rec pl x by simp
          then show ?thesis using newlines_eat [OF t2] True one by simp
        next
          case False
          then show ?thesis using rec one x by simp
        qed
      qed
    qed
  qed
  then show ?thesis using assms(1-4) by simp
qed

lemma line_sum_skipSpace: "plain s \<Longrightarrow> skipSpace s = Some s1 \<Longrightarrow> line_sum s1 = line_sum s"
  using newlines_skipSpace_loop [of "whiteSpaceChars s" "commentChar s"]
  by (auto simp: skipSpace_def line_sum_def plain_def bind_Some_iff)

lemma line_sum_readLF0: "readLF0 s = Some (nl, s1) \<Longrightarrow> line_sum s1 = line_sum s"
  using newlines_eat by (auto simp: readLF0_def line_sum_def bind_Some_iff split: if_splits)

lemma line_sum_readLF: "plain s \<Longrightarrow> readLF s = Some (nl, s1) \<Longrightarrow> line_sum s1 = line_sum s"
  using line_sum_skipSpace line_sum_readLF0 by (auto simp: readLF_def bind_Some_iff)

lemma line_sum_blanks:
  assumes "do { s1 \<leftarrow> skipSpace s; g s1 } = Some (r, s')" and "plain s" and "scanner_wf s"
    and "\<And>s1. scanner_wf s1 \<Longrightarrow> moves s s1 \<Longrightarrow> g s1 = Some (r, s') \<Longrightarrow> line_sum s' = line_sum s1"
  shows "line_sum s' = line_sum s"
proof -
  obtain s1 where s1: "skipSpace s = Some s1" "moves s s1" "scanner_wf s1" using skipSpace_safe [OF assms(3)] by blast
  then show ?thesis using assms line_sum_skipSpace by simp
qed

lemma line_sum_values [simp]:
  "line_sum (s\<lparr>stringValue := w\<rparr>) = line_sum s" "line_sum (s\<lparr>charValue := c\<rparr>) = line_sum s"
  "line_sum (s\<lparr>intValue := i\<rparr>) = line_sum s" "line_sum (s\<lparr>doubleValue := d\<rparr>) = line_sum s"
  "line_sum (s\<lparr>symbolValue := j\<rparr>) = line_sum s"
  by (simp_all add: line_sum_def)

lemma line_sum_text: "newlines t = newlines (stext s) \<Longrightarrow> line_sum (s\<lparr>stext := t\<rparr>) = line_sum s"
  by (simp add: line_sum_def)

lemma line_sum_run:
  "read_run P s = Some (r, s') \<Longrightarrow> \<not> P LF \<Longrightarrow> \<not> P CR \<Longrightarrow> line_sum s' = line_sum s"
  using newlines_advance [of P "stext s"] by (auto simp: read_run_def line_sum_def bind_Some_iff split: if_splits)

lemma no_line_ends [simp]:
  "\<not> word_char LF" "\<not> word_char CR" "\<not> string_char d LF" "\<not> string_char d CR" "\<not> not_line_end LF" "\<not> not_line_end CR"
  "\<not> c_isalnum LF" "\<not> c_isalnum CR" "LF \<noteq> CHR ''_''" "CR \<noteq> CHR ''_''"
  by (simp_all add: word_char_def string_char_def not_line_end_def c_isalnum_def c_isalpha_def c_isdigit_def c_isascii_def
      c_isspace_def code_def LF_def CR_def)

lemma newlines_tail: "t = c # cs \<Longrightarrow> c \<noteq> LF \<Longrightarrow> c \<noteq> CR \<Longrightarrow> newlines cs = newlines t"
  by simp

lemma line_sum_readWord: "plain s \<Longrightarrow> scanner_wf s \<Longrightarrow> readWord s = Some (r, s') \<Longrightarrow> line_sum s' = line_sum s"
  unfolding readWord_def readWord0_def by (erule line_sum_blanks) (auto intro: line_sum_run)

lemma line_sum_readString: "plain s \<Longrightarrow> scanner_wf s \<Longrightarrow> readString s d = Some (r, s') \<Longrightarrow> line_sum s' = line_sum s"
  unfolding readString_def readString0_def by (erule line_sum_blanks) (auto intro: line_sum_run)

lemma line_sum_readBlock: "plain s \<Longrightarrow> scanner_wf s \<Longrightarrow> readUnquotedTextBlock s = Some (r, s') \<Longrightarrow> line_sum s' = line_sum s"
  unfolding readUnquotedTextBlock_def by (erule line_sum_blanks) (auto intro: line_sum_run)

lemma line_sum_readChar:
  assumes "plain s" and "scanner_wf s" and run: "readChar s = Some (r, s')"
  shows "line_sum s' = line_sum s"
proof (rule line_sum_blanks [OF run [unfolded readChar_def] assms(1,2)])
  fix s1 assume wf: "scanner_wf s1"
    and step: "do { c \<leftarrow> peek s1; Some (if c_isgraph c then (True, s1\<lparr>charValue := c, stext := tl (stext s1)\<rparr>) else (False, s1)) } = Some (r, s')"
  obtain c cs where c: "stext s1 = c # cs" "peek s1 = Some c" using wf_cases [OF wf] by metis
  show "line_sum s' = line_sum s1"
  proof (cases "c_isgraph c")
    case True
    then have "newlines cs = newlines (stext s1)" using newlines_in_line [of c cs] c(1) by simp
    then show ?thesis using step c True by (auto simp: line_sum_def)
  qed (use step c in auto)
qed

lemma line_sum_peekChar: "plain s \<Longrightarrow> scanner_wf s \<Longrightarrow> peekChar s = Some (r, s') \<Longrightarrow> line_sum s' = line_sum s"
  unfolding peekChar_def by (erule line_sum_blanks) (auto simp: bind_Some_iff)

lemma line_sum_isEOF: "plain s \<Longrightarrow> scanner_wf s \<Longrightarrow> isEOF s = Some (r, s') \<Longrightarrow> line_sum s' = line_sum s"
  unfolding isEOF_def by (erule line_sum_blanks) (auto simp: bind_Some_iff)

lemma line_sum_readLFEOF: "plain s \<Longrightarrow> scanner_wf s \<Longrightarrow> readLFEOF s = Some (r, s') \<Longrightarrow> line_sum s' = line_sum s"
  unfolding readLFEOF_def
  by (erule line_sum_blanks) (auto simp: bind_Some_iff dest: line_sum_readLF0 split: if_splits)

lemma line_sum_readSymbol: "plain s \<Longrightarrow> scanner_wf s \<Longrightarrow> readSymbol s = Some (r, s') \<Longrightarrow> line_sum s' = line_sum s"
  using line_sum_readWord by (fastforce simp: readSymbol_def Let_def bind_Some_iff split: if_splits)

lemma line_sum_readSymbol_is: "plain s \<Longrightarrow> scanner_wf s \<Longrightarrow> readSymbol_is s i = Some (r, s') \<Longrightarrow> line_sum s' = line_sum s"
  using line_sum_readWord by (fastforce simp: readSymbol_is_def Let_def bind_Some_iff line_sum_def split: if_splits)

lemma newlines_quoted_line:
  "quoted_line q t = Some (Some t') \<Longrightarrow> newlines t = newlines t' \<and> t' \<noteq> [] \<and> not_line_end (hd t')"
  by (induction q t rule: quoted_line.induct) (auto split: if_splits)

lemma line_sum_quoted:
  assumes "isLineOriented s" and "extractQuotedString s = Some (r, s')" and "stext s = c # cs" and "not_line_end c"
  shows "line_sum s' = line_sum s"
proof -
  have org: "newlines cs = newlines (stext s)" using assms(3,4) newlines_in_line by simp
  obtain close where close: "quoted_line (quoteChar s) cs = Some close"
      and s': "s' = (case close of None \<Rightarrow> s\<lparr>stext := cs, lineNumber := lineNumber s\<rparr>
        | Some t \<Rightarrow> s\<lparr>stext := tl t, lineNumber := lineNumber s, stringValue := taken cs t\<rparr>)"
    using assms(1-3) by (auto simp: extractQuotedString_def bind_Some_iff split: option.splits)
  show ?thesis
  proof (cases close)
    case None
    then show ?thesis using s' org by (simp add: line_sum_def)
  next
    case (Some t)
    then have t: "newlines cs = newlines t" "t \<noteq> []" "not_line_end (hd t)" using newlines_quoted_line close by blast+
    then have "newlines (tl t) = newlines t" using newlines_in_line [of "hd t" "tl t"] by (cases t) auto
    then show ?thesis using s' Some org t(1) by (simp add: line_sum_def)
  qed
qed

lemma quote_in_line:
  assumes "plain s" and "scanner_wf s" and "schar c = quoteChar s"
  shows "not_line_end c"
  using assms schar_NUL by (auto simp: plain_def scanner_wf_def not_line_end_def)

lemma quote_line_oriented: "quote_fine s \<Longrightarrow> schar c = quoteChar s \<Longrightarrow> isLineOriented s"
  using schar_range [of c] by (auto simp: quote_fine_def)

lemma line_sum_readQuoted:
  assumes "plain s" and "scanner_wf s" and "quote_fine s" and run: "readQuotedString s b = Some (r, s')"
  shows "line_sum s' = line_sum s"
proof (rule line_sum_blanks [OF run [unfolded readQuotedString_def] assms(1,2)])
  fix s1 assume wf: "scanner_wf s1" and mv: "moves s s1"
    and step: "do { c \<leftarrow> peek s1; if schar c = quoteChar s1 then extractQuotedString s1
          else if b then readString0 s1 (schar (CHR '' '')) else Some (False, s1) } = Some (r, s')"
  have pl: "plain s1" and fine: "quote_fine s1" using plain_moves quote_fine_moves mv assms(1,3) by blast+
  obtain c cs where c: "stext s1 = c # cs" "peek s1 = Some c" using wf_cases [OF wf] by metis
  show "line_sum s' = line_sum s1"
  proof (cases "schar c = quoteChar s1")
    case True
    then show ?thesis
      using step c line_sum_quoted [OF quote_line_oriented [OF fine True] _ c(1) quote_in_line [OF pl wf True]] by simp
  next
    case False
    then show ?thesis
      using step c line_sum_run [of "string_char (schar (CHR '' ''))" s1 r s'] by (auto simp: readString0_def split: if_splits)
  qed
qed

lemma line_sum_number:
  assumes "stext s = c # cs" and "not_line_end c" and "\<not> c_isspace c" and "read_number pow10 s c = (r, s')"
  shows "line_sum s' = line_sum s"
proof -
  obtain v t where vt: "c_strtol (stext s) = (v, t)" by fastforce
  obtain d u where du: "mystrtod pow10 (stext s) = (d, u)" by fastforce
  have "newlines t = newlines (stext s)"
    using c_strtol_eats [OF vt] newlines_eats assms(1,3) by fastforce
  moreover have "newlines u = newlines (stext s)" using newlines_eats mystrtod_eats [OF du] by metis
  moreover have "newlines (tl (stext s)) = newlines (stext s)" using assms(1,2) newlines_in_line [of c cs] by simp
  ultimately show ?thesis
    using assms(4) by (auto simp: read_number_def vt du Let_def set_text_def line_sum_def split: if_splits)
qed

lemma line_sum_name:
  assumes "stext s = c # cs" and "not_line_end c" and "read_name s c = Some (r, s')"
  shows "line_sum s' = line_sum s"
proof -
  obtain t where t: "advance (\<lambda>d. c_isalnum d \<or> d = CHR ''_'') cs = Some t" and s': "stext s' = t" "lineNumber s' = lineNumber s"
    using assms(1,3) by (auto simp: read_name_def bind_Some_iff Let_def split: if_splits)
  have "newlines cs = newlines t" using newlines_advance [OF t] by simp
  then show ?thesis using s' assms(1,2) newlines_in_line [of c cs] by (simp add: line_sum_def)
qed

lemma not_space: "c_isdigit c \<or> c = CHR ''+'' \<or> c = CHR ''-'' \<Longrightarrow> \<not> c_isspace c"
  by (auto simp: c_isdigit_def c_isspace_def code_def)

lemma line_sum_readToken:
  assumes "plain s" and "scanner_wf s" and "quote_fine s" and run: "readToken pow10 s = Some (r, s')"
  shows "line_sum s' = line_sum s"
proof (rule line_sum_blanks [OF run [unfolded readToken_def] assms(1,2)])
  fix s1 assume wf: "scanner_wf s1" and mv: "moves s s1"
    and step: "do { c \<leftarrow> peek s1;
          if c_isdigit c \<or> c = CHR ''+'' \<or> c = CHR ''-'' then Some (read_number pow10 s1 c)
          else if c_isalpha c then read_name s1 c
          else if schar c = quoteChar s1 then
            do { (ok, s1) \<leftarrow> extractQuotedString s1; Some (if ok then T_STRING else T_SIGLUM, s1) }
          else if c_ispunct c then Some (T_SIGLUM, s1\<lparr>charValue := c, stext := tl (stext s1)\<rparr>)
          else do {
            (nl, s1) \<leftarrow> readLF0 s1;
            Some (if nl then T_LF else if c = NUL then T_EOF else T_NONE, s1) } } = Some (r, s')"
  have pl: "plain s1" and fine: "quote_fine s1" using plain_moves quote_fine_moves mv assms(1,3) by blast+
  obtain c cs where c: "stext s1 = c # cs" "peek s1 = Some c" using wf_cases [OF wf] by metis
  let ?num = "c_isdigit c \<or> c = CHR ''+'' \<or> c = CHR ''-''"
  show "line_sum s' = line_sum s1"
  proof (cases ?num)
    case True
    then have "not_line_end c" by auto
    then show ?thesis using True step c line_sum_number [OF c(1) _ not_space [OF True]] by simp
  next
    case num: False
    show ?thesis
    proof (cases "c_isalpha c")
      case True
      then show ?thesis using num step c line_sum_name [OF c(1)] by simp
    next
      case alpha: False
      show ?thesis
      proof (cases "schar c = quoteChar s1")
        case True
        then show ?thesis
          using num alpha step c line_sum_quoted [OF quote_line_oriented [OF fine True] _ c(1) quote_in_line [OF pl wf True]]
          by (auto simp: bind_Some_iff)
      next
        case quote: False
        show ?thesis
        proof (cases "c_ispunct c")
          case True
          then have "newlines cs = newlines (stext s1)" using newlines_in_line [of c cs] c(1) by simp
          then show ?thesis using num alpha quote True step c by (auto simp: line_sum_def)
        next
          case False
          then show ?thesis using num alpha quote step c line_sum_readLF0 by (auto simp: bind_Some_iff)
        qed
      qed
    qed
  qed
qed

lemma newlines_skip_line:
  "skip_line t = Some (nl, t') \<Longrightarrow> newlines t = newlines t' + (if nl then 1 else 0)"
proof (induction t)
  case (Cons c cs)
  obtain b u where u: "eat_newline (c # cs) = Some (b, u)"
      and rest: "(if b then Some (True, u) else if c = NUL then Some (False, c # cs) else skip_line cs) = Some (nl, t')"
    using Cons.prems by (auto simp: bind_Some_iff)
  show ?case
  proof (cases b)
    case True
    then show ?thesis using rest newlines_eat [OF u] by simp
  next
    case False
    then have "c \<noteq> LF" "c \<noteq> CR" using u by (auto split: if_splits list.splits)
    then show ?thesis using False rest Cons.IH by (auto split: if_splits)
  qed
qed simp

lemma line_sum_skipLine: "skipLine s = Some (r, s') \<Longrightarrow> line_sum s' = line_sum s"
  using newlines_skip_line [of "stext s"] by (auto simp: skipLine_def line_sum_def bind_Some_iff split: if_splits)

lemma line_sum_skipBlankLines:
  "plain s \<Longrightarrow> scanner_wf s \<Longrightarrow> skipBlankLines s = Some (r, s') \<Longrightarrow> line_sum s' = line_sum s"
proof (induction "length (stext s)" arbitrary: s rule: less_induct)
  case less
  obtain nl s1 where s1: "readLF s = Some (nl, s1)" "moves s s1" using readLF_safe [OF less.prems(2)] by (auto simp: safe_def)
  obtain c where c: "peek s = Some c" using wf_cases [OF less.prems(2)] by metis
  have one: "line_sum s1 = line_sum s" by (rule line_sum_readLF [OF less.prems(1) s1(1)])
  show ?case
  proof (cases "c \<noteq> NUL \<and> nl")
    case True
    then have "skipBlankLines s1 = Some (r, s')"
      using less.prems(3) c s1(1) by (simp add: skipBlankLines.simps [of s])
    moreover have "length (stext s1) < length (stext s)" using readLF_shorter [OF less.prems(2)] s1(1) True by simp
    ultimately show ?thesis
      using less.hyps plain_moves [OF less.prems(1) s1(2)] moves_wf [OF less.prems(2) s1(2)] one by metis
  next
    case False
    then show ?thesis using less.prems(3) c s1(1) one by (auto simp: skipBlankLines.simps [of s] split: if_splits)
  qed
qed

text \<open>Requests whose lines are counted right.\<close>

fun counted :: "request \<Rightarrow> bool" where
  "counted ReadDouble = False"
| "counted ReadInt = False"
| "counted CheckLF = False"
| "counted (ReadChar_is c) = (not_line_end c)"
| "counted (ReadString_is str) = (\<forall>c \<in> set str. not_line_end c)"
| "counted _ = True"

lemma line_sum_readChar_is:
  assumes "plain s" and "scanner_wf s" and c0: "not_line_end c0" and run: "readChar_is s (schar c0) = Some (r, s')"
  shows "line_sum s' = line_sum s"
proof (rule line_sum_blanks [OF run [unfolded readChar_is_def] assms(1,2)])
  fix s1 assume wf: "scanner_wf s1"
    and step: "do { c \<leftarrow> peek s1; Some (if schar c = schar c0 then (True, set_text s1 (tl (stext s1))) else (False, s1)) } = Some (r, s')"
  obtain c cs where c: "stext s1 = c # cs" "peek s1 = Some c" using wf_cases [OF wf] by metis
  show "line_sum s' = line_sum s1"
  proof (cases "schar c = schar c0")
    case True
    then have "code c = code c0" using code_less [of c] code_less [of c0] by (auto simp: schar_def split: if_splits)
    then have "c = c0" by (simp add: code_def)
    then have "newlines cs = newlines (stext s1)" using c0 newlines_in_line [of c cs] c(1) by simp
    then show ?thesis using step c True by (auto simp: line_sum_def set_text_def)
  qed (use step c in auto)
qed

lemma newlines_match:
  "match_text ps t = Some (Some t') \<Longrightarrow> \<forall>c \<in> set ps. not_line_end c \<Longrightarrow> newlines t = newlines t'"
  by (induction ps t rule: match_text.induct) (auto simp: not_line_end_def split: if_splits)

lemma line_sum_readString_is:
  assumes "plain s" and "scanner_wf s" and "\<forall>c \<in> set str. not_line_end c" and run: "readString_is s str = Some (r, s')"
  shows "line_sum s' = line_sum s"
  using run [unfolded readString_is_def] assms(1,2)
  by (rule line_sum_blanks)
    (use newlines_match assms(3) in \<open>auto simp: line_sum_def set_text_def bind_Some_iff split: option.splits\<close>)

lemma serve_counts:
  assumes "plain s" and "scanner_wf s" and "quote_fine s" and "counted rq" and run: "serve pow10 rq s = Some s'"
  shows "line_sum s' = line_sum s"
  using assms(4) run
  by (cases rq) (auto simp: finish_def dest: line_sum_readToken [OF assms(1-3)] line_sum_readChar [OF assms(1,2)]
    line_sum_readChar_is [OF assms(1,2)] line_sum_peekChar [OF assms(1,2)] line_sum_readWord [OF assms(1,2)]
    line_sum_readString [OF assms(1,2)] line_sum_readString_is [OF assms(1,2)] line_sum_readQuoted [OF assms(1-3)]
    line_sum_readBlock [OF assms(1,2)] line_sum_readSymbol [OF assms(1,2)] line_sum_readSymbol_is [OF assms(1,2)]
    line_sum_isEOF [OF assms(1,2)] line_sum_readLF [OF assms(1)] line_sum_readLFEOF [OF assms(1,2)]
    line_sum_skipLine line_sum_skipBlankLines [OF assms(1,2)])

interpretation counted_steps: guarded_steps "serve pow10" "\<lambda>rq. without_NUL rq \<and> counted rq"
    "\<lambda>s. scanner_wf s \<and> quote_fine s \<and> plain s" "\<lambda>s s'. line_sum s' = line_sum s"
  for pow10
proof unfold_locales
  fix s r assume s: "scanner_wf s \<and> quote_fine s \<and> plain s" and r: "without_NUL r \<and> counted r"
  then obtain s' where "serve pow10 r s = Some s'" "moves s s'" using serve_safe [of s r pow10] by blast
  then show "\<exists>s'. serve pow10 r s = Some s' \<and> (scanner_wf s' \<and> quote_fine s' \<and> plain s') \<and> line_sum s' = line_sum s"
    using serve_counts [of s r pow10 s'] moves_wf quote_fine_moves plain_moves s r by blast
qed simp_all

text \<open>
  C22: after any sequence of the requests that neither look ahead for a line end nor take one
  uncounted, the line number is the offset plus the number of line ends passed. Left out are
  \<open>readInt\<close>, \<open>readDouble\<close> and \<open>checkLF\<close>, which count a line end they do not pass
  (\<open>checkLF_counts_again\<close>), asking for a character or text that contains a line end, which is
  passed uncounted, line ends as blank, comment or quote characters, quoted strings that span
  lines (\<open>quote_fine\<close>), \<open>readLine\<close> and the operators \<open>>>\<close>.
\<close>

theorem line_number_exact:
  assumes "plain s" and "0 \<notin> set (whiteSpaceChars s)" and "commentChar s \<noteq> 0" and "quoteChar s \<noteq> 0" and "quote_fine s"
    and "\<forall>rq \<in> set rqs. without_NUL rq \<and> counted rq" and "session pow10 rqs (setText s input) = Some s'"
  shows "lineNumber s' = lineNumberOffset s + newlines (input @ [NUL]) - newlines (stext s')"
proof -
  have "plain (setText s input)" "quote_fine (setText s input)"
    using assms(1,5) by (simp_all add: plain_def quote_fine_def setText_def)
  then have "line_sum s' = line_sum (setText s input)"
    using counted_steps.run_all_ok [of "setText s input" rqs pow10] setText_wf [OF assms(2-4)] assms(6,7)
    unfolding session_def by fastforce
  then show ?thesis by (simp add: line_sum_def setText_def)
qed

text \<open>
  C27: \<open>checkLF\<close>, which \<open>readInt\<close> and \<open>readDouble\<close> call, puts the position back but not the line
  number: at a line end every call counts the line once more.
\<close>

theorem checkLF_counts_again:
  assumes "scanner_wf s" and "isLineOriented s" and "checkLF s = Some (True, s')"
  shows "stext s' = stext s \<and> lineNumber s' = lineNumber s + 1 \<and>
    readInt s = Some (False, s') \<and> readDouble pow10 s = Some (False, s') \<and>
    (\<exists>s2. checkLF s' = Some (True, s2) \<and> lineNumber s2 = lineNumber s + 2)"
proof -
  have step: "checkLF v = (case skip_blanks (whiteSpaceChars v) (commentChar v) (stext v) of None \<Rightarrow> None
      | Some t1 \<Rightarrow> (case eat_newline t1 of None \<Rightarrow> None
         | Some (nl, t2) \<Rightarrow> Some (nl, if nl then v\<lparr>lineNumber := lineNumber v + 1\<rparr> else v\<lparr>stext := t1\<rparr>)))"
    if "isLineOriented v" for v
    using that
    by (cases v) (simp add: checkLF_def readLF_def skipSpace_def skipSpace_loop.simps readLF0_def split: option.splits)
  have s': "s' = s\<lparr>lineNumber := lineNumber s + 1\<rparr>"
    using assms(3) step [OF assms(2)] by (auto split: option.splits prod.splits if_splits)
  have "readInt s = Some (False, s')" "readDouble pow10 s = Some (False, s')"
    using assms(3) by (simp_all add: readInt_def readDouble_def)
  moreover have "checkLF s' = Some (True, s'\<lparr>lineNumber := lineNumber s' + 1\<rparr>)"
    using assms(3) step [of s'] step [OF assms(2)] assms(2) by (auto simp: s' split: option.splits prod.splits if_splits)
  ultimately show ?thesis by (simp add: s')
qed

section \<open>Numbers\<close>

lemma takeWhile_all: "\<forall>x \<in> set xs. P x \<Longrightarrow> \<not> P y \<Longrightarrow> takeWhile P (xs @ y # ys) = xs \<and> dropWhile P (xs @ y # ys) = y # ys"
  by (induction xs) auto

lemma digit_val_digit: "c_isdigit c \<Longrightarrow> digit_val c < 10"
  by (auto simp: digit_val_def c_isdigit_def)

lemma digit_val_10: "digit_val c < 10 \<longleftrightarrow> c_isdigit c"
  by (auto simp: digit_val_def c_isdigit_def c_isalpha_def c_tolower_def code_def)

lemma number_base_decimal:
  assumes "0 < n" and "\<not> c_isdigit c"
  shows "number_base (decimal n @ c # rest) = (10, decimal n @ c # rest)"
proof -
  obtain d ds where d: "decimal n = d # ds" using decimal_digits [of n] by (cases "decimal n") auto
  then have "d \<noteq> CHR ''0''" using decimal_no_leading_zero [OF assms(1)] by simp
  then show ?thesis unfolding d by (cases "ds @ c # rest" rule: list.exhaust) (auto simp: number_base_def split: list.split)
qed

lemma c_strtol_decimal:
  assumes "i \<noteq> 0" and "- (2 ^ 31) \<le> i" and "i < 2 ^ 31" and "\<not> c_isdigit c"
  shows "c_strtol (decimal_int i @ c # rest) = (i, c # rest)"
proof -
  define n where "n = nat \<bar>i\<bar>"
  have n: "0 < n" using assms(1) by (simp add: n_def)
  obtain d ds where d: "decimal n = d # ds" "c_isdigit d" using decimal_digits [of n] by (cases "decimal n") auto
  have nosign: "d \<noteq> CHR ''-''" "d \<noteq> CHR ''+''" "\<not> c_isspace d" using d(2) by (auto simp: c_isdigit_def c_isspace_def code_def)
  have digits: "takeWhile (\<lambda>c. digit_val c < 10) (decimal n @ c # rest) = decimal n"
      "dropWhile (\<lambda>c. digit_val c < 10) (decimal n @ c # rest) = c # rest"
    using takeWhile_all [of "decimal n" c_isdigit c rest] decimal_digits [of n] assms(4) unfolding digit_val_10 by auto
  have i: "decimal_int i = (if i < 0 then CHR ''-'' # decimal n else decimal n)"
    by (simp add: decimal_int_def n_def)
  have minus: "\<not> c_isspace (CHR ''-'')" by (simp add: c_isspace_def code_def)
  have str: "dropWhile c_isspace (decimal_int i @ c # rest) = decimal_int i @ c # rest"
      and sign: "take_sign (decimal_int i @ c # rest) = (i < 0, decimal n @ c # rest)"
    using nosign minus by (simp_all add: i take_sign_def d)
  have "digits_val 10 (decimal n) = \<bar>i\<bar>" by (simp add: digits_val_decimal n_def)
  moreover have "decimal n \<noteq> []" by (simp add: d)
  ultimately show ?thesis
    using assms(2,3) by (simp add: c_strtol_def str sign number_base_decimal [OF n assms(4)] digits Let_def)
qed

text \<open>
  A printed \<open>0\<close> is a prefix of hexadecimal and octal numerals too: base 0 lets \<open>strtol\<close> read on
  when \<open>x\<close> and a hexadecimal digit follow.
\<close>

definition hex_follows :: "char \<Rightarrow> string \<Rightarrow> bool" where
  "hex_follows c rest \<longleftrightarrow> c_tolower c = CHR ''x'' \<and> rest \<noteq> [] \<and> c_isxdigit (hd rest)"

lemma digit_val_16: "digit_val c < 16 \<longleftrightarrow> c_isxdigit c"
  using code_less [of c]
  by (auto simp: digit_val_def c_isxdigit_def c_isdigit_def c_isalpha_def c_tolower_def code_char_of)

lemma digit_val_8: "\<not> c_isdigit c \<Longrightarrow> \<not> digit_val c < 8"
  using code_less [of c]
  by (auto simp: digit_val_def c_isdigit_def c_isalpha_def c_tolower_def code_char_of)

lemma digits_val_nonneg: "0 \<le> digits_val b ds"
proof -
  have "0 \<le> v \<Longrightarrow> 0 \<le> foldl (\<lambda>v c. v * int b + int (digit_val c)) v ds" for v
    by (induction ds arbitrary: v) auto
  then show ?thesis by (simp add: digits_val_def)
qed

lemma decimal_int_0: "decimal_int 0 = ''0''"
  by code_simp

lemma c_strtol_zero:
  assumes "\<not> c_isdigit c"
  shows "c_strtol (CHR ''0'' # c # rest) =
    (if hex_follows c rest
     then (min (2 ^ 63 - 1) (digits_val 16 (takeWhile c_isxdigit rest)), dropWhile c_isxdigit rest)
     else (0, c # rest))"
proof -
  have zero: "\<not> c_isspace (CHR ''0'')" "digit_val (CHR ''0'') = 0"
    by (simp_all add: c_isspace_def digit_val_def c_isdigit_def code_def)
  have str: "take_sign (dropWhile c_isspace (CHR ''0'' # c # rest)) = (False, CHR ''0'' # c # rest)"
    by (simp add: zero take_sign_def)
  show ?thesis
  proof (cases "hex_follows c rest")
    case True
    then obtain d ds where d: "rest = d # ds" "c_isxdigit d" "c_tolower c = CHR ''x''"
      by (cases rest) (auto simp: hex_follows_def)
    have base: "number_base (CHR ''0'' # c # rest) = (16, rest)"
      by (simp add: number_base_def d)
    have "takeWhile c_isxdigit rest \<noteq> []" by (simp add: d(1,2))
    then show ?thesis
      unfolding c_strtol_def str Let_def prod.case base digit_val_16
      using True digits_val_nonneg [of 16 "takeWhile c_isxdigit rest"] by simp
  next
    case False
    have base: "number_base (CHR ''0'' # c # rest) = (8, CHR ''0'' # c # rest)"
      using False by (cases rest) (auto simp: number_base_def hex_follows_def)
    show ?thesis
      unfolding c_strtol_def str Let_def prod.case base
      using False digit_val_8 [OF assms] by (simp add: zero digits_val_def)
  qed
qed

text \<open>
  C24: an \<open>int\<close> that was printed in decimal is read back by \<open>readInt\<close>, and the scanner stands
  right behind it, when something other than a digit comes after it and the numeral does not
  begin with a blank or comment character of the scanner. There is one exception: when \<open>x\<close> and
  a hexadecimal digit come after a printed \<open>0\<close>, the hexadecimal number is read instead.
\<close>

theorem readInt_decimal:
  assumes "isLineOriented s" and "\<not> schar (hd (decimal_int i)) \<in> set (whiteSpaceChars s)"
    and "commentChar s \<noteq> schar (hd (decimal_int i))"
    and "- (2 ^ 31) \<le> i" and "i < 2 ^ 31" and "\<not> c_isdigit c"
  shows "readInt (s\<lparr>stext := decimal_int i @ c # rest\<rparr>) = Some (True,
    if i = 0 \<and> hex_follows c rest
    then s\<lparr>stext := dropWhile c_isxdigit rest,
           intValue := to_int32 (min (2 ^ 63 - 1) (digits_val 16 (takeWhile c_isxdigit rest)))\<rparr>
    else s\<lparr>stext := c # rest, intValue := i\<rparr>)"
proof -
  obtain d ds where d: "decimal_int i = d # ds" by (cases "decimal_int i") (auto simp: decimal_int_def decimal_digits split: if_splits)
  have "not_line_end d"
    using d decimal_digits [of "nat i"] by (cases "decimal (nat i)") (auto simp: decimal_int_def split: if_splits)
  then have nl: "d \<noteq> LF" "d \<noteq> CR" by (auto simp: not_line_end_def)
  have "skipSpace (s\<lparr>stext := decimal_int i @ c # rest\<rparr>) = Some (s\<lparr>stext := decimal_int i @ c # rest\<rparr>)"
    using assms(1-3) d by (simp add: skipSpace_def skipSpace_loop.simps skip_blanks_def)
  then have look: "checkLF (s\<lparr>stext := decimal_int i @ c # rest\<rparr>) = Some (False, s\<lparr>stext := decimal_int i @ c # rest\<rparr>)"
    using nl by (simp add: checkLF_def readLF_def readLF0_def d)
  show ?thesis
  proof (cases "i = 0")
    case False
    then show ?thesis
      using look c_strtol_decimal [OF False assms(4-6), of rest] to_int32_id [OF assms(4,5)] d
      by (simp add: readInt_def set_text_def)
  next
    case True
    have short: "length (dropWhile c_isxdigit rest) < Suc (Suc (length rest))"
      using length_dropWhile_le [of c_isxdigit rest] by simp
    have "dropWhile c_isxdigit rest \<noteq> CHR ''0'' # c # rest" using short by auto
    then show ?thesis
      using look c_strtol_zero [OF assms(6), of rest] to_int32_id [of 0]
      by (simp add: readInt_def set_text_def True decimal_int_0)
  qed
qed

section \<open>Tokens\<close>

lemma suffix_shorter: "suffix t' t \<Longrightarrow> t' \<noteq> t \<Longrightarrow> length t' < length t"
  by (auto simp: suffix_def)

lemma read_number_shorter:
  assumes wf: "scanner_wf s" and c: "stext s = c # cs" and run: "read_number pow10 s c = (r, s')"
  shows "length (stext s') < length (stext s) \<and> r \<noteq> T_EOF \<and> r \<noteq> T_NONE"
proof -
  obtain v t where vt: "c_strtol (stext s) = (v, t)" by fastforce
  obtain d u where du: "mystrtod pow10 (stext s) = (d, u)" by fastforce
  have e: "ends (stext s)" using wf by (simp add: scanner_wf_def)
  have "suffix t (stext s)" "suffix u (stext s)"
    using c_strtol_tail [OF vt e] eats_suffix [OF e mystrtod_eats [OF du]] by blast+
  then have "t \<noteq> stext s \<longrightarrow> length t < length (stext s)" "u \<noteq> stext s \<longrightarrow> length u < length (stext s)"
    using suffix_shorter by blast+
  moreover have "length (tl (stext s)) < length (stext s)" by (simp add: c)
  ultimately show ?thesis
    using run by (auto simp: read_number_def vt du Let_def set_text_def split: if_splits)
qed

lemma extract_shorter:
  assumes "scanner_wf s" and "isLineOriented s" and "quoteChar s \<noteq> 0" and "stext s = c # cs" and "c \<noteq> NUL"
    and "extractQuotedString s = Some (r, s')"
  shows "length (stext s') < length (stext s)"
proof -
  have "ends cs" using assms(1,4,5) ends_tail by (auto simp: scanner_wf_def)
  then show ?thesis
    using quoted_line_ends [of cs "quoteChar s"] assms(2-4,6)
    by (auto simp: extractQuotedString_def le_imp_less_Suc dest!: suffix_length_le)
qed

text \<open>
  C23: every token but the last consumes something. \<open>T_EOF\<close> and \<open>T_NONE\<close> consume blanks
  only: at the NUL, or at a character that is no letter, digit, punctuation or line end, where
  a loop that waits for \<open>T_EOF\<close> never ends.
\<close>

theorem readToken_progress:
  assumes "scanner_wf s" and "quote_fine s" and run: "readToken pow10 s = Some (tk, s')"
  shows "if tk = T_EOF \<or> tk = T_NONE then skipSpace s = Some s' \<and> (tk = T_EOF \<longleftrightarrow> peek s' = Some NUL)
    else length (stext s') < length (stext s)"
proof -
  obtain s1 where s1: "skipSpace s = Some s1" "moves s s1" "scanner_wf s1" using skipSpace_safe [OF assms(1)] by blast
  have le: "length (stext s1) \<le> length (stext s)" using s1 skipSpace_shorter by blast
  have fine: "quote_fine s1" using quote_fine_moves s1(2) assms(2) by blast
  obtain c cs where c: "stext s1 = c # cs" "peek s1 = Some c" using wf_cases [OF s1(3)] by metis
  let ?num = "c_isdigit c \<or> c = CHR ''+'' \<or> c = CHR ''-''"
  consider (num) ?num | (name) "\<not> ?num" "c_isalpha c" | (quote) "\<not> ?num" "\<not> c_isalpha c" "schar c = quoteChar s1"
    | (punct) "\<not> ?num" "\<not> c_isalpha c" "schar c \<noteq> quoteChar s1" "c_ispunct c"
    | (other) "\<not> ?num" "\<not> c_isalpha c" "schar c \<noteq> quoteChar s1" "\<not> c_ispunct c" by blast
  then show ?thesis
  proof cases
    case num
    then have "read_number pow10 s1 c = (tk, s')" using run s1(1) c(2) by (simp add: readToken_def)
    then show ?thesis
      using read_number_shorter [OF s1(3) c(1)] le by fastforce
  next
    case name
    then have nm: "read_name s1 c = Some (tk, s')" using run s1(1) c(2) by (simp add: readToken_def)
    then obtain t where t: "advance (\<lambda>d. c_isalnum d \<or> d = CHR ''_'') cs = Some t" "stext s' = t" "tk = T_ALPHABET \<or> tk = T_WORD"
      using c(1) by (auto simp: read_name_def bind_Some_iff Let_def split: if_splits)
    have "length t \<le> length cs" using t(1) by (induction cs) (auto split: if_splits)
    then show ?thesis using t(2,3) le c(1) by auto
  next
    case quote
    then obtain ok where x: "extractQuotedString s1 = Some (ok, s')" "tk = (if ok then T_STRING else T_SIGLUM)"
      using run s1(1) c(2) by (auto simp: readToken_def bind_Some_iff)
    have "quoteChar s1 \<noteq> 0" using s1(3) by (simp add: scanner_wf_def)
    then have "c \<noteq> NUL" using quote(3) by auto
    then show ?thesis
      using extract_shorter [OF s1(3) quote_line_oriented [OF fine quote(3)] \<open>quoteChar s1 \<noteq> 0\<close> c(1) _ x(1)] x(2) le by auto
  next
    case punct
    then show ?thesis using run s1(1) c le by (auto simp: readToken_def)
  next
    case other
    then obtain nl where nl: "readLF0 s1 = Some (nl, s')" "tk = (if nl then T_LF else if c = NUL then T_EOF else T_NONE)"
      using run s1(1) c(2) by (auto simp: readToken_def bind_Some_iff)
    obtain b t where b: "eat_newline (stext s1) = Some (b, t)" "b \<longrightarrow> length t < length (stext s1)"
      using eat_newline_ends [of "stext s1"] s1(3) by (auto simp: scanner_wf_def split: if_splits)
    then have "nl = b" "b \<longrightarrow> stext s' = t" using nl(1) by (auto simp: readLF0_def)
    then have "nl \<longrightarrow> length (stext s') < length (stext s1)" using b(2) by simp
    moreover have "\<not> nl \<longrightarrow> s' = s1" using nl(1) by (auto simp: readLF0_def bind_Some_iff split: if_splits)
    ultimately show ?thesis using nl(2) s1(1) c(2) le by auto
  qed
qed

section \<open>Floating point numbers\<close>

lemma rnd_nat: "n < 2 ^ 53 \<Longrightarrow> rnd (of_nat n) = Fin (of_nat n)"
  using rnd_of_int [of "int n"] by simp

lemma acc_digits_decimal: "n < 2 ^ 53 \<Longrightarrow> acc_digits (decimal n) = Fin (of_nat n)"
proof (induction n rule: decimal.induct)
  case (1 n)
  have snoc: "acc_digits (ds @ [char_of (48 + k)]) = dadd (dmul (acc_digits ds) (Fin 10)) (of_int_d (int k))" if "k < 10" for ds k
    using digit_char(3) [OF that] by (simp add: acc_digits_def)
  have d: "of_int_d (int k) = Fin (of_nat k)" if "k < 10" for k
    using that rnd_nat [of k] by (simp add: of_int_d_def)
  show ?case
  proof (cases "n < 10")
    case True
    then show ?thesis using snoc [OF True, of "[]"] d [OF True] rnd_nat [OF "1.prems"]
      by (simp add: decimal.simps [of n] acc_digits_def [of "[]"] d)
  next
    case False
    let ?q = "n div 10" and ?r = "n mod 10"
    have q: "?q * 10 \<le> n" "?q < 2 ^ 53" using "1.prems" by auto
    then have "rnd (of_nat (?q * 10)) = Fin (of_nat (?q * 10))" using "1.prems" by (intro rnd_nat) simp
    moreover have "of_nat ?q * 10 + of_nat ?r = (of_nat n :: rat)"
      by (metis div_mult_mod_eq of_nat_add of_nat_mult of_nat_numeral)
    moreover have "acc_digits (decimal ?q) = Fin (of_nat ?q)" using 1 False q(2) by simp
    ultimately show ?thesis
      using False snoc [of ?r "decimal ?q"] d [of ?r] rnd_nat [OF "1.prems"] by (simp add: decimal.simps [of n])
  qed
qed

lemma mystrtod_number_decimal:
  assumes "n < 2 ^ 53" and "\<not> c_isdigit c" and "c \<notin> set ''.eE''"
  shows "mystrtod_number pow10 org False (decimal n @ c # rest) = (Fin (of_nat n), c # rest)"
proof -
  have "takeWhile c_isdigit (decimal n @ c # rest) = decimal n" "dropWhile c_isdigit (decimal n @ c # rest) = c # rest"
    using takeWhile_all [of "decimal n" c_isdigit c rest] decimal_digits [of n] assms(2) by auto
  then show ?thesis
    using assms(3) acc_digits_decimal [OF assms(1)] decimal_digits [of n] rnd_nat [OF assms(1)]
    by (simp add: mystrtod_number_def fraction_part_def exponent_part_def)
qed

text \<open>
  C25: \<open>mystrtod\<close> reads an integer of at most 53 binary digits exactly and stops right behind
  it. It reads the same number when \<open>na\<close> comes first, which is no number.
\<close>

theorem mystrtod_integers:
  assumes "n < 2 ^ 53" and "\<not> c_isdigit c" and "c \<notin> set ''.eE''"
  shows "mystrtod pow10 (decimal n @ c # rest) = (Fin (of_nat n), c # rest) \<and>
    mystrtod pow10 (''na'' @ decimal n @ c # rest) = (Fin (of_nat n), c # rest)"
proof -
  obtain d ds where d: "decimal n = d # ds" "c_isdigit d" using decimal_digits [of n] by (cases "decimal n") auto
  have head: "d \<noteq> CHR ''-''" "d \<noteq> CHR ''+''" "\<not> is_n d"
    using d(2) by (auto simp: c_isdigit_def code_def is_n_def)
  note number = mystrtod_number_decimal [OF assms]
  have "mystrtod pow10 (decimal n @ c # rest) = (Fin (of_nat n), c # rest)"
    using number head by (simp add: mystrtod_def take_sign_def d)
  moreover have "mystrtod pow10 (''na'' @ decimal n @ c # rest) = (Fin (of_nat n), c # rest)"
    using number head by (simp add: mystrtod_def take_sign_def d is_n_def is_a_def)
  ultimately show ?thesis ..
qed

end
