(* ===== verification/ScannerWitnesses.thy ===== *)
theory ScannerWitnesses
  imports ScannerLines
begin

text \<open>The properties of the scanner at work on small texts.\<close>

definition blank_memory :: EasyScanner where
  "blank_memory = \<lparr>intValue = 0, doubleValue = Fin 0, stringValue = [], charValue = NUL, symbolValue = 0,
     defaultErrorMessage = [], lineNumber = 0, stext = [], filename = [], textBuf = [], lineNumberOffset = 0,
     commentChar = 0, quoteChar = 0, isLineOriented = False, whiteSpaceChars = [], symbols = []\<rparr>"

definition fresh :: EasyScanner where
  "fresh = EasyScanner_new blank_memory"

definition flat_pow :: "double \<Rightarrow> double" where
  "flat_pow x = Fin 1"

lemma fresh_sel:
  "whiteSpaceChars fresh = [32, 9]" "commentChar fresh = 35" "quoteChar fresh = 65535" "isLineOriented fresh"
  "lineNumberOffset fresh = 1"
  by (simp_all add: fresh_def EasyScanner_new_def schar_def code_def no_char_def)

lemma fresh_fine: "quote_fine fresh" "plain fresh"
  by (simp_all add: quote_fine_def plain_def fresh_sel schar_def code_def LF_def CR_def)

theorem scanner_session_safe_witness:
  "\<exists>s'. session flat_pow [ReadWord, ReadInt, ReadToken, SkipLine] (setText fresh ''joint 12'') = Some s' \<and>
    suffix (stext s') (''joint 12'' @ [NUL])"
  using scanner_session_safe [of fresh "[ReadWord, ReadInt, ReadToken, SkipLine]" flat_pow "''joint 12''"]
  by (auto simp: fresh_sel fresh_fine)

theorem line_number_exact_witness:
  "\<exists>s'. session flat_pow [SkipLine, ReadWord] (setText fresh [CHR ''a'', LF, CHR ''b'']) = Some s' \<and>
    lineNumber s' = 2 - newlines (stext s')"
proof -
  let ?in = "[CHR ''a'', LF, CHR ''b'']" and ?rqs = "[SkipLine, ReadWord]"
  obtain s' where run: "session flat_pow ?rqs (setText fresh ?in) = Some s'"
    using scanner_steps.run_all_ok [of "setText fresh ?in" ?rqs flat_pow] setText_wf [of fresh ?in] fresh_fine(1)
    by (auto simp: fresh_sel session_def quote_fine_def setText_def)
  have "newlines (?in @ [NUL]) = 1" by (simp add: LF_def CR_def NUL_def)
  then have "lineNumber s' = 2 - newlines (stext s')"
    using line_number_exact [of fresh ?rqs flat_pow ?in s'] run fresh_fine by (simp add: fresh_sel)
  then show ?thesis using run by blast
qed

theorem checkLF_counts_again_witness:
  "\<exists>s'. checkLF (setText fresh [LF]) = Some (True, s') \<and> stext s' = [LF, NUL] \<and> lineNumber s' = 2"
proof -
  let ?s = "setText fresh [LF]"
  have wf: "scanner_wf ?s" by (rule setText_wf) (simp_all add: fresh_sel)
  have lo: "isLineOriented ?s" by (simp add: setText_def fresh_sel)
  have "\<exists>s'. checkLF ?s = Some (True, s')"
    by (simp add: checkLF_def readLF_def skipSpace_def skipSpace_loop.simps skip_blanks_def readLF0_def setText_def
        fresh_sel schar_def code_def LF_def)
  then obtain s' where s': "checkLF ?s = Some (True, s')" by blast
  then show ?thesis using checkLF_counts_again [OF wf lo s'] by (auto simp: setText_def fresh_sel)
qed


theorem readInt_decimal_witness:
  "readInt (fresh\<lparr>stext := ''-305 '' @ [NUL]\<rparr>) = Some (True, fresh\<lparr>stext := '' '' @ [NUL], intValue := -305\<rparr>) \<and>
    readInt (fresh\<lparr>stext := ''0x1f'' @ [NUL]\<rparr>) = Some (True, fresh\<lparr>stext := [NUL], intValue := 31\<rparr>)"
proof
  have d: "decimal_int (-305) = ''-305''" by code_simp
  have h: "hd (decimal_int (-305)) = CHR ''-''" by (simp add: d)
  show "readInt (fresh\<lparr>stext := ''-305 '' @ [NUL]\<rparr>) = Some (True, fresh\<lparr>stext := '' '' @ [NUL], intValue := -305\<rparr>)"
    using readInt_decimal [of fresh "-305" "CHR '' ''" "[NUL]", unfolded h]
    by (simp add: fresh_sel schar_def code_def d c_isdigit_def)
  have follows: "hex_follows (CHR ''x'') (''1f'' @ [NUL])" and tail: "dropWhile c_isxdigit (''1f'' @ [NUL]) = [NUL]"
    and num: "to_int32 (min (2 ^ 63 - 1) (digits_val 16 (takeWhile c_isxdigit (''1f'' @ [NUL])))) = 31"
    by code_simp+
  show "readInt (fresh\<lparr>stext := ''0x1f'' @ [NUL]\<rparr>) = Some (True, fresh\<lparr>stext := [NUL], intValue := 31\<rparr>)"
    using readInt_decimal [of fresh 0 "CHR ''x''" "''1f'' @ [NUL]", unfolded decimal_int_0 tail num] follows
    by (simp add: fresh_sel schar_def code_def c_isdigit_def)
qed

theorem readToken_progress_witness:
  "\<exists>tk s'. readToken flat_pow (setText fresh '';'') = Some (tk, s') \<and>
    (tk = T_EOF \<or> tk = T_NONE \<or> length (stext s') < 2)"
proof -
  let ?s = "setText fresh '';''"
  have wf: "scanner_wf ?s" by (rule setText_wf) (simp_all add: fresh_sel)
  have fine: "quote_fine ?s" using fresh_fine(1) by (simp add: quote_fine_def setText_def)
  obtain tk s' where run: "readToken flat_pow ?s = Some (tk, s')"
    using readToken_safe [OF wf fine] unfolding safe_def by blast
  then show ?thesis
    using readToken_progress [OF wf fine run] by (auto simp: setText_def split: if_splits)
qed

theorem mystrtod_integers_witness:
  "mystrtod flat_pow ''na5 '' = (Fin 5, '' '')"
proof -
  have "decimal 5 = ''5''" by code_simp
  then show ?thesis
    using mystrtod_integers [of 5 "CHR '' ''" flat_pow "[]"] by (simp add: c_isdigit_def code_def)
qed

end
