(* ===== verification/LinkModel.thy ===== *)
theory LinkModel
  imports Binary64
begin

text \<open>
  \<open>hrplib/hrpModel/Link.{h,cpp}\<close>: the rigid bodies of a robot, linked into a tree by raw
  pointers: \<open>parent\<close>, the first \<open>child\<close>, the next \<open>sibling\<close>. Links live in a store under
  addresses. The members are grouped: what a simulation changes (\<open>LinkMotion\<close>), what a model
  file gives (\<open>LinkParams\<close>), intermediate results (\<open>LinkWork\<close>). Vectors and matrices are Eigen
  types, the type parameters \<open>'v\<close> and \<open>'m\<close>. Left out: the collision model and the members only
  the dynamics solvers use.
\<close>

section \<open>Links and their store\<close>

datatype JointType = FIXED_JOINT | FREE_JOINT | ROTATIONAL_JOINT | SLIDE_JOINT

record ('v, 'm) LinkMotion =
  lp :: 'v
  lR :: 'm
  lv :: 'v
  lw :: 'v
  ldv :: 'v
  ldw :: 'v
  lq :: double
  ldq :: double
  lddq :: double
  lu :: double
  lfext :: 'v
  ltauext :: 'v

record ('v, 'm) LinkParams =
  la :: 'v
  ld :: 'v
  lb :: 'v
  lRs :: 'm
  lm :: double
  lI :: 'm
  lc :: 'v
  lJm2 :: double
  lulimit :: double
  lllimit :: double
  luvlimit :: double
  llvlimit :: double
  ldefaultJointValue :: double
  ltorqueConst :: double
  lencoderPulse :: double
  lIr :: double
  lgearRatio :: double
  lgearEfficiency :: double
  lrotorResistor :: double
  lisHighGainMode :: bool
  lisCrawler :: bool

record 'v LinkWork =
  lwc :: 'v
  lvo :: 'v
  ldvo :: 'v
  lsw :: 'v
  lsv :: 'v
  lsubm :: double
  lsubmwc :: 'v
  lclimit :: double

record ('v, 'm) Link =
  lbody :: "nat option"
  lindex :: int
  ljointId :: int
  lname :: string
  ljointType :: JointType
  lparent :: "nat option"
  lsibling :: "nat option"
  lchild :: "nat option"
  motion :: "('v, 'm) LinkMotion"
  params :: "('v, 'm) LinkParams"
  work :: "'v LinkWork"
  lsensors :: "nat list"
  llights :: "nat list"

type_synonym ('v, 'm) link_heap = "nat \<Rightarrow> ('v, 'm) Link option"

text \<open>
  \<open>garbage a\<close> is what the memory handed out at \<open>a\<close> holds in the members no constructor sets.
\<close>

record ('v, 'm) link_store =
  lheap :: "('v, 'm) link_heap"
  next_link :: nat
  garbage :: "nat \<Rightarrow> ('v, 'm) LinkMotion \<times> ('v, 'm) LinkParams \<times> 'v LinkWork"

section \<open>Operations\<close>

subsection \<open>The default constructor\<close>

definition Link_new :: "('v, 'm) link_store \<Rightarrow> nat \<times> ('v, 'm) link_store" where
  "Link_new st =
     (let a = next_link st
      in case garbage st a of (mo, pa, wo) \<Rightarrow>
        (a, st\<lparr>next_link := a + 1,
               lheap := (lheap st)(a \<mapsto>
                 \<lparr>lbody = None, lindex = -1, ljointId = -1, lname = [], ljointType = FIXED_JOINT,
                  lparent = None, lsibling = None, lchild = None, motion = mo,
                  params = pa\<lparr>lisHighGainMode := False, lisCrawler := False, ldefaultJointValue := Fin 0\<rparr>,
                  work = wo, lsensors = [], llights = []\<rparr>)\<rparr>))"

subsection \<open>Changing the tree\<close>

text \<open>\<open>setBodyIter\<close>, with the loop over the siblings from \<open>c\<close> on.\<close>

partial_function (option) setBody_siblings :: "('v, 'm) link_heap \<Rightarrow> nat option \<Rightarrow> nat option \<Rightarrow> ('v, 'm) link_heap option" where
  "setBody_siblings h b c =
     (case c of
        None \<Rightarrow> Some h
      | Some a \<Rightarrow>
          do { n \<leftarrow> h a;
               h1 \<leftarrow> setBody_siblings (h(a \<mapsto> n\<lparr>lbody := b\<rparr>)) b (lchild n);
               n1 \<leftarrow> h1 a;
               setBody_siblings h1 b (lsibling n1) })"

declare setBody_siblings.simps [code]

definition setBodyIter :: "('v, 'm) link_heap \<Rightarrow> nat \<Rightarrow> nat option \<Rightarrow> ('v, 'm) link_heap option" where
  "setBodyIter h l b = do { n \<leftarrow> h l; setBody_siblings (h(l \<mapsto> n\<lparr>lbody := b\<rparr>)) b (lchild n) }"

text \<open>The search of \<open>detachChild\<close>: \<open>l\<close> is the link looked at, \<open>prev\<close> the one before it.\<close>

partial_function (option) detach_loop ::
  "('v, 'm) link_heap \<Rightarrow> nat \<Rightarrow> nat \<Rightarrow> nat option \<Rightarrow> nat option \<Rightarrow> (bool \<times> ('v, 'm) link_heap) option" where
  "detach_loop h this c l prev =
     (case l of
        None \<Rightarrow> Some (False, h)
      | Some a \<Rightarrow>
          do { n \<leftarrow> h a;
               if a = c then
                 (case prev of
                    Some s \<Rightarrow> do { m \<leftarrow> h s; Some (True, h(s \<mapsto> m\<lparr>lsibling := lsibling n\<rparr>)) }
                  | None \<Rightarrow> do { m \<leftarrow> h this; Some (True, h(this \<mapsto> m\<lparr>lchild := lsibling n\<rparr>)) })
               else detach_loop h this c (lsibling n) (Some a) })"

declare detach_loop.simps [code]

definition detachChild :: "('v, 'm) link_heap \<Rightarrow> nat \<Rightarrow> nat \<Rightarrow> (bool \<times> ('v, 'm) link_heap) option" where
  "detachChild h this c =
     do { t \<leftarrow> h this;
          (removed, h1) \<leftarrow> detach_loop h this c (lchild t) None;
          if removed then
            do { n \<leftarrow> h1 c;
                 h2 \<leftarrow> setBodyIter (h1(c \<mapsto> n\<lparr>lparent := None, lsibling := None\<rparr>)) c None;
                 Some (True, h2) }
          else Some (False, h1) }"

definition addChild_link :: "('v, 'm) link_heap \<Rightarrow> nat \<Rightarrow> nat \<Rightarrow> ('v, 'm) link_heap option" where
  "addChild_link h this l =
     do { n \<leftarrow> h l;
          h1 \<leftarrow> (case lparent n of None \<Rightarrow> Some h | Some p \<Rightarrow> map_option snd (detachChild h p l));
          t \<leftarrow> h1 this;
          n1 \<leftarrow> h1 l;
          let h2 = h1(l \<mapsto> n1\<lparr>lsibling := lchild t, lparent := Some this\<rparr>)
          in do { t2 \<leftarrow> h2 this;
                  setBodyIter (h2(this \<mapsto> t2\<lparr>lchild := Some l\<rparr>)) l (lbody t2) } }"

subsection \<open>The copy constructor\<close>

text \<open>The stack of the children: the last child is on top.\<close>

partial_function (option) push_children :: "('v, 'm) link_heap \<Rightarrow> nat option \<Rightarrow> nat list \<Rightarrow> nat list option" where
  "push_children h c stack =
     (case c of
        None \<Rightarrow> Some stack
      | Some a \<Rightarrow> do { n \<leftarrow> h a; push_children h (lsibling n) (a # stack) })"

declare push_children.simps [code]

text \<open>The members of the copy but for its children.\<close>

definition copy_members :: "('v, 'm) link_store \<Rightarrow> ('v, 'm) Link \<Rightarrow> nat \<times> ('v, 'm) link_store" where
  "copy_members st org =
     (let a = next_link st
      in case garbage st a of (mo, pa, wo) \<Rightarrow>
        (a, st\<lparr>next_link := a + 1,
               lheap := (lheap st)(a \<mapsto>
                 \<lparr>lbody = None, lindex = -1, ljointId = ljointId org, lname = lname org,
                  ljointType = ljointType org, lparent = None, lsibling = None, lchild = None,
                  motion = motion org, params = params org, work = wo, lsensors = [], llights = []\<rparr>)\<rparr>))"

text \<open>The loop that empties the stack, the copies made by it included.\<close>

partial_function (option) copy_children :: "('v, 'm) link_store \<Rightarrow> nat \<Rightarrow> nat list \<Rightarrow> ('v, 'm) link_store option" where
  "copy_children st this stack =
     (case stack of
        [] \<Rightarrow> Some st
      | x # xs \<Rightarrow>
          do { org \<leftarrow> lheap st x;
               (case copy_members st org of (y, st1) \<Rightarrow>
                  do { kids \<leftarrow> push_children (lheap st1) (lchild org) [];
                       st2 \<leftarrow> copy_children st1 y kids;
                       h \<leftarrow> addChild_link (lheap st2) this y;
                       copy_children (st2\<lparr>lheap := h\<rparr>) this xs }) })"

declare copy_children.simps [code]

definition Link_copy :: "('v, 'm) link_store \<Rightarrow> nat \<Rightarrow> (nat \<times> ('v, 'm) link_store) option" where
  "Link_copy st x =
     do { org \<leftarrow> lheap st x;
          (case copy_members st org of (y, st1) \<Rightarrow>
             do { kids \<leftarrow> push_children (lheap st1) (lchild org) [];
                  st2 \<leftarrow> copy_children st1 y kids;
                  Some (y, st2) }) }"

subsection \<open>The destructor\<close>

text \<open>A deleted link is gone from the store: touching it afterwards is no normal return.\<close>

partial_function (option) delete_siblings :: "('v, 'm) link_heap \<Rightarrow> nat option \<Rightarrow> ('v, 'm) link_heap option" where
  "delete_siblings h c =
     (case c of
        None \<Rightarrow> Some h
      | Some a \<Rightarrow>
          do { n \<leftarrow> h a;
               h1 \<leftarrow> delete_siblings h (lchild n);
               _ \<leftarrow> h1 a;
               delete_siblings (h1(a := None)) (lsibling n) })"

declare delete_siblings.simps [code]

definition Link_delete :: "('v, 'm) link_heap \<Rightarrow> nat \<Rightarrow> ('v, 'm) link_heap option" where
  "Link_delete h l = do { n \<leftarrow> h l; h1 \<leftarrow> delete_siblings h (lchild n); Some (h1(l := None)) }"

subsection \<open>Queries\<close>

definition isValid_link :: "('v, 'm) Link \<Rightarrow> bool" where
  "isValid_link n \<longleftrightarrow> 0 \<le> lindex n"

definition isRoot_link :: "('v, 'm) Link \<Rightarrow> bool" where
  "isRoot_link n \<longleftrightarrow> lparent n = None"

end
