(* ===== verification/LinkTree.thy ===== *)
theory LinkTree
  imports LinkModel
begin

text \<open>
  The tree of addresses that a well-formed set of links stands for, and the operations of
  \<open>LinkModel\<close> as operations on that tree: attaching and detaching a child, setting the body,
  copying and deleting.
\<close>

section \<open>The tree behind the pointers\<close>

text \<open>
  A tree of addresses, the children in the order of the sibling pointers. Most lemmas are about
  forests, because the code recurses over the first child and the next sibling.
\<close>

datatype ltree = LTree (lroot: nat) (lkids: "ltree list")

fun faddrs :: "ltree list \<Rightarrow> nat list" where
  "faddrs [] = []"
| "faddrs (LTree a us # ts) = a # faddrs us @ faddrs ts"

definition addrs :: "ltree \<Rightarrow> nat list" where
  "addrs t = lroot t # faddrs (lkids t)"

text \<open>From \<open>c\<close> the sibling pointers run through the roots of the forest to \<open>q\<close>; all have parent \<open>par\<close>.\<close>

fun forest_seg :: "('v, 'm) link_heap \<Rightarrow> nat \<Rightarrow> nat option \<Rightarrow> ltree list \<Rightarrow> nat option \<Rightarrow> bool" where
  "forest_seg h par c [] q \<longleftrightarrow> c = q"
| "forest_seg h par c (LTree a us # ts) q \<longleftrightarrow> c = Some a \<and>
     (\<exists>n. h a = Some n \<and> lparent n = Some par \<and>
        forest_seg h a (lchild n) us None \<and> forest_seg h par (lsibling n) ts q)"

definition tree_at :: "('v, 'm) link_heap \<Rightarrow> nat option \<Rightarrow> ltree \<Rightarrow> bool" where
  "tree_at h par t \<longleftrightarrow>
     (\<exists>n. h (lroot t) = Some n \<and> lparent n = par \<and> forest_seg h (lroot t) (lchild n) (lkids t) None)"

text \<open>All that a tree depends on.\<close>

definition skel :: "('v, 'm) link_heap \<Rightarrow> nat \<Rightarrow> (nat option \<times> nat option \<times> nat option) option" where
  "skel h a = map_option (\<lambda>n. (lparent n, lsibling n, lchild n)) (h a)"

text \<open>What a link holds but for its place in the tree and its body.\<close>

definition payload :: "('v, 'm) Link \<Rightarrow> int \<times> string \<times> JointType \<times> ('v, 'm) LinkMotion \<times> ('v, 'm) LinkParams" where
  "payload n = (ljointId n, lname n, ljointType n, motion n, params n)"

lemma faddrs_append [simp]: "faddrs (ts @ us) = faddrs ts @ faddrs us"
  by (induction ts rule: faddrs.induct) auto

lemma faddrs_Cons: "faddrs (t # ts) = addrs t @ faddrs ts"
  by (cases t) (simp add: addrs_def)

lemma lroot_in_addrs [simp]: "lroot t \<in> set (addrs t)"
  by (simp add: addrs_def)

lemma addrs_LTree [simp]: "addrs (LTree a us) = a # faddrs us"
  by (simp add: addrs_def)

lemmas addrs_eq = addrs_def

lemma faddrs_single [simp]: "faddrs [t] = addrs t"
  by (simp add: faddrs_Cons)

lemma lroot_disjoint: "set (addrs t) \<inter> A = {} \<Longrightarrow> lroot t \<notin> A"
  using lroot_in_addrs [of t] by blast

lemma roots_in_faddrs: "set (map lroot ts) \<subseteq> set (faddrs ts)"
  by (induction ts rule: faddrs.induct) auto

lemma forest_seg_append:
  "forest_seg h par c (ts @ us) q \<longleftrightarrow> (\<exists>m. forest_seg h par c ts m \<and> forest_seg h par m us q)"
  by (induction h par c ts q rule: forest_seg.induct) auto

lemma skel_Some: "skel h a = skel h' a \<Longrightarrow> h a = Some n \<Longrightarrow>
  \<exists>n'. h' a = Some n' \<and> lparent n' = lparent n \<and> lsibling n' = lsibling n \<and> lchild n' = lchild n"
  by (cases "h' a") (auto simp: skel_def)

lemma forest_seg_cong:
  "\<forall>a \<in> set (faddrs ts). skel h a = skel h' a \<Longrightarrow> forest_seg h par c ts q \<Longrightarrow> forest_seg h' par c ts q"
proof (induction h par c ts q rule: forest_seg.induct)
  case (2 h par c a us ts q)
  from "2.prems"(2) obtain n where n: "c = Some a" "h a = Some n" "lparent n = Some par"
      "forest_seg h a (lchild n) us None" "forest_seg h par (lsibling n) ts q" by auto
  obtain n' where n': "h' a = Some n'" "lparent n' = lparent n" "lsibling n' = lsibling n" "lchild n' = lchild n"
    using skel_Some [of h a h'] n(2) "2.prems"(1) by auto
  have "forest_seg h' a (lchild n) us None" "forest_seg h' par (lsibling n) ts q"
    using "2.IH" "2.prems"(1) n by auto
  then show ?case using n(1,3) n' by simp
qed simp

lemma forest_seg_dom: "forest_seg h par c ts q \<Longrightarrow> set (faddrs ts) \<subseteq> dom h"
  by (induction h par c ts q rule: forest_seg.induct) (simp, fastforce simp del: not_None_eq)

lemma tree_at_dom: "tree_at h par t \<Longrightarrow> set (addrs t) \<subseteq> dom h"
  using forest_seg_dom by (fastforce simp: tree_at_def addrs_eq)

lemma tree_at_cong:
  assumes "\<forall>a \<in> set (addrs t). skel h a = skel h' a" and "tree_at h par t"
  shows "tree_at h' par t"
proof -
  obtain n where n: "h (lroot t) = Some n" "lparent n = par" "forest_seg h (lroot t) (lchild n) (lkids t) None"
    using assms(2) by (auto simp: tree_at_def)
  moreover obtain n' where "h' (lroot t) = Some n'" "lparent n' = lparent n" "lchild n' = lchild n"
    using skel_Some [of h "lroot t" h' n] n(1) assms(1) by auto
  ultimately show ?thesis using forest_seg_cong [OF _ n(3), of h'] assms(1) by (auto simp: tree_at_def addrs_eq)
qed

subsection \<open>\<open>setBodyIter\<close>\<close>

definition set_bodies :: "('v, 'm) link_heap \<Rightarrow> nat set \<Rightarrow> nat option \<Rightarrow> ('v, 'm) link_heap" where
  "set_bodies h A b = (\<lambda>a. if a \<in> A then map_option (lbody_update (\<lambda>_. b)) (h a) else h a)"

lemma skel_set_bodies [simp]: "skel (set_bodies h A b) a = skel h a"
  by (cases "h a") (auto simp: skel_def set_bodies_def)

lemma payload_set_bodies [simp]: "map_option payload (set_bodies h A b a) = map_option payload (h a)"
  by (cases "h a") (auto simp: payload_def set_bodies_def)

lemma set_bodies_insert: "h a = Some n \<Longrightarrow> set_bodies (h(a \<mapsto> n\<lparr>lbody := b\<rparr>)) A b = set_bodies h (insert a A) b"
  by (rule ext) (auto simp: set_bodies_def)

lemma set_bodies_twice: "set_bodies (set_bodies h A b) B b = set_bodies h (A \<union> B) b"
  by (rule ext) (auto simp: set_bodies_def map_option.compositionality o_def)

lemma skel_body [simp]: "h a = Some n \<Longrightarrow> skel (h(a \<mapsto> n\<lparr>lbody := b\<rparr>)) x = skel h x"
  by (simp add: skel_def)

lemma setBody_siblings_spec:
  "forest_seg h par c ts None \<Longrightarrow> setBody_siblings h b c = Some (set_bodies h (set (faddrs ts)) b)"
proof (induction ts arbitrary: h par c rule: faddrs.induct)
  case 1
  then show ?case by (subst setBody_siblings.simps) (simp add: set_bodies_def)
next
  case (2 a us ts)
  obtain n where n: "c = Some a" "h a = Some n" "forest_seg h a (lchild n) us None" "forest_seg h par (lsibling n) ts None"
    using "2.prems" by auto
  let ?h = "set_bodies h (insert a (set (faddrs us))) b"
  have "forest_seg (h(a \<mapsto> n\<lparr>lbody := b\<rparr>)) a (lchild n) us None"
    by (rule forest_seg_cong [OF _ n(3)]) (simp add: n(2))
  from "2.IH"(1) [OF this] have "setBody_siblings (h(a \<mapsto> n\<lparr>lbody := b\<rparr>)) b (lchild n) = Some ?h"
    by (simp only: set_bodies_insert [where h = h, OF n(2)])
  moreover have "setBody_siblings ?h b (lsibling n) = Some (set_bodies ?h (set (faddrs ts)) b)"
    using "2.IH"(2) [of ?h par "lsibling n"] forest_seg_cong [OF _ n(4), of ?h] by simp
  moreover have "?h a = Some (n\<lparr>lbody := b\<rparr>)" using n(2) by (simp add: set_bodies_def)
  ultimately show ?case
    using n(1,2) by (subst setBody_siblings.simps) (simp add: set_bodies_twice)
qed

lemma setBodyIter_spec:
  assumes "tree_at h par t"
  shows "setBodyIter h (lroot t) b = Some (set_bodies h (set (addrs t)) b)"
proof -
  obtain n where n: "h (lroot t) = Some n" "forest_seg h (lroot t) (lchild n) (lkids t) None"
    using assms by (auto simp: tree_at_def)
  have "forest_seg (h(lroot t \<mapsto> n\<lparr>lbody := b\<rparr>)) (lroot t) (lchild n) (lkids t) None"
    by (rule forest_seg_cong [OF _ n(2)]) (simp add: n(1))
  from setBody_siblings_spec [OF this]
  have "setBody_siblings (h(lroot t \<mapsto> n\<lparr>lbody := b\<rparr>)) b (lchild n) = Some (set_bodies h (set (addrs t)) b)"
    by (simp only: set_bodies_insert [where h = h, OF n(1)] addrs_eq list.set)
  then show ?thesis by (simp add: setBodyIter_def n(1))
qed

subsection \<open>Subtrees\<close>

fun find_f :: "nat \<Rightarrow> ltree list \<Rightarrow> ltree option" where
  "find_f p [] = None"
| "find_f p (LTree a us # ts) =
     (if a = p then Some (LTree a us)
      else case find_f p us of Some s \<Rightarrow> Some s | None \<Rightarrow> find_f p ts)"

text \<open>The subtree with the root of \<open>s\<close> is exchanged for \<open>s\<close>.\<close>

fun repl :: "ltree \<Rightarrow> ltree list \<Rightarrow> ltree list" where
  "repl s [] = []"
| "repl s (LTree a us # ts) = (if a = lroot s then s else LTree a (repl s us)) # repl s ts"

lemma find_f_Some: "find_f p ts = Some s \<Longrightarrow> lroot s = p \<and> set (addrs s) \<subseteq> set (faddrs ts)"
  by (induction p ts arbitrary: s rule: find_f.induct) (auto split: if_splits option.splits)

lemma find_f_None_iff: "find_f p ts = None \<longleftrightarrow> p \<notin> set (faddrs ts)"
  by (induction p ts rule: find_f.induct) (auto split: option.splits)

lemma find_f_in: "p \<in> set (faddrs ts) \<Longrightarrow> \<exists>s. find_f p ts = Some s"
  using find_f_None_iff [of p ts] by auto

lemma find_f_distinct: "find_f p ts = Some s \<Longrightarrow> distinct (faddrs ts) \<Longrightarrow> distinct (addrs s)"
  by (induction p ts arbitrary: s rule: find_f.induct) (auto split: if_splits option.splits)

lemma repl_absent: "lroot s \<notin> set (faddrs ts) \<Longrightarrow> repl s ts = ts"
  by (induction s ts rule: repl.induct) auto

lemma repl_roots [simp]: "map lroot (repl s ts) = map lroot ts"
  by (induction s ts rule: repl.induct) auto

lemma forest_find:
  "forest_seg h par c ts q \<Longrightarrow> find_f p ts = Some s \<Longrightarrow> \<exists>par'. tree_at h (Some par') s \<and>
     (p \<in> set (map lroot ts) \<and> distinct (faddrs ts) \<longrightarrow> par' = par)"
proof (induction h par c ts q rule: forest_seg.induct)
  case (2 h par c a us ts q)
  then obtain n where n: "h a = Some n" "lparent n = Some par" "forest_seg h a (lchild n) us None"
      "forest_seg h par (lsibling n) ts q" by auto
  consider "a = p" "s = LTree a us" | "a \<noteq> p" "find_f p us = Some s" | "a \<noteq> p" "find_f p us = None" "find_f p ts = Some s"
    using "2.prems"(2) by (auto split: if_splits option.splits)
  then show ?case
  proof cases
    case 1
    then show ?thesis using n by (auto simp: tree_at_def)
  next
    case 2
    then have "p \<in> set (faddrs us)" using find_f_None_iff [of p us] by auto
    moreover have "p \<in> set (map lroot ts) \<Longrightarrow> p \<in> set (faddrs ts)" using roots_in_faddrs by blast
    ultimately show ?thesis using "2.IH"(1) [OF n(3) 2(2)] 2(1) by auto
  next
    case 3
    then show ?thesis using "2.IH"(2) [OF n(4) 3(3)] by auto
  qed
qed simp

lemma forest_replace:
  assumes "forest_seg h par c ts q" and "distinct (faddrs ts)" and "find_f p ts = Some s" and "lroot s' = p"
    and "\<And>a. a \<in> set (faddrs ts) \<Longrightarrow> a \<notin> set (addrs s) \<Longrightarrow> skel h' a = skel h a"
    and "h p = Some m" and "h' p = Some m'" and "lsibling m' = lsibling m" and "tree_at h' (lparent m) s'"
  shows "forest_seg h' par c (repl s' ts) q"
  using assms(1-5)
proof (induction ts arbitrary: par c q rule: faddrs.induct)
  case (2 a us ts)
  obtain n where n: "c = Some a" "h a = Some n" "lparent n = Some par" "forest_seg h a (lchild n) us None"
      "forest_seg h par (lsibling n) ts q" using "2.prems"(1) by auto
  have keep: "forest_seg h' par' c' us' q'"
    if "forest_seg h par' c' us' q'" "set (faddrs us') \<subseteq> set (faddrs (LTree a us # ts))" "set (faddrs us') \<inter> set (addrs s) = {}"
    for par' c' us' q'
    using forest_seg_cong [OF _ that(1), of h'] "2.prems"(5) that(2,3) by (metis disjoint_iff subsetD)
  consider "a = p" "s = LTree a us" | "a \<noteq> p" "find_f p us = Some s" | "a \<noteq> p" "find_f p us = None" "find_f p ts = Some s"
    using "2.prems"(3) by (auto split: if_splits option.splits)
  then show ?case
  proof cases
    case 1
    then have "forest_seg h' par (lsibling n) ts q" using keep [OF n(5)] "2.prems"(2) by auto
    moreover have "repl s' ts = ts" using 1 "2.prems"(2,4) by (intro repl_absent) auto
    moreover have "m = n" using 1(1) n(2) assms(6) by simp
    ultimately show ?thesis using n(1,3) assms(7-9) 1 "2.prems"(4) by (cases s') (auto simp: tree_at_def)
  next
    case 2
    have sub: "set (addrs s) \<subseteq> set (faddrs us)" "p \<in> set (faddrs us)" using find_f_Some [OF 2(2)] 
      by (auto simp: addrs_eq)
    have "forest_seg h' a (lchild n) (repl s' us) None"
      using "2.IH"(1) [OF n(4) _ 2(2) "2.prems"(4)] "2.prems"(2,5) by auto
    moreover have "forest_seg h' par (lsibling n) ts q" using keep [OF n(5)] sub "2.prems"(2) by fastforce
    moreover have "repl s' ts = ts" using sub(2) "2.prems"(2,4) by (intro repl_absent) auto
    moreover obtain n' where "h' a = Some n'" "lparent n' = lparent n" "lsibling n' = lsibling n" "lchild n' = lchild n"
      using skel_Some [of h a h' n] n(2) "2.prems"(2,5) sub(1) by fastforce
    ultimately show ?thesis using n(1,3) 2(1) "2.prems"(4) by simp
  next
    case 3
    have sub: "set (addrs s) \<subseteq> set (faddrs ts)" "p \<in> set (faddrs ts)" using find_f_Some [OF 3(3)] 
      by (auto simp: addrs_eq)
    have "forest_seg h' par (lsibling n) (repl s' ts) q"
      using "2.IH"(2) [OF n(5) _ 3(3) "2.prems"(4)] "2.prems"(2,5) by auto
    moreover have "forest_seg h' a (lchild n) us None" using keep [OF n(4)] sub "2.prems"(2) by fastforce
    moreover have "repl s' us = us" using 3(2) "2.prems"(4) find_f_None_iff by (intro repl_absent) auto
    moreover obtain n' where "h' a = Some n'" "lparent n' = lparent n" "lsibling n' = lsibling n" "lchild n' = lchild n"
      using skel_Some [of h a h' n] n(2) "2.prems"(2,5) sub(1) by fastforce
    ultimately show ?thesis using n(1,3) 3(1) "2.prems"(4) by simp
  qed
qed simp

subsection \<open>\<open>detachChild\<close>\<close>

lemma detach_loop_skip:
  "forest_seg h par l us m \<Longrightarrow> c \<notin> set (map lroot us) \<Longrightarrow>
     detach_loop h this c l prev = detach_loop h this c m (if us = [] then prev else Some (lroot (last us)))"
proof (induction us arbitrary: l prev rule: faddrs.induct)
  case (2 a ks us)
  then obtain n where n: "l = Some a" "h a = Some n" "forest_seg h par (lsibling n) us m" "a \<noteq> c" by auto
  then have "detach_loop h this c l prev = detach_loop h this c (lsibling n) (Some a)"
    by (subst detach_loop.simps) simp
  then show ?case using "2.IH"(2) [OF n(3), of "Some a"] "2.prems"(2) by simp
qed simp

lemma detach_loop_absent:
  assumes "forest_seg h par l ts None" and "c \<notin> set (map lroot ts)"
  shows "detach_loop h this c l prev = Some (False, h)"
  using detach_loop_skip [OF assms] by (simp add: detach_loop.simps)

lemma forest_reseat:
  assumes "forest_seg h par c (us @ [u]) m" and "distinct (faddrs (us @ [u]))" and "h (lroot u) = Some n"
  shows "forest_seg (h(lroot u \<mapsto> n\<lparr>lsibling := q\<rparr>)) par c (us @ [u]) q"
proof -
  let ?h = "h(lroot u \<mapsto> n\<lparr>lsibling := q\<rparr>)"
  obtain k where k: "forest_seg h par c us k" "forest_seg h par k [u] m"
    using assms(1) forest_seg_append by blast
  have "forest_seg ?h par c us k"
    by (rule forest_seg_cong [OF _ k(1)]) (use assms(2) lroot_in_addrs [of u] in \<open>auto simp: skel_def faddrs_Cons\<close>)
  moreover have "forest_seg ?h par k [u] q"
  proof (cases u)
    case (LTree a ks)
    then have "forest_seg h a (lchild n) ks None" using k(2) assms(3) by auto
    then have "forest_seg ?h a (lchild n) ks None"
      by (rule forest_seg_cong [rotated]) (use assms(2) LTree in \<open>auto simp: skel_def\<close>)
    then show ?thesis using k(2) assms(3) LTree by auto
  qed
  ultimately show ?thesis using forest_seg_append by blast
qed

text \<open>The children of \<open>p\<close> after the search: \<open>t\<close> is out of the chain, nothing else changed.\<close>

lemma detach_loop_found:
  assumes "h p = Some m" and "forest_seg h p (lchild m) (us @ t # vs) None" and "distinct (p # faddrs (us @ t # vs))"
  shows "\<exists>h' m'. detach_loop h p (lroot t) (lchild m) None = Some (True, h') \<and>
    h' p = Some m' \<and> lparent m' = lparent m \<and> lsibling m' = lsibling m \<and>
    (\<forall>a. map_option lbody (h' a) = map_option lbody (h a) \<and> map_option payload (h' a) = map_option payload (h a)) \<and>
    forest_seg h' p (lchild m') (us @ vs) None \<and>
    (\<forall>a \<in> set (addrs t). h' a = h a) \<and> (\<forall>a. a \<notin> set (p # faddrs us) \<longrightarrow> h' a = h a)"
proof -
  obtain k where k: "forest_seg h p (lchild m) us k" "forest_seg h p k (t # vs) None"
    using assms(2) forest_seg_append by blast
  then obtain n where n: "k = Some (lroot t)" "h (lroot t) = Some n" "forest_seg h p (lsibling n) vs None"
    by (cases t) auto
  have "lroot t \<notin> set (faddrs us)" "lroot t \<noteq> p"
    using assms(3) lroot_in_addrs [of t] by (auto simp: faddrs_Cons simp del: lroot_in_addrs)
  then have roots: "lroot t \<notin> set (map lroot us)" "lroot t \<noteq> p" using roots_in_faddrs [of us] by auto
  show ?thesis
  proof (cases us rule: rev_cases)
    case Nil
    let ?h = "h(p \<mapsto> m\<lparr>lchild := lsibling n\<rparr>)"
    have "detach_loop h p (lroot t) (lchild m) None = Some (True, ?h)"
      using k(1) n Nil assms(1) by (subst detach_loop.simps) simp
    moreover have "forest_seg ?h p (lsibling n) vs None"
      by (rule forest_seg_cong [OF _ n(3)]) (use assms(3) in \<open>auto simp: skel_def faddrs_Cons\<close>)
    ultimately show ?thesis using Nil assms(1,3) by (auto simp: faddrs_Cons payload_def)
  next
    case (snoc ws u)
    obtain w where w: "h (lroot u) = Some w" using forest_seg_dom [OF k(1)] snoc by (auto simp: addrs_eq)
    let ?h = "h(lroot u \<mapsto> w\<lparr>lsibling := lsibling n\<rparr>)"
    have "detach_loop h p (lroot t) (lchild m) None = detach_loop h p (lroot t) k (Some (lroot u))"
      using detach_loop_skip [OF k(1) roots(1)] snoc by simp
    also have "\<dots> = Some (True, ?h)" using n w by (subst detach_loop.simps) simp
    finally have run: "detach_loop h p (lroot t) (lchild m) None = Some (True, ?h)" .
    have "forest_seg ?h p (lchild m) (ws @ [u]) (lsibling n)"
      using forest_reseat [of h p "lchild m" ws u k w] k(1) w assms(3) snoc by (auto simp: faddrs_Cons)
    moreover have "forest_seg ?h p (lsibling n) vs None"
      by (rule forest_seg_cong [OF _ n(3)]) (use assms(3) snoc lroot_disjoint [of u "set (faddrs vs)"] in \<open>auto simp: skel_def faddrs_Cons\<close>)
    ultimately have "forest_seg ?h p (lchild m) (us @ vs) None" using forest_seg_append snoc by blast
    moreover have "lroot u \<in> set (faddrs us)" using snoc lroot_in_addrs [of u] by simp
    moreover have "lroot u \<noteq> p" "lroot u \<notin> set (addrs t)"
      using assms(3) snoc lroot_disjoint [of u "set (addrs t)"] by (auto simp: faddrs_Cons)
    ultimately show ?thesis using run assms(1) w by (auto simp: payload_def)
  qed
qed

text \<open>\<open>detachChild\<close> on a node and its own child.\<close>

lemma detachChild_spec:
  assumes "tree_at h par (LTree p (us @ t # vs))" and "distinct (p # faddrs (us @ t # vs))"
  shows "\<exists>h'. detachChild h p (lroot t) = Some (True, h') \<and> tree_at h' par (LTree p (us @ vs)) \<and> tree_at h' None t \<and>
    (\<forall>a. map_option lbody (h' a) = (if a \<in> set (addrs t) then Some None else map_option lbody (h a))) \<and>
    (\<forall>a. map_option payload (h' a) = map_option payload (h a)) \<and>
    (\<forall>a. a \<notin> set (p # faddrs (us @ t # vs)) \<longrightarrow> h' a = h a) \<and>
    map_option lsibling (h' p) = map_option lsibling (h p)"
proof -
  obtain m where m: "h p = Some m" "lparent m = par" "forest_seg h p (lchild m) (us @ t # vs) None"
    using assms(1) by (auto simp: tree_at_def)
  obtain h1 m1 where h1: "detach_loop h p (lroot t) (lchild m) None = Some (True, h1)"
      "h1 p = Some m1" "lparent m1 = lparent m" "lsibling m1 = lsibling m"
      "\<forall>a. map_option lbody (h1 a) = map_option lbody (h a) \<and> map_option payload (h1 a) = map_option payload (h a)"
      "forest_seg h1 p (lchild m1) (us @ vs) None"
      "\<forall>a \<in> set (addrs t). h1 a = h a" "\<forall>a. a \<notin> set (p # faddrs us) \<longrightarrow> h1 a = h a"
    using detach_loop_found [OF m(1,3) assms(2)] by blast
  obtain n where n: "h (lroot t) = Some n" "forest_seg h (lroot t) (lchild n) (lkids t) None"
    using m(3) by (cases t) (auto simp: forest_seg_append)
  let ?h2 = "h1(lroot t \<mapsto> n\<lparr>lparent := None, lsibling := None\<rparr>)"
  let ?h3 = "set_bodies ?h2 (set (addrs t)) None"
  have dist: "set (addrs t) \<inter> set (p # faddrs (us @ vs)) = {}" "distinct (addrs t)"
    using assms(2) by (auto simp: faddrs_Cons)
  have "forest_seg ?h2 (lroot t) (lchild n) (lkids t) None"
    by (rule forest_seg_cong [OF _ n(2)]) (use h1(7) dist(2) addrs_eq [of t] in \<open>auto simp: skel_def\<close>)
  then have t2: "tree_at ?h2 None t" by (simp add: tree_at_def)
  then have "setBodyIter ?h2 (lroot t) None = Some ?h3" by (rule setBodyIter_spec)
  then have "detachChild h p (lroot t) = Some (True, ?h3)"
    using m(1) h1(1,7) n(1) by (simp add: detachChild_def)
  moreover have "tree_at ?h3 None t"
    by (rule tree_at_cong [OF _ t2]) simp
  moreover have "forest_seg ?h3 p (lchild m1) (us @ vs) None"
    by (rule forest_seg_cong [OF _ h1(6)]) (use dist(1) lroot_disjoint [OF dist(1)] in \<open>auto simp: skel_def set_bodies_def\<close>)
  moreover have "?h3 p = Some m1" using h1(2) dist(1) lroot_in_addrs [of t] by (auto simp: set_bodies_def)
  moreover have "map_option lbody (?h3 a) = (if a \<in> set (addrs t) then Some None else map_option lbody (h a))" for a
    using tree_at_dom [OF t2] h1(5) by (auto simp: set_bodies_def)
  moreover have "map_option payload (?h3 a) = map_option payload (h a)" for a
    using h1(5,7) n(1) by (simp add: payload_def)
  moreover have "\<forall>a. a \<notin> set (p # faddrs (us @ t # vs)) \<longrightarrow> ?h3 a = h a"
    using h1(8) lroot_in_addrs [of t] by (auto simp: set_bodies_def faddrs_Cons)
  ultimately show ?thesis using m(1,2) h1(3,4) by (auto simp: tree_at_def)
qed

text \<open>The same on any link of a tree: the subtree of \<open>p\<close> loses its child \<open>t\<close>.\<close>

definition in_tree :: "ltree \<Rightarrow> ltree \<Rightarrow> ltree" where
  "in_tree s T = hd (repl s [T])"

lemma repl_single: "repl s [T] = [in_tree s T]"
  by (cases T) (simp add: in_tree_def)

lemma in_tree_LTree: "in_tree s (LTree a us) = (if a = lroot s then s else LTree a (repl s us))"
  by (simp add: in_tree_def)

text \<open>A tree seen from above: it hangs at \<open>par\<close>, and its subtree \<open>s\<close> is exchanged.\<close>

lemma tree_replace:
  assumes "tree_at h par T" and "distinct (addrs T)" and "find_f p [T] = Some s" and "lroot s' = p"
    and "\<And>a. a \<in> set (addrs T) \<Longrightarrow> a \<notin> set (addrs s) \<Longrightarrow> skel h' a = skel h a"
    and "h p = Some m" and "h' p = Some m'" and "lsibling m' = lsibling m" and "tree_at h' (lparent m) s'"
  shows "tree_at h' par (in_tree s' T)"
proof (cases T)
  case (LTree a us)
  obtain n where n: "h a = Some n" "lparent n = par" "forest_seg h a (lchild n) us None"
    using assms(1) LTree by (auto simp: tree_at_def)
  show ?thesis
  proof (cases "a = p")
    case True
    then show ?thesis using assms(4,6,9) n(1,2) LTree by (auto simp: in_tree_LTree)
  next
    case False
    then have s: "find_f p us = Some s" using assms(3) LTree by (auto split: option.splits)
    have sub: "set (addrs s) \<subseteq> set (faddrs us)" using find_f_Some [OF s] by simp
    have "forest_seg h' a (lchild n) (repl s' us) None"
      using forest_replace [OF n(3) _ s assms(4) _ assms(6-9)] assms(2,5) LTree by auto
    moreover obtain n' where "h' a = Some n'" "lparent n' = lparent n" "lchild n' = lchild n"
      using skel_Some [of h a h' n] n(1) assms(2,5) sub LTree by fastforce
    ultimately show ?thesis using False n(2) assms(4) LTree by (auto simp: in_tree_LTree tree_at_def)
  qed
qed

lemma tree_find:
  assumes "tree_at h par T" and "find_f p [T] = Some s"
  obtains m where "h p = Some m" and "tree_at h (lparent m) s" and "lroot s = p"
proof -
  have "\<exists>par'. tree_at h par' s"
  proof (cases T)
    case (LTree a us)
    then show ?thesis
      using assms forest_find [of h a _ us None p s] by (auto simp: tree_at_def split: if_splits option.splits)
  qed
  then show thesis using that find_f_Some [OF assms(2)] by (auto simp: tree_at_def)
qed

lemma find_in_addrs: "find_f p [T] = Some s \<Longrightarrow> set (addrs s) \<subseteq> set (addrs T) \<and> p \<in> set (addrs T)"
  using find_f_Some [of p "[T]" s] by (auto simp: addrs_eq)

lemma detachChild_in_tree:
  assumes "tree_at h par T" and "distinct (addrs T)" and "find_f p [T] = Some (LTree p (us @ t # vs))"
  shows "\<exists>h'. detachChild h p (lroot t) = Some (True, h') \<and>
    tree_at h' par (in_tree (LTree p (us @ vs)) T) \<and> tree_at h' None t \<and>
    (\<forall>a. map_option lbody (h' a) = (if a \<in> set (addrs t) then Some None else map_option lbody (h a))) \<and>
    (\<forall>a. map_option payload (h' a) = map_option payload (h a)) \<and>
    (\<forall>a. a \<notin> set (p # faddrs (us @ t # vs)) \<longrightarrow> h' a = h a) \<and>
    map_option lsibling (h' p) = map_option lsibling (h p)"
proof -
  obtain m where m: "h p = Some m" "tree_at h (lparent m) (LTree p (us @ t # vs))"
    using tree_find [OF assms(1,3)] by auto
  have dist: "distinct (p # faddrs (us @ t # vs))"
    using find_f_distinct [OF assms(3)] assms(2) by simp
  obtain h' where h': "detachChild h p (lroot t) = Some (True, h')" "tree_at h' (lparent m) (LTree p (us @ vs))" "tree_at h' None t"
      "\<forall>a. map_option lbody (h' a) = (if a \<in> set (addrs t) then Some None else map_option lbody (h a))"
      "\<forall>a. map_option payload (h' a) = map_option payload (h a)"
      "\<forall>a. a \<notin> set (p # faddrs (us @ t # vs)) \<longrightarrow> h' a = h a"
      "map_option lsibling (h' p) = map_option lsibling (h p)"
    using detachChild_spec [OF m(2) dist] by blast
  obtain m' where m': "h' p = Some m'" "lsibling m' = lsibling m" using h'(7) m(1) by auto
  have "tree_at h' par (in_tree (LTree p (us @ vs)) T)"
    by (rule tree_replace [OF assms _ _ m(1) m' h'(2)]) (use h'(6) in \<open>auto simp: skel_def\<close>)
  then show ?thesis using h' by blast
qed

subsection \<open>\<open>addChild\<close>\<close>

text \<open>The last steps of \<open>addChild\<close>, on a link without parent.\<close>

lemma addChild_root:
  assumes "tree_at h par T" and "distinct (addrs T)" and "find_f p [T] = Some s" and "h p = Some m"
    and "tree_at h None t" and "distinct (addrs t)" and "set (addrs t) \<inter> set (addrs T) = {}"
  shows "\<exists>h'. addChild_link h p (lroot t) = Some h' \<and> tree_at h' par (in_tree (LTree p (t # lkids s)) T) \<and>
    (\<forall>a \<in> set (addrs t). map_option lbody (h' a) = Some (lbody m)) \<and>
    (\<forall>a. a \<noteq> p \<longrightarrow> a \<notin> set (addrs t) \<longrightarrow> h' a = h a) \<and>
    (\<forall>a. map_option payload (h' a) = map_option payload (h a)) \<and>
    map_option (\<lambda>n. (lsibling n, lbody n)) (h' p) = map_option (\<lambda>n. (lsibling n, lbody n)) (h p)"
proof -
  obtain n where n: "h (lroot t) = Some n" "lparent n = None" "forest_seg h (lroot t) (lchild n) (lkids t) None"
    using assms(5) by (auto simp: tree_at_def)
  have s: "tree_at h (lparent m) s" "lroot s = p" using tree_find [OF assms(1,3)] assms(4) by auto
  then have kids: "forest_seg h p (lchild m) (lkids s) None" using assms(4) by (simp add: tree_at_def)
  have sub: "set (addrs s) \<subseteq> set (addrs T)" using find_in_addrs [OF assms(3)] by simp
  have p: "p \<in> set (addrs T)" "p \<notin> set (addrs t)" "p \<noteq> lroot t"
    using find_in_addrs [OF assms(3)] assms(7) lroot_disjoint [OF assms(7)] by auto
  let ?l = "n\<lparr>lsibling := lchild m, lparent := Some p\<rparr>" and ?p = "m\<lparr>lchild := Some (lroot t)\<rparr>"
  let ?h2 = "h(lroot t \<mapsto> ?l, p \<mapsto> ?p)"
  let ?h3 = "set_bodies ?h2 (set (addrs t)) (lbody m)"
  have "forest_seg ?h2 (lroot t) (lchild n) (lkids t) None"
    by (rule forest_seg_cong [OF _ n(3)]) (use assms(6) p(2) addrs_eq [of t] in \<open>auto simp: skel_def\<close>)
  then have t2: "tree_at ?h2 (Some p) t" using p(3) by (simp add: tree_at_def)
  have run: "addChild_link h p (lroot t) = Some ?h3"
    using n(1,2) assms(4) p(3) setBodyIter_spec [OF t2] by (simp add: addChild_link_def fun_upd_twist)
  have out: "?h3 a = h a" if "a \<noteq> p" "a \<notin> set (addrs t)" for a
    using that lroot_in_addrs [of t] by (auto simp: set_bodies_def simp del: lroot_in_addrs)
  have p3: "?h3 p = Some ?p" using p(2) by (simp add: set_bodies_def)
  have "\<forall>a \<in> set (faddrs (lkids s)). a \<noteq> p \<and> a \<notin> set (addrs t)"
    using assms(2,7) sub find_f_distinct [OF assms(3)] s(2) by (auto simp: addrs_eq [of s])
  then have "forest_seg ?h3 p (lchild m) (lkids s) None"
    using out by (intro forest_seg_cong [OF _ kids]) (simp add: skel_def)
  moreover have "tree_at ?h3 (Some p) t" by (rule tree_at_cong [OF _ t2]) simp
  moreover have "map_option lsibling (?h3 (lroot t)) = Some (lchild m)" using p(3) by (simp add: set_bodies_def)
  ultimately have "forest_seg ?h3 p (Some (lroot t)) (t # lkids s) None"
    by (cases t) (auto simp: tree_at_def)
  then have new: "tree_at ?h3 (lparent m) (LTree p (t # lkids s))" using p3 by (simp add: tree_at_def)
  have "skel ?h3 a = skel h a" if "a \<in> set (addrs T)" "a \<notin> set (addrs s)" for a
  proof -
    have "a \<noteq> p" "a \<notin> set (addrs t)" using that s(2) assms(7) by (auto simp: addrs_eq [of s])
    then show ?thesis using out by (simp add: skel_def)
  qed
  then have "tree_at ?h3 par (in_tree (LTree p (t # lkids s)) T)"
    by (intro tree_replace [OF assms(1,2,3) _ _ assms(4) p3 _ new]) simp_all
  moreover have "\<forall>a \<in> set (addrs t). map_option lbody (?h3 a) = Some (lbody m)"
    using tree_at_dom [OF t2] by (auto simp: set_bodies_def)
  moreover have "\<forall>a. map_option payload (?h3 a) = map_option payload (h a)"
    using assms(4) n(1) by (simp add: payload_def)
  ultimately show ?thesis using run out p3 assms(4) by auto
qed

subsection \<open>Copies\<close>

fun same_forest :: "('v, 'm) link_heap \<Rightarrow> ltree list \<Rightarrow> ('v, 'm) link_heap \<Rightarrow> ltree list \<Rightarrow> bool" where
  "same_forest h [] h' [] \<longleftrightarrow> True"
| "same_forest h (LTree a us # ts) h' (LTree b vs # ss) \<longleftrightarrow>
     map_option payload (h a) = map_option payload (h' b) \<and> same_forest h us h' vs \<and> same_forest h ts h' ss"
| "same_forest h _ h' _ \<longleftrightarrow> False"

lemma same_forest_cong:
  "same_forest h ts h1 ss \<Longrightarrow> \<forall>a \<in> set (faddrs ss). map_option payload (h2 a) = map_option payload (h1 a) \<Longrightarrow>
     same_forest h ts h2 ss"
  by (induction h ts h1 ss rule: same_forest.induct) auto

lemma same_forest_append:
  "same_forest h ts h' ss \<Longrightarrow> same_forest h us h' vs \<Longrightarrow> same_forest h (ts @ us) h' (ss @ vs)"
  by (induction h ts h' ss rule: same_forest.induct) auto

lemma push_children_spec:
  "forest_seg h par c ts None \<Longrightarrow> push_children h c stack = Some (rev (map lroot ts) @ stack)"
proof (induction ts arbitrary: c stack rule: faddrs.induct)
  case (2 a us ts)
  then obtain n where "c = Some a" "h a = Some n" "forest_seg h par (lsibling n) ts None" by auto
  then show ?case using "2.IH"(2) by (subst push_children.simps) auto
qed (simp add: push_children.simps)

lemma same_forest_left:
  "same_forest h1 ts h ss \<Longrightarrow> \<forall>a \<in> set (faddrs ts). map_option payload (h2 a) = map_option payload (h1 a) \<Longrightarrow>
     same_forest h2 ts h ss"
  by (induction h1 ts h ss rule: same_forest.induct) auto

text \<open>Forests taken apart from their last tree, as the stack does.\<close>

lemma forest_rev_induct [case_names Nil snoc]:
  assumes "P []" and "\<And>ts a us. P ts \<Longrightarrow> P us \<Longrightarrow> P (ts @ [LTree a us])"
  shows "P ts"
proof (induction "length (faddrs ts)" arbitrary: ts rule: less_induct)
  case less
  show ?case
  proof (cases ts rule: rev_cases)
    case (snoc ss t)
    then show ?thesis using less assms(2) by (cases t) simp
  qed (use assms(1) in simp)
qed

lemma copy_members_spec:
  "\<exists>cp st1. copy_members st n = (next_link st, st1) \<and> next_link st1 = next_link st + 1 \<and>
     lheap st1 = (lheap st)(next_link st \<mapsto> cp) \<and> lparent cp = None \<and> lchild cp = None \<and> payload cp = payload n"
proof (cases "garbage st (next_link st)")
  case (fields mo pa wo)
  then show ?thesis
    by (intro exI [of _ "\<lparr>lbody = None, lindex = -1, ljointId = ljointId n, lname = lname n,
                  ljointType = ljointType n, lparent = None, lsibling = None, lchild = None,
                  motion = motion n, params = params n, work = wo, lsensors = [], llights = []\<rparr>"])
      (simp add: copy_members_def payload_def Let_def)
qed

lemma copy_children_spec:
  assumes "forest_seg (lheap st) par c ts q" and "set (faddrs ts) \<subseteq> {..<next_link st} - set (y # faddrs qs)"
    and "tree_at (lheap st) None (LTree y qs)" and "distinct (y # faddrs qs)" and "set (y # faddrs qs) \<subseteq> {..<next_link st}"
  shows "\<exists>st' ss. copy_children st y (rev (map lroot ts) @ stack) = copy_children st' y stack \<and>
    tree_at (lheap st') None (LTree y (ss @ qs)) \<and> distinct (y # faddrs (ss @ qs)) \<and>
    set (faddrs ss) \<subseteq> {next_link st..<next_link st'} \<and> next_link st \<le> next_link st' \<and>
    same_forest (lheap st) ts (lheap st') ss \<and>
    (\<forall>a < next_link st. a \<noteq> y \<longrightarrow> lheap st' a = lheap st a) \<and>
    map_option payload (lheap st' y) = map_option payload (lheap st y)"
  using assms
proof (induction ts arbitrary: st par c q y qs stack rule: forest_rev_induct)
  case Nil
  then show ?case by (intro exI [of _ st] exI [of _ "[]"]) simp
next
  case (snoc ts a us)
  let ?z = "next_link st"
  obtain k n where k: "forest_seg (lheap st) par c ts k" and n: "lheap st a = Some n" "forest_seg (lheap st) a (lchild n) us None"
    using snoc.prems(1) forest_seg_append by fastforce
  obtain cp st1 where cp: "copy_members st n = (?z, st1)" "next_link st1 = ?z + 1" "lheap st1 = (lheap st)(?z \<mapsto> cp)"
      "lparent cp = None" "lchild cp = None" "payload cp = payload n"
    using copy_members_spec by blast
  have seg: "forest_seg h par' c' vs q'"
    if "forest_seg (lheap st) par' c' vs q'" "\<forall>b < ?z. b \<noteq> y \<longrightarrow> h b = lheap st b" "set (faddrs vs) \<subseteq> set (faddrs (ts @ [LTree a us]))"
    for h par' c' q' and vs
  proof (rule forest_seg_cong [OF _ that(1)])
    have "\<forall>b \<in> set (faddrs vs). b < ?z \<and> b \<noteq> y" using that(3) snoc.prems(2) by fastforce
    then show "\<forall>b \<in> set (faddrs vs). skel (lheap st) b = skel h b" using that(2) by (simp add: skel_def)
  qed
  have "forest_seg (lheap st1) a (lchild n) us None" by (rule seg [OF n(2)]) (auto simp: cp(3))
  moreover from this have push: "push_children (lheap st1) (lchild n) [] = Some (rev (map lroot us) @ [])"
    by (rule push_children_spec)
  moreover have "tree_at (lheap st1) None (LTree ?z [])" using cp(3-5) by (simp add: tree_at_def)
  ultimately obtain st2 vs where st2: "copy_children st1 ?z (rev (map lroot us) @ []) = copy_children st2 ?z []"
      "tree_at (lheap st2) None (LTree ?z vs)" "distinct (?z # faddrs vs)" "set (faddrs vs) \<subseteq> {?z + 1..<next_link st2}"
      "?z < next_link st2" "same_forest (lheap st1) us (lheap st2) vs"
      "\<forall>b < ?z. lheap st2 b = lheap st b" "map_option payload (lheap st2 ?z) = map_option payload (lheap st a)"
    using snoc.IH(2) [of st1 a "lchild n" None ?z "[]" "[]"] snoc.prems(2) cp(2,3,6) n(1) by fastforce
  have old: "lheap st2 b = lheap st b" if "b \<in> set (y # faddrs qs)" for b using st2(7) that snoc.prems(5) by auto
  have ytree: "tree_at (lheap st2) None (LTree y qs)"
    by (rule tree_at_cong [OF _ snoc.prems(3)]) (simp add: skel_def old)
  obtain m where m: "lheap st2 y = Some m" using ytree by (auto simp: tree_at_def)
  obtain h3 where h3: "addChild_link (lheap st2) y ?z = Some h3" "tree_at h3 None (LTree y (LTree ?z vs # qs))"
      "\<forall>b. b \<noteq> y \<longrightarrow> b \<notin> set (?z # faddrs vs) \<longrightarrow> h3 b = lheap st2 b"
      "\<forall>b. map_option payload (h3 b) = map_option payload (lheap st2 b)"
    using addChild_root [OF ytree _ _ m st2(2)] snoc.prems(4,5) st2(3,4)
    by (fastforce simp: in_tree_LTree disjoint_iff)
  let ?st3 = "st2\<lparr>lheap := h3\<rparr>" and ?qs = "LTree ?z vs # qs"
  have same: "\<forall>b < ?z. b \<noteq> y \<longrightarrow> h3 b = lheap st b" using h3(3) st2(4,7) by fastforce
  have "forest_seg (lheap ?st3) par c ts k" by (rule seg [OF k]) (use same in auto)
  moreover have "set (faddrs ts) \<subseteq> {..<next_link ?st3} - set (y # faddrs ?qs)"
  proof -
    have "b < ?z \<and> b \<noteq> y \<and> b \<notin> set (faddrs qs)" if "b \<in> set (faddrs ts)" for b using snoc.prems(2) that by auto
    moreover have "?z < b" if "b \<in> set (faddrs vs)" for b using st2(4) that by auto
    ultimately show ?thesis using st2(5) by fastforce
  qed
  moreover have "distinct (y # faddrs ?qs)" using snoc.prems(4,5) st2(3,4) by (fastforce simp: disjoint_iff)
  moreover have "set (y # faddrs ?qs) \<subseteq> {..<next_link ?st3}" using snoc.prems(5) st2(4,5) by fastforce
  ultimately obtain st' ss where st': "copy_children ?st3 y (rev (map lroot ts) @ stack) = copy_children st' y stack"
      "tree_at (lheap st') None (LTree y (ss @ ?qs))" "distinct (y # faddrs (ss @ ?qs))"
      "set (faddrs ss) \<subseteq> {next_link st2..<next_link st'}" "next_link st2 \<le> next_link st'"
      "same_forest h3 ts (lheap st') ss" "\<forall>b < next_link st2. b \<noteq> y \<longrightarrow> lheap st' b = h3 b"
      "map_option payload (lheap st' y) = map_option payload (h3 y)"
    using snoc.IH(1) [of ?st3 par c k y ?qs stack] h3(2) by auto
  have "copy_children st y (rev (map lroot (ts @ [LTree a us])) @ stack) = copy_children ?st3 y (rev (map lroot ts) @ stack)"
    using n(1) cp(1) push st2(1) h3(1) by (subst copy_children.simps) (simp add: copy_children.simps [of st2])
  moreover have "same_forest (lheap st) (ts @ [LTree a us]) (lheap st') (ss @ [LTree ?z vs])"
  proof (rule same_forest_append)
    have "\<forall>b \<in> set (faddrs ts). b < ?z \<and> b \<noteq> y" using snoc.prems(2) by auto
    then show "same_forest (lheap st) ts (lheap st') ss" using same_forest_left [OF st'(6)] same by simp
    have "\<forall>b \<in> set (?z # faddrs vs). map_option payload (lheap st' b) = map_option payload (lheap st2 b)"
      using st'(7) h3(4) st2(4,5) snoc.prems(5) by fastforce
    moreover have "\<forall>b \<in> set (faddrs us). b < ?z \<and> b \<noteq> y" using snoc.prems(2) by auto
    then have "same_forest (lheap st) us (lheap st2) vs" by (intro same_forest_left [OF st2(6)]) (auto simp: cp(3))
    ultimately show "same_forest (lheap st) [LTree a us] (lheap st') [LTree ?z vs]"
      using same_forest_cong [of "lheap st" us "lheap st2" vs "lheap st'"] st2(8) by simp
  qed
  moreover have "\<forall>b < ?z. b \<noteq> y \<longrightarrow> lheap st' b = lheap st b" using st'(7) same st2(5) by auto
  moreover have "map_option payload (lheap st' y) = map_option payload (lheap st y)"
    using st'(8) h3(4) st2(7) snoc.prems(5) by simp
  moreover have "set (faddrs (ss @ [LTree ?z vs])) \<subseteq> {?z..<next_link st'}" using st'(4,5) st2(4,5) by fastforce
  ultimately show ?case using st'(1-3,5) st2(5) by (intro exI [of _ st'] exI [of _ "ss @ [LTree ?z vs]"]) simp
qed

lemma Link_copy_spec:
  assumes "tree_at (lheap st) par t" and "set (addrs t) \<subseteq> {..<next_link st}"
  shows "\<exists>t' st'. Link_copy st (lroot t) = Some (lroot t', st') \<and> tree_at (lheap st') None t' \<and>
    distinct (addrs t') \<and> set (addrs t') \<subseteq> {next_link st..<next_link st'} \<and>
    same_forest (lheap st) [t] (lheap st') [t'] \<and> (\<forall>a < next_link st. lheap st' a = lheap st a)"
proof -
  let ?a = "lroot t" and ?z = "next_link st"
  obtain n where n: "lheap st ?a = Some n" "forest_seg (lheap st) ?a (lchild n) (lkids t) None"
    using assms(1) by (auto simp: tree_at_def)
  obtain cp st1 where cp: "copy_members st n = (?z, st1)" "next_link st1 = ?z + 1" "lheap st1 = (lheap st)(?z \<mapsto> cp)"
      "lparent cp = None" "lchild cp = None" "payload cp = payload n"
    using copy_members_spec by blast
  have seg: "forest_seg (lheap st1) ?a (lchild n) (lkids t) None"
    by (rule forest_seg_cong [OF _ n(2)]) (use assms(2) in \<open>auto simp: skel_def cp(3) addrs_eq\<close>)
  have "tree_at (lheap st1) None (LTree ?z [])" using cp(3-5) by (simp add: tree_at_def)
  moreover have "set (faddrs (lkids t)) \<subseteq> {..<next_link st1} - set (?z # faddrs [])"
    using assms(2) cp(2) by (auto simp: addrs_eq)
  ultimately obtain st2 vs where st2: "copy_children st1 ?z (rev (map lroot (lkids t)) @ []) = copy_children st2 ?z []"
      "tree_at (lheap st2) None (LTree ?z vs)" "distinct (?z # faddrs vs)" "set (faddrs vs) \<subseteq> {?z + 1..<next_link st2}"
      "?z < next_link st2" "same_forest (lheap st1) (lkids t) (lheap st2) vs"
      "\<forall>b < ?z + 1. b \<noteq> ?z \<longrightarrow> lheap st2 b = lheap st1 b"
      "map_option payload (lheap st2 ?z) = map_option payload (lheap st1 ?z)"
    using copy_children_spec [OF seg, of ?z "[]" "[]"] cp(2) by fastforce
  have "Link_copy st ?a = Some (?z, st2)"
    using n(1) cp(1) push_children_spec [OF seg, of "[]"] st2(1)
    by (simp add: Link_copy_def copy_children.simps [of st2])
  moreover have "same_forest (lheap st) [t] (lheap st2) [LTree ?z vs]"
  proof -
    have "same_forest (lheap st) (lkids t) (lheap st2) vs"
      using assms(2) by (intro same_forest_left [OF st2(6)]) (auto simp: cp(3) addrs_eq)
    moreover have "map_option payload (lheap st2 ?z) = map_option payload (lheap st ?a)"
      using st2(8) cp(3,6) n(1) by simp
    ultimately show ?thesis by (cases t) simp
  qed
  moreover have "\<forall>a < ?z. lheap st2 a = lheap st a" using st2(7) cp(3) by auto
  moreover have "set (addrs (LTree ?z vs)) \<subseteq> {?z..<next_link st2}" using st2(4,5) by fastforce
  ultimately show ?thesis using st2(2,3) by (intro exI [of _ "LTree ?z vs"] exI [of _ st2]) simp
qed

subsection \<open>The destructor\<close>

lemma delete_siblings_spec:
  "forest_seg h par c ts None \<Longrightarrow> distinct (faddrs ts) \<Longrightarrow>
     delete_siblings h c = Some (\<lambda>a. if a \<in> set (faddrs ts) then None else h a)"
proof (induction ts arbitrary: h par c rule: faddrs.induct)
  case 1
  then show ?case by (subst delete_siblings.simps) simp
next
  case (2 a us ts)
  obtain n where n: "c = Some a" "h a = Some n" "forest_seg h a (lchild n) us None" "forest_seg h par (lsibling n) ts None"
    using "2.prems"(1) by auto
  let ?h = "\<lambda>x. if x \<in> set (faddrs us) then None else h x"
  have h1: "delete_siblings h (lchild n) = Some ?h" using "2.IH"(1) [OF n(3)] "2.prems"(2) by simp
  have "forest_seg (?h(a := None)) par (lsibling n) ts None"
    by (rule forest_seg_cong [OF _ n(4)]) (use "2.prems"(2) in \<open>auto simp: skel_def\<close>)
  then have "delete_siblings (?h(a := None)) (lsibling n) = Some (\<lambda>x. if x \<in> set (faddrs ts) then None else (?h(a := None)) x)"
    by (rule "2.IH"(2)) (use "2.prems"(2) in simp)
  also have "\<dots> = Some (\<lambda>x. if x \<in> set (faddrs (LTree a us # ts)) then None else h x)" by auto
  finally have "delete_siblings (?h(a := None)) (lsibling n) = \<dots>" .
  moreover have "?h a = Some n" using n(2) "2.prems"(2) by simp
  ultimately show ?case using n(1,2) h1 by (subst delete_siblings.simps) (simp del: faddrs.simps)
qed

lemma Link_delete_spec:
  assumes "tree_at h par t" and "distinct (addrs t)"
  shows "Link_delete h (lroot t) = Some (\<lambda>a. if a \<in> set (addrs t) then None else h a)"
proof -
  obtain n where "h (lroot t) = Some n" "forest_seg h (lroot t) (lchild n) (lkids t) None"
    using assms(1) by (auto simp: tree_at_def)
  then show ?thesis
    using delete_siblings_spec assms(2) by (fastforce simp: Link_delete_def addrs_eq)
qed

section \<open>The operations as operations on trees\<close>

lemma repl_addrs:
  assumes "lroot s' = p" and "set (addrs s') \<subseteq> set (addrs s)" and "distinct (addrs s')"
  shows "find_f p ts = Some s \<Longrightarrow> distinct (faddrs ts) \<Longrightarrow>
    distinct (faddrs (repl s' ts)) \<and> set (faddrs (repl s' ts)) = set (faddrs ts) - set (addrs s) \<union> set (addrs s')"
proof (induction ts rule: faddrs.induct)
  case (2 a us ts)
  consider "a = p" "s = LTree a us" | "a \<noteq> p" "find_f p us = Some s" | "a \<noteq> p" "find_f p us = None" "find_f p ts = Some s"
    using "2.prems"(1) by (auto split: if_splits option.splits)
  then show ?case
  proof cases
    case 1
    then have "repl s' ts = ts" using "2.prems"(2) assms(1) by (intro repl_absent) auto
    then show ?thesis using 1 "2.prems"(2) assms by (auto simp: faddrs_Cons [of s'])
  next
    case 2
    then have "p \<in> set (faddrs us)" "set (addrs s) \<subseteq> set (faddrs us)"
      using find_f_Some [OF 2(2)] lroot_in_addrs [of s] by auto
    moreover from this have "repl s' ts = ts" using "2.prems"(2) assms(1) by (intro repl_absent) auto
    ultimately show ?thesis using 2(1) "2.IH"(1) [OF 2(2)] "2.prems"(2) assms(1,2) by auto
  next
    case 3
    then have "p \<in> set (faddrs ts)" "set (addrs s) \<subseteq> set (faddrs ts)"
      using find_f_Some [OF 3(3)] lroot_in_addrs [of s] by auto
    moreover from this have "repl s' us = us" using "2.prems"(2) assms(1) by (intro repl_absent) auto
    ultimately show ?thesis using 3(1) "2.IH"(2) [OF 3(3)] "2.prems"(2) assms(1,2) by auto
  qed
qed simp

lemma addChild_after_detach:
  assumes "h l = Some n" and "lparent n = Some q" and "detachChild h q l = Some (r, h1)" and "tree_at h1 None t" and "lroot t = l"
  shows "addChild_link h p l = addChild_link h1 p l"
  using assms by (auto simp: addChild_link_def tree_at_def)

text \<open>C30: A link with its whole subtree moves to another place of the tree.\<close>

theorem addChild_moves_subtree:
  assumes "tree_at h par T" and "distinct (addrs T)" and "find_f q [T] = Some (LTree q (us @ t # vs))"
    and "T' = in_tree (LTree q (us @ vs)) T" and "find_f p [T'] = Some s"
  shows "\<exists>h'. addChild_link h p (lroot t) = Some h' \<and> tree_at h' par (in_tree (LTree p (t # lkids s)) T') \<and>
    (\<forall>a \<in> set (addrs t). map_option lbody (h' a) = map_option lbody (h p)) \<and>
    (\<forall>a. a \<notin> set (addrs T) \<longrightarrow> h' a = h a)"
proof -
  obtain h1 where h1: "detachChild h q (lroot t) = Some (True, h1)" "tree_at h1 par T'" "tree_at h1 None t"
      "\<forall>a. map_option lbody (h1 a) = (if a \<in> set (addrs t) then Some None else map_option lbody (h a))"
      "\<forall>a. a \<notin> set (q # faddrs (us @ t # vs)) \<longrightarrow> h1 a = h a"
    using detachChild_in_tree [OF assms(1-3)] assms(4) by blast
  have sub: "set (q # faddrs (us @ t # vs)) \<subseteq> set (addrs T)" "distinct (q # faddrs (us @ t # vs))"
    using find_in_addrs [OF assms(3)] find_f_distinct [OF assms(3)] assms(2) by simp_all
  have "distinct (addrs T') \<and> set (addrs T') = set (addrs T) - set (q # faddrs (us @ t # vs)) \<union> set (q # faddrs (us @ vs))"
    using repl_addrs [of "LTree q (us @ vs)" q "LTree q (us @ t # vs)" "[T]"] assms(2-4) sub(2)
    by (auto simp: repl_single faddrs_Cons)
  then have T': "distinct (addrs T')" "set (addrs t) \<inter> set (addrs T') = {}" "set (addrs T') \<subseteq> set (addrs T)"
    using sub by (auto simp: faddrs_Cons)
  obtain m where m: "h1 p = Some m" using tree_find [OF h1(2) assms(5)] by auto
  have p: "p \<notin> set (addrs t)" using find_in_addrs [OF assms(5)] T'(2) by auto
  obtain n where n: "h (lroot t) = Some n" "lparent n = Some q"
  proof -
    obtain k where "tree_at h k (LTree q (us @ t # vs))" using tree_find [OF assms(1,3)] by auto
    then show thesis using that by (cases t) (auto simp: tree_at_def forest_seg_append)
  qed
  obtain h' where h': "addChild_link h1 p (lroot t) = Some h'" "tree_at h' par (in_tree (LTree p (t # lkids s)) T')"
      "\<forall>a \<in> set (addrs t). map_option lbody (h' a) = Some (lbody m)" "\<forall>a. a \<noteq> p \<longrightarrow> a \<notin> set (addrs t) \<longrightarrow> h' a = h1 a"
    using addChild_root [OF h1(2) T'(1) assms(5) m h1(3) _ T'(2)] sub(2) by (auto simp: faddrs_Cons)
  have body: "map_option lbody (h p) = Some (lbody m)" using h1(4) m p by (metis option.map(2))
  have "p \<in> set (addrs T)" "set (addrs t) \<subseteq> set (addrs T)"
    using find_in_addrs [OF assms(5)] T'(3) sub(1) by (auto simp: faddrs_Cons)
  then have "\<forall>a. a \<notin> set (addrs T) \<longrightarrow> h' a = h a" using h1(5) h'(4) sub(1) by (metis subsetD)
  then show ?thesis
    using h'(1-3) addChild_after_detach [OF n h1(1,3) refl] unfolding body by (intro exI [of _ h']) simp
qed

text \<open>
  C31: The copy is a tree of fresh links like the original, the original is left as it was, and
  deleting the copy restores the store.
\<close>

theorem Link_copy_then_delete:
  assumes "tree_at (lheap st) par t" and "dom (lheap st) \<subseteq> {..<next_link st}"
  shows "\<exists>t' st'. Link_copy st (lroot t) = Some (lroot t', st') \<and> tree_at (lheap st') None t' \<and>
    same_forest (lheap st) [t] (lheap st') [t'] \<and> set (addrs t') \<inter> dom (lheap st) = {} \<and>
    (\<forall>a \<in> dom (lheap st). lheap st' a = lheap st a) \<and>
    Link_delete (lheap st') (lroot t') = Some (\<lambda>a. if a < next_link st then lheap st a else
      if a \<in> set (addrs t') then None else lheap st' a)"
proof -
  have "set (addrs t) \<subseteq> {..<next_link st}" using tree_at_dom [OF assms(1)] assms(2) by auto
  then obtain t' st' where c: "Link_copy st (lroot t) = Some (lroot t', st')" "tree_at (lheap st') None t'"
      "distinct (addrs t')" "set (addrs t') \<subseteq> {next_link st..<next_link st'}"
      "same_forest (lheap st) [t] (lheap st') [t']" "\<forall>a < next_link st. lheap st' a = lheap st a"
    using Link_copy_spec [OF assms(1)] by blast
  have "Link_delete (lheap st') (lroot t') = Some (\<lambda>a. if a \<in> set (addrs t') then None else lheap st' a)"
    by (rule Link_delete_spec [OF c(2,3)])
  also have "(\<lambda>a. if a \<in> set (addrs t') then None else lheap st' a) =
      (\<lambda>a. if a < next_link st then lheap st a else if a \<in> set (addrs t') then None else lheap st' a)"
    using c(4,6) by (auto simp: fun_eq_iff)
  finally have "Link_delete (lheap st') (lroot t') = Some (\<lambda>a. if a < next_link st then lheap st a else
      if a \<in> set (addrs t') then None else lheap st' a)" .
  moreover have "set (addrs t') \<inter> dom (lheap st) = {}" "\<forall>a \<in> dom (lheap st). lheap st' a = lheap st a"
    using c(4,6) assms(2) by fastforce+
  ultimately show ?thesis using c(1,2,5) by (intro exI [of _ t'] exI [of _ st']) simp
qed

end
