(* ===== verification/LinkPathModel.thy ===== *)
theory LinkPathModel
  imports LinkTree
begin

text \<open>
  \<open>hrplib/hrpModel/LinkTraverse.{h,cpp}\<close> (the links in the order of a walk through the tree),
  \<open>LinkPath.{h,cpp}\<close> (the links between two links) and the joints of \<open>JointPath.{h,cpp}\<close>. The
  pointers followed are those of \<open>LinkModel\<close>; nothing here changes a link. The Jacobians and
  the inverse kinematics of \<open>JointPath\<close> are not modelled.
\<close>

section \<open>\<open>LinkTraverse\<close>\<close>

record LinkTraverse =
  links :: "nat list"
  numUpwardConnections :: int

text \<open>The default constructor leaves \<open>numUpwardConnections\<close> unset.\<close>

definition LinkTraverse_new :: "int \<Rightarrow> LinkTraverse" where
  "LinkTraverse_new unset = \<lparr>links = [], numUpwardConnections = unset\<rparr>"

text \<open>
  \<open>traverse\<close> without \<open>doUpward\<close>, and its loop over the children from \<open>c\<close> on: such a call goes
  downward only.
\<close>

partial_function (option) traverse_children :: "('v, 'm) link_heap \<Rightarrow> nat option \<Rightarrow> nat option \<Rightarrow> nat list \<Rightarrow> nat list option" where
  "traverse_children h prev c ls =
     (case c of
        None \<Rightarrow> Some ls
      | Some a \<Rightarrow>
          do { n \<leftarrow> h a;
               ls1 \<leftarrow> (if c \<noteq> prev then traverse_children h None (lchild n) (ls @ [a]) else Some ls);
               traverse_children h prev (lsibling n) ls1 })"

declare traverse_children.simps [code]

partial_function (option) traverse ::
  "('v, 'm) link_heap \<Rightarrow> nat \<Rightarrow> bool \<Rightarrow> bool \<Rightarrow> bool \<Rightarrow> nat option \<Rightarrow> LinkTraverse \<Rightarrow> LinkTraverse option" where
  "traverse h link doUpward doDownward isUpward prev tr =
     do { n \<leftarrow> h link;
          let tr1 = tr\<lparr>links := links tr @ [link],
                       numUpwardConnections := numUpwardConnections tr + (if isUpward then 1 else 0)\<rparr>
          in do {
            tr2 \<leftarrow> (case lparent n of
                      Some p \<Rightarrow> if doUpward then traverse h p doUpward True True (Some link) tr1 else Some tr1
                    | None \<Rightarrow> Some tr1);
            if doDownward then
              do { ls \<leftarrow> traverse_children h prev (lchild n) (links tr2); Some (tr2\<lparr>links := ls\<rparr>) }
            else Some tr2 } }"

declare traverse.simps [code]

definition LinkTraverse_find :: "('v, 'm) link_heap \<Rightarrow> nat \<Rightarrow> bool \<Rightarrow> bool \<Rightarrow> LinkTraverse option" where
  "LinkTraverse_find h base doUpward doDownward =
     traverse h base doUpward doDownward False None \<lparr>links = [], numUpwardConnections = 0\<rparr>"

definition numLinks :: "LinkTraverse \<Rightarrow> nat" where
  "numLinks tr = length (links tr)"

definition rootLink :: "LinkTraverse \<Rightarrow> nat option" where
  "rootLink tr = (if links tr = [] then None else Some (hd (links tr)))"

definition link_at :: "LinkTraverse \<Rightarrow> nat \<Rightarrow> nat option" where
  "link_at tr i = elem_at (links tr) i"

definition isDownward :: "LinkTraverse \<Rightarrow> int \<Rightarrow> bool" where
  "isDownward tr i \<longleftrightarrow> numUpwardConnections tr \<le> i"

text \<open>The masses are added in the order of the walk, starting from zero.\<close>

fun add_masses :: "('v, 'm) link_heap \<Rightarrow> nat list \<Rightarrow> double \<Rightarrow> double option" where
  "add_masses h [] acc = Some acc"
| "add_masses h (a # as) acc = do { n \<leftarrow> h a; add_masses h as (dadd acc (lm (params n))) }"

definition calcTotalMass :: "('v, 'm) link_heap \<Rightarrow> LinkTraverse \<Rightarrow> double option" where
  "calcTotalMass h tr = add_masses h (links tr) (Fin 0)"

section \<open>\<open>LinkPath\<close>\<close>

text \<open>
  \<open>findPathSub\<close>: a visit of a link, and the loop over the children of \<open>link\<close> from the given one
  on. The result says whether \<open>end\<close> was found and holds the links and the count of steps up.
\<close>

datatype path_job = Visit nat "nat option" bool | Children nat "nat option" "nat option"

partial_function (option) find_path ::
  "('v, 'm) link_heap \<Rightarrow> nat \<Rightarrow> path_job \<Rightarrow> nat list \<Rightarrow> int \<Rightarrow> (bool \<times> nat list \<times> int) option" where
  "find_path h end job ls up =
     (case job of
        Visit link prev isUpward \<Rightarrow>
          (let ls1 = ls @ [link]; up1 = (if isUpward then up + 1 else up)
           in if link = end then Some (True, ls1, up1)
              else do {
                n \<leftarrow> h link;
                (found, ls2, up2) \<leftarrow> find_path h end (Children link prev (lchild n)) ls1 up1;
                if found then Some (True, ls2, up2)
                else do {
                  (found', ls3, up3) \<leftarrow>
                    (case lparent n of
                       None \<Rightarrow> Some (False, ls2, up2)
                     | Some p \<Rightarrow>
                         if lparent n \<noteq> prev then find_path h end (Visit p (Some link) True) ls2 up2
                         else Some (False, ls2, up2));
                  if found' then Some (True, ls3, up3)
                  else Some (False, butlast ls3, if isUpward then up3 - 1 else up3) } })
      | Children link prev c \<Rightarrow>
          (case c of
             None \<Rightarrow> Some (False, ls, up)
           | Some a \<Rightarrow>
               do { n \<leftarrow> h a;
                    (found, ls1, up1) \<leftarrow>
                      (if c \<noteq> prev then find_path h end (Visit a (Some link) False) ls up
                       else Some (False, ls, up));
                    if found then Some (True, ls1, up1)
                    else find_path h end (Children link prev (lsibling n)) ls1 up1 }))"

declare find_path.simps [code]

definition LinkPath_find :: "('v, 'm) link_heap \<Rightarrow> nat \<Rightarrow> nat \<Rightarrow> (bool \<times> LinkTraverse) option" where
  "LinkPath_find h base end =
     do { (found, ls, up) \<leftarrow> find_path h end (Visit base None False) [] 0;
          Some (found, \<lparr>links = if found then ls else [], numUpwardConnections = up\<rparr>) }"

text \<open>The path from the root.\<close>

partial_function (option) path_to_root :: "('v, 'm) link_heap \<Rightarrow> nat \<Rightarrow> nat list \<Rightarrow> nat list option" where
  "path_to_root h link ls =
     do { n \<leftarrow> h link;
          case lparent n of None \<Rightarrow> Some (ls @ [link]) | Some p \<Rightarrow> path_to_root h p (ls @ [link]) }"

declare path_to_root.simps [code]

definition LinkPath_find_root :: "('v, 'm) link_heap \<Rightarrow> nat \<Rightarrow> LinkTraverse option" where
  "LinkPath_find_root h end =
     do { ls \<leftarrow> path_to_root h end []; Some \<lparr>links = rev ls, numUpwardConnections = 0\<rparr> }"

definition endLink :: "LinkTraverse \<Rightarrow> nat option" where
  "endLink tr = (if links tr = [] then None else Some (last (links tr)))"

text \<open>\<open>find (root, doUpward, doDownward)\<close> of the base class is disabled: it throws.\<close>

definition LinkPath_find_disabled :: "nat \<Rightarrow> bool \<Rightarrow> bool \<Rightarrow> string + LinkTraverse" where
  "LinkPath_find_disabled base doUpward doDownward =
     Inl ''The find method for LinkTraverse cannot be used in LinkPath''"

section \<open>\<open>JointPath\<close>\<close>

record JointPath =
  linkPath :: LinkTraverse
  joints_m :: "nat list"
  numUpwardJointConnections :: int
  maxIKErrorSqr :: double
  isBestEffortIKMode :: bool

definition is_joint :: "('v, 'm) Link \<Rightarrow> bool" where
  "is_joint n \<longleftrightarrow> 0 \<le> ljointId n \<and> (ljointType n = ROTATIONAL_JOINT \<or> ljointType n = SLIDE_JOINT)"

text \<open>The loop of \<open>extractJoints\<close> from index \<open>i\<close> to \<open>m - 1\<close>.\<close>

fun extract_loop :: "('v, 'm) link_heap \<Rightarrow> LinkTraverse \<Rightarrow> nat list \<Rightarrow> nat list \<Rightarrow> int \<Rightarrow> (nat list \<times> int) option" where
  "extract_loop h tr [] js up = Some (js, up)"
| "extract_loop h tr (i # is) js up =
     do { a \<leftarrow> link_at tr i;
          n \<leftarrow> h a;
          if is_joint n then
            extract_loop h tr is (js @ [a]) (if isDownward tr (int i) then up else up + 1)
          else extract_loop h tr is js up }"

definition extractJoints :: "('v, 'm) link_heap \<Rightarrow> JointPath \<Rightarrow> JointPath option" where
  "extractJoints h jp =
     (let tr = linkPath jp; n = numLinks tr
      in if n \<le> 1 then Some (jp\<lparr>joints_m := [], numUpwardJointConnections := 0\<rparr>)
         else do {
           (js, up) \<leftarrow> extract_loop h tr [if isDownward tr 0 then 1 else 0..<n - 1] [] 0;
           (if isDownward tr (int (n - 1) - 1) then
              do { a \<leftarrow> link_at tr (n - 1); l \<leftarrow> h a;
                   Some (jp\<lparr>joints_m := if is_joint l then js @ [a] else js, numUpwardJointConnections := up\<rparr>) }
            else Some (jp\<lparr>joints_m := js, numUpwardJointConnections := up\<rparr>)) })"

text \<open>\<open>initialize\<close>, and the three constructors. The squared error is the product of two literals.\<close>

definition JointPath_init :: "LinkTraverse \<Rightarrow> int \<Rightarrow> JointPath" where
  "JointPath_init tr unset =
     \<lparr>linkPath = tr, joints_m = [], numUpwardJointConnections = unset,
      maxIKErrorSqr = dmul (rnd (1 / 1000000)) (rnd (1 / 1000000)), isBestEffortIKMode = False\<rparr>"

definition JointPath_new :: "int \<Rightarrow> int \<Rightarrow> JointPath" where
  "JointPath_new unset1 unset2 = JointPath_init (LinkTraverse_new unset1) unset2"

definition JointPath_new_between :: "('v, 'm) link_heap \<Rightarrow> int \<Rightarrow> nat \<Rightarrow> nat \<Rightarrow> JointPath option" where
  "JointPath_new_between h unset base end =
     do { (_, tr) \<leftarrow> LinkPath_find h base end; extractJoints h (JointPath_init tr unset) }"

definition JointPath_new_root :: "('v, 'm) link_heap \<Rightarrow> int \<Rightarrow> nat \<Rightarrow> JointPath option" where
  "JointPath_new_root h unset end =
     do { tr \<leftarrow> LinkPath_find_root h end; extractJoints h (JointPath_init tr unset) }"

text \<open>The joints are extracted only when a path was found; the old ones stay otherwise.\<close>

definition JointPath_find :: "('v, 'm) link_heap \<Rightarrow> JointPath \<Rightarrow> nat \<Rightarrow> nat \<Rightarrow> (bool \<times> JointPath) option" where
  "JointPath_find h jp base end =
     do { (found, tr) \<leftarrow> LinkPath_find h base end;
          let jp1 = jp\<lparr>linkPath := tr\<rparr>
          in do { jp2 \<leftarrow> (if found then extractJoints h jp1 else Some jp1);
                  Some (joints_m jp2 \<noteq> [], jp2) } }"

definition JointPath_find_root :: "('v, 'm) link_heap \<Rightarrow> JointPath \<Rightarrow> nat \<Rightarrow> (bool \<times> JointPath) option" where
  "JointPath_find_root h jp end =
     do { tr \<leftarrow> LinkPath_find_root h end;
          jp1 \<leftarrow> extractJoints h (jp\<lparr>linkPath := tr\<rparr>);
          Some (joints_m jp1 \<noteq> [], jp1) }"

definition setMaxIKError :: "double \<Rightarrow> JointPath \<Rightarrow> JointPath" where
  "setMaxIKError e jp = jp\<lparr>maxIKErrorSqr := dmul e e\<rparr>"

definition setBestEffortIKMode :: "bool \<Rightarrow> JointPath \<Rightarrow> JointPath" where
  "setBestEffortIKMode on jp = jp\<lparr>isBestEffortIKMode := on\<rparr>"

definition isJointDownward :: "JointPath \<Rightarrow> int \<Rightarrow> bool" where
  "isJointDownward jp i \<longleftrightarrow> numUpwardJointConnections jp \<le> i"

end
