(* ===== verification/LinkPathProofs.thy ===== *)
theory LinkPathProofs
  imports LinkPathModel "HOL-Library.Multiset"
begin

text \<open>
  Walks through the tree of links: what \<open>LinkTraverse\<close> visits and in which order, that
  \<open>LinkPath\<close> finds the way between two links, and which joints \<open>JointPath\<close> takes from it.
\<close>

section \<open>Going down\<close>

definition par :: "('v, 'm) link_heap \<Rightarrow> nat \<Rightarrow> nat option" where
  "par h a = (case h a of Some n \<Rightarrow> lparent n | None \<Rightarrow> None)"

lemma par_Some [simp]: "h a = Some n \<Longrightarrow> par h a = lparent n"
  by (simp add: par_def)

text \<open>The trees of a forest but for the one the walk came from.\<close>

definition others :: "nat option \<Rightarrow> ltree list \<Rightarrow> ltree list" where
  "others prev ts = filter (\<lambda>t. Some (lroot t) \<noteq> prev) ts"

lemma others_simps [simp]:
  "others prev [] = []"
  "others prev (t # ts) = (if Some (lroot t) = prev then others prev ts else t # others prev ts)"
  by (simp_all add: others_def)

lemma others_id: "(\<And>b. prev = Some b \<Longrightarrow> b \<notin> set (faddrs ts)) \<Longrightarrow> others prev ts = ts"
proof (induction ts)
  case (Cons t ts)
  have "Some (lroot t) \<noteq> prev" using Cons.prems lroot_in_addrs [of t] by (auto simp: faddrs_Cons)
  moreover have "others prev ts = ts" using Cons by (auto simp: faddrs_Cons)
  ultimately show ?case by simp
qed simp

lemma traverse_children_spec:
  "forest_seg h r c ts None \<Longrightarrow> traverse_children h prev c ls = Some (ls @ faddrs (others prev ts))"
proof (induction ts arbitrary: r c prev ls rule: faddrs.induct)
  case 1
  then show ?case by (subst traverse_children.simps) simp
next
  case (2 a us ts)
  then obtain n where n: "c = Some a" "h a = Some n" "forest_seg h a (lchild n) us None" "forest_seg h r (lsibling n) ts None"
    by auto
  have "others None us = us" by (rule others_id) simp
  then show ?case
    using n "2.IH"(1) [OF n(3)] "2.IH"(2) [OF n(4)] by (subst traverse_children.simps) auto
qed

fun path_in :: "nat \<Rightarrow> ltree list \<Rightarrow> nat list option" where
  "path_in e [] = None"
| "path_in e (LTree a us # ts) =
     (if a = e then Some [a] else case path_in e us of Some p \<Rightarrow> Some (a # p) | None \<Rightarrow> path_in e ts)"

lemma path_in_None: "path_in e ts = None \<longleftrightarrow> e \<notin> set (faddrs ts)"
  by (induction e ts rule: path_in.induct) (auto split: option.splits)

lemma path_in_Some:
  "path_in e ts = Some p \<Longrightarrow> forest_seg h r c ts q \<Longrightarrow> distinct (faddrs ts) \<Longrightarrow>
     p \<noteq> [] \<and> last p = e \<and> par h (hd p) = Some r \<and> successively (\<lambda>x y. par h y = Some x) p \<and>
     set p \<subseteq> set (faddrs ts) \<and> distinct p \<and> hd p \<in> set (map lroot ts)"
proof (induction e ts arbitrary: p r c q rule: path_in.induct)
  case (2 e a us ts)
  then obtain n where n: "h a = Some n" "lparent n = Some r" "forest_seg h a (lchild n) us None"
      "forest_seg h r (lsibling n) ts q" by auto
  consider "a = e" "p = [a]" | p' where "a \<noteq> e" "path_in e us = Some p'" "p = a # p'"
    | "a \<noteq> e" "path_in e us = None" "path_in e ts = Some p"
    using "2.prems"(1) by (auto split: if_splits option.splits)
  then show ?case
  proof cases
    case 2
    have "p' \<noteq> [] \<and> last p' = e \<and> par h (hd p') = Some a \<and> successively (\<lambda>x y. par h y = Some x) p' \<and>
        set p' \<subseteq> set (faddrs us) \<and> distinct p'"
      using "2.IH"(1) [OF 2(1,2) n(3)] "2.prems"(3) by auto
    then show ?thesis using 2(3) n(1,2) "2.prems"(3) by (cases p') auto
  next
    case 3
    then show ?thesis using "2.IH"(2) [OF 3(1,2,3) n(4)] "2.prems"(3) by auto
  qed (use n in simp)
qed simp

text \<open>The search among the children.\<close>

lemma find_children:
  "forest_seg h r c ts None \<Longrightarrow> distinct (r # faddrs ts) \<Longrightarrow>
     find_path h e (Children r prev c) ls up =
       Some (case path_in e (others prev ts) of Some p \<Rightarrow> (True, ls @ p, up) | None \<Rightarrow> (False, ls, up))"
proof (induction ts arbitrary: r c prev ls up rule: faddrs.induct)
  case 1
  then show ?case by (subst find_path.simps) simp
next
  case (2 a us ts)
  then obtain n where n: "c = Some a" "h a = Some n" "lparent n = Some r" "forest_seg h a (lchild n) us None"
      "forest_seg h r (lsibling n) ts None" by auto
  have rest: "find_path h e (Children r prev (lsibling n)) ls up =
      Some (case path_in e (others prev ts) of Some p \<Rightarrow> (True, ls @ p, up) | None \<Rightarrow> (False, ls, up))" for ls up
    using "2.IH"(2) [OF n(5)] "2.prems"(2) by simp
  have "others (Some r) us = us" by (rule others_id) (use "2.prems"(2) in auto)
  then have "find_path h e (Children a (Some r) (lchild n)) ls up =
      Some (case path_in e us of Some p \<Rightarrow> (True, ls @ p, up) | None \<Rightarrow> (False, ls, up))" for ls up
    using "2.IH"(1) [OF n(4), of "Some r"] "2.prems"(2) by simp
  then have "find_path h e (Visit a (Some r) False) ls up =
      Some (case path_in e [LTree a us] of Some p \<Rightarrow> (True, ls @ p, up) | None \<Rightarrow> (False, ls, up))"
    using n(2,3) by (subst find_path.simps) (simp split: option.split)
  then show ?case using n(1,2) rest by (subst find_path.simps) (simp split: option.split)
qed

section \<open>Going up\<close>

text \<open>The subtrees from the one at a link up to the whole tree.\<close>

fun trail :: "ltree list \<Rightarrow> bool" where
  "trail [] \<longleftrightarrow> False"
| "trail [t] \<longleftrightarrow> True"
| "trail (t # s # ts) \<longleftrightarrow> t \<in> set (lkids s) \<and> trail (s # ts)"

lemma trail_snoc: "trail ts \<Longrightarrow> last ts \<in> set (lkids s) \<Longrightarrow> trail (ts @ [s])"
  by (induction ts rule: trail.induct) auto

lemma trail_exists:
  "a \<in> set (faddrs us) \<Longrightarrow> \<exists>ts. trail ts \<and> lroot (hd ts) = a \<and> last ts \<in> set us"
proof (induction us rule: faddrs.induct)
  case (2 b ks us)
  then consider "a = b" | "a \<in> set (faddrs ks)" | "a \<in> set (faddrs us)" by auto
  then show ?case
  proof cases
    case 1
    then show ?thesis by (intro exI [of _ "[LTree b ks]"]) simp
  next
    case 2
    then obtain ts where ts: "trail ts" "lroot (hd ts) = a" "last ts \<in> set ks" using "2.IH"(1) by auto
    then have "ts \<noteq> []" by auto
    then show ?thesis using trail_snoc [of ts "LTree b ks"] ts by (intro exI [of _ "ts @ [LTree b ks]"]) simp
  next
    case 3
    then show ?thesis using "2.IH"(2) by auto
  qed
qed simp

lemma faddrs_kid: "t \<in> set ts \<Longrightarrow> set (addrs t) \<subseteq> set (faddrs ts)"
  by (induction ts) (auto simp: faddrs_Cons)

lemma forest_kid: "forest_seg h r c ts q \<Longrightarrow> t \<in> set ts \<Longrightarrow> tree_at h (Some r) t"
  by (induction h r c ts q rule: forest_seg.induct) (auto simp: tree_at_def)

lemma distinct_kid: "t \<in> set ts \<Longrightarrow> distinct (faddrs ts) \<Longrightarrow> distinct (addrs t)"
  by (induction ts) (auto simp: faddrs_Cons)

text \<open>What holds of every subtree of a trail in the store.\<close>

lemma trail_trees:
  "trail ts \<Longrightarrow> tree_at h tp (last ts) \<Longrightarrow> distinct (addrs (last ts)) \<Longrightarrow>
     set (addrs (hd ts)) \<subseteq> set (addrs (last ts)) \<and> distinct (addrs (hd ts)) \<and>
     tree_at h (if tl ts = [] then tp else Some (lroot (hd (tl ts)))) (hd ts)"
proof (induction ts rule: trail.induct)
  case (3 t s ts)
  then have s: "set (addrs s) \<subseteq> set (addrs (last (s # ts)))" "distinct (addrs s)" "\<exists>r. tree_at h r s" by auto
  then obtain n where "h (lroot s) = Some n" and n: "forest_seg h (lroot s) (lchild n) (lkids s) None"
    by (auto simp: tree_at_def)
  have t: "t \<in> set (lkids s)" using 3(2) by simp
  have "set (addrs t) \<subseteq> set (addrs s)" using faddrs_kid [OF t] by (auto simp: addrs_eq [of s])
  then have "set (addrs t) \<subseteq> set (addrs (last (s # ts)))" using s(1) by blast
  then show ?case using s(2) forest_kid [OF n t] distinct_kid [OF t] by (simp add: addrs_eq [of s])
qed auto

subsection \<open>The walk of \<open>LinkTraverse\<close>\<close>

text \<open>The links visited after the ascent, from the top down.\<close>

fun detours :: "nat option \<Rightarrow> ltree list \<Rightarrow> nat list" where
  "detours prev [] = []"
| "detours prev (t # ts) = detours (Some (lroot t)) ts @ faddrs (others prev (lkids t))"

lemma traverse_up:
  "trail ts \<Longrightarrow> tree_at h None (last ts) \<Longrightarrow> distinct (addrs (last ts)) \<Longrightarrow>
     traverse h (lroot (hd ts)) True True isUp prev tr =
       Some (tr\<lparr>links := links tr @ map lroot ts @ detours prev ts,
                numUpwardConnections := numUpwardConnections tr + (if isUp then 1 else 0) + int (length ts - 1)\<rparr>)"
proof (induction ts arbitrary: isUp prev tr rule: trail.induct)
  case (3 t s ts)
  obtain n where n: "h (lroot t) = Some n" "lparent n = Some (lroot s)" "forest_seg h (lroot t) (lchild n) (lkids t) None"
    using trail_trees [OF 3(2-4)] by (auto simp: tree_at_def)
  have "trail (s # ts)" using "3.prems"(1) by simp
  then show ?case
    using n "3.IH" "3.prems"(2,3) traverse_children_spec [OF n(3)] by (subst traverse.simps) simp
next
  case (2 t)
  then obtain n where n: "h (lroot t) = Some n" "lparent n = None" "forest_seg h (lroot t) (lchild n) (lkids t) None"
    by (auto simp: tree_at_def)
  then show ?case using traverse_children_spec [OF n(3)] by (subst traverse.simps) simp
qed simp

subsection \<open>The search of \<open>LinkPath\<close>\<close>

fun up_path :: "nat \<Rightarrow> nat option \<Rightarrow> ltree list \<Rightarrow> (nat list \<times> nat) option" where
  "up_path e prev [] = None"
| "up_path e prev (t # ts) =
     (case path_in e [LTree (lroot t) (others prev (lkids t))] of
        Some p \<Rightarrow> Some (p, 0)
      | None \<Rightarrow> map_option (\<lambda>(p, k). (lroot t # p, Suc k)) (up_path e (Some (lroot t)) ts))"

lemma find_up:
  "trail ts \<Longrightarrow> tree_at h None (last ts) \<Longrightarrow> distinct (addrs (last ts)) \<Longrightarrow>
     (\<And>b. prev = Some b \<Longrightarrow> b \<in> set (faddrs (lkids (hd ts)))) \<Longrightarrow>
     find_path h e (Visit (lroot (hd ts)) prev isUp) ls up =
       Some (case up_path e prev ts of
               Some (p, k) \<Rightarrow> (True, ls @ p, up + (if isUp then 1 else 0) + int k)
             | None \<Rightarrow> (False, ls, up))"
proof (induction ts arbitrary: isUp prev ls up rule: trail.induct)
  case (3 t s ts)
  obtain n where n: "h (lroot t) = Some n" "lparent n = Some (lroot s)" "forest_seg h (lroot t) (lchild n) (lkids t) None"
      and dist: "distinct (addrs t)"
    using trail_trees [OF 3(2-4)] by (auto simp: tree_at_def)
  have s: "distinct (addrs s)" "t \<in> set (lkids s)" using trail_trees [of "s # ts" h None] 3(2-4) by auto
  have t: "lroot t \<in> set (faddrs (lkids s))" using faddrs_kid [OF s(2)] lroot_in_addrs [of t] by blast
  have "lroot s \<notin> set (faddrs (lkids t))" using s(1) faddrs_kid [OF s(2)] by (auto simp: addrs_eq)
  then have prev: "Some (lroot s) \<noteq> prev" using "3.prems"(4) by auto
  define U where "U = up_path e (Some (lroot t)) (s # ts)"
  have "trail (s # ts)" using "3.prems"(1) by simp
  then have up: "find_path h e (Visit (lroot s) (Some (lroot t)) True) ls' up' =
      Some (case U of Some (p, k) \<Rightarrow> (True, ls' @ p, up' + 1 + int k) | None \<Rightarrow> (False, ls', up'))" for ls' up'
    using "3.IH" [of "Some (lroot t)" True ls' up'] "3.prems"(2,3) t by (simp add: U_def)
  have expand: "up_path e prev (t # s # ts) = (case path_in e [LTree (lroot t) (others prev (lkids t))] of
        Some p \<Rightarrow> Some (p, 0) | None \<Rightarrow> map_option (\<lambda>(p, k). (lroot t # p, Suc k)) U)"
    by (simp only: U_def up_path.simps(2))
  show ?case
    using n(1,2) prev find_children [OF n(3), where prev = prev and e = e] dist
    by (subst find_path.simps) (simp add: up expand addrs_eq Let_def del: up_path.simps split: option.split prod.split)
next
  case (2 t)
  then obtain n where n: "h (lroot t) = Some n" "lparent n = None" "forest_seg h (lroot t) (lchild n) (lkids t) None"
    by (auto simp: tree_at_def)
  then show ?case
    using find_children [OF n(3), where prev = prev and e = e] 2 by (subst find_path.simps) (simp add: addrs_eq split: option.split)
qed simp

lemma path_in_set: "path_in e ts = Some p \<Longrightarrow> set p \<subseteq> set (faddrs ts)"
  by (induction e ts arbitrary: p rule: path_in.induct) (fastforce split: if_splits option.splits)+

lemma faddrs_others: "set (faddrs (others prev ts)) \<subseteq> set (faddrs ts)"
  by (induction ts) (auto simp: faddrs_Cons)

lemma path_in_others:
  "distinct (faddrs ts) \<Longrightarrow> path_in e (others prev ts) = Some p \<Longrightarrow> path_in e ts = Some p"
proof (induction ts rule: faddrs.induct)
  case (2 a us ts)
  have "e \<in> set (faddrs ts)" if "path_in e (others prev ts) = Some p"
    using that path_in_None [of e "others prev ts"] faddrs_others by fastforce
  then show ?case
    using 2 path_in_None [of e us] by (auto split: if_splits option.splits)
qed simp

lemma others_disjoint:
  "distinct (faddrs ts) \<Longrightarrow> t \<in> set ts \<Longrightarrow> lroot t = b \<Longrightarrow> set (addrs t) \<inter> set (faddrs (others (Some b) ts)) = {}"
proof (induction ts)
  case (Cons s ts)
  have rest: "t = s \<Longrightarrow> others (Some b) ts = ts"
    using Cons.prems lroot_in_addrs [of t] by (intro others_id) (auto simp: faddrs_Cons)
  show ?case
  proof (cases "t = s")
    case True
    then show ?thesis using Cons.prems rest by (auto simp: faddrs_Cons)
  next
    case False
    then have t: "t \<in> set ts" using Cons.prems(2) by simp
    then have "set (addrs t) \<inter> set (faddrs (others (Some b) ts)) = {}" using Cons by (simp add: faddrs_Cons)
    moreover have "set (addrs t) \<inter> set (addrs s) = {}" using faddrs_kid [OF t] Cons.prems(1) by (auto simp: faddrs_Cons)
    ultimately show ?thesis by (auto simp: faddrs_Cons)
  qed
qed simp

text \<open>A way through the tree: \<open>k\<close> steps to the parent, then steps to a child.\<close>

definition link_way :: "('v, 'm) link_heap \<Rightarrow> nat \<Rightarrow> nat list \<Rightarrow> bool" where
  "link_way h k p \<longleftrightarrow>
     (\<forall>i < k. par h (p ! i) = Some (p ! (i + 1))) \<and>
     (\<forall>i. k \<le> i \<longrightarrow> i + 1 < length p \<longrightarrow> par h (p ! (i + 1)) = Some (p ! i))"

lemma link_way_up: "link_way h k p \<Longrightarrow> p \<noteq> [] \<Longrightarrow> par h a = Some (hd p) \<Longrightarrow> link_way h (Suc k) (a # p)"
  by (auto simp: link_way_def nth_Cons hd_conv_nth split: nat.split)

lemma link_way_down: "successively (\<lambda>x y. par h y = Some x) p \<Longrightarrow> link_way h 0 p"
  by (simp add: link_way_def successively_conv_nth)

lemma path_in_node:
  assumes "path_in e [LTree (lroot t) (others prev (lkids t))] = Some p" and "tree_at h r t" and "distinct (addrs t)"
  shows "p \<noteq> [] \<and> hd p = lroot t \<and> last p = e \<and> distinct p \<and> link_way h 0 p \<and>
    set p \<subseteq> insert (lroot t) (set (faddrs (others prev (lkids t))))"
proof -
  obtain n where n: "h (lroot t) = Some n" "forest_seg h (lroot t) (lchild n) (lkids t) None"
    using assms(2) by (auto simp: tree_at_def)
  show ?thesis
  proof (cases "lroot t = e")
    case True
    then show ?thesis using assms(1) by (auto simp: link_way_def)
  next
    case False
    then obtain q where q: "p = lroot t # q" "path_in e (others prev (lkids t)) = Some q"
      using assms(1) by (auto split: option.splits)
    have "path_in e (lkids t) = Some q" using path_in_others [OF _ q(2)] assms(3) by (simp add: addrs_eq)
    from path_in_Some [OF this n(2)] path_in_set [OF q(2)] show ?thesis
      using q(1) assms(3) faddrs_others [of prev "lkids t"]
      by (cases q) (auto simp: addrs_eq intro!: link_way_down)
  qed
qed

lemma others_cover:
  "a \<in> set (faddrs ts) \<Longrightarrow> a \<in> set (faddrs (others prev ts)) \<or> (\<exists>s \<in> set ts. Some (lroot s) = prev \<and> a \<in> set (addrs s))"
  by (induction ts) (auto simp: faddrs_Cons)

lemma fresh_root: "distinct (faddrs (u # ts)) \<Longrightarrow> v \<in> set ts \<Longrightarrow> lroot v \<noteq> lroot u"
  using faddrs_kid [of v ts] lroot_in_addrs [of u] lroot_in_addrs [of v]
  by (auto simp: faddrs_Cons simp del: lroot_in_addrs)

lemma unique_root: "distinct (faddrs ts) \<Longrightarrow> s \<in> set ts \<Longrightarrow> t \<in> set ts \<Longrightarrow> lroot s = lroot t \<Longrightarrow> s = t"
proof (induction ts)
  case (Cons u ts)
  then show ?case using fresh_root [OF Cons.prems(1)] by (fastforce simp: faddrs_Cons)
qed simp

text \<open>What the walk may come from: nothing, or a child whose subtree lacks the end.\<close>

definition came_from :: "nat option \<Rightarrow> nat \<Rightarrow> ltree \<Rightarrow> bool" where
  "came_from prev e t \<longleftrightarrow> (\<forall>b. prev = Some b \<longrightarrow> (\<exists>s \<in> set (lkids t). lroot s = b \<and> e \<notin> set (addrs s)))"

definition avoids :: "nat list \<Rightarrow> nat option \<Rightarrow> ltree \<Rightarrow> bool" where
  "avoids p prev t \<longleftrightarrow> (\<forall>s \<in> set (lkids t). Some (lroot s) = prev \<longrightarrow> set p \<inter> set (addrs s) = {})"

lemma node_lacks_end:
  assumes "path_in e [LTree (lroot t) (others prev (lkids t))] = None" and "came_from prev e t" and "distinct (addrs t)"
  shows "e \<notin> set (addrs t)"
proof
  assume "e \<in> set (addrs t)"
  moreover have none: "e \<noteq> lroot t" "e \<notin> set (faddrs (others prev (lkids t)))"
    using assms(1) unfolding path_in_None by auto
  ultimately obtain s where s: "s \<in> set (lkids t)" "Some (lroot s) = prev" "e \<in> set (addrs s)"
    using others_cover [of e "lkids t" prev] by (auto simp: addrs_eq [of t])
  then show False
    using assms(2) unique_root [of "lkids t" s] assms(3) by (fastforce simp: came_from_def addrs_eq [of t])
qed

lemma node_avoids:
  assumes "path_in e [LTree (lroot t) (others prev (lkids t))] = Some p" and "tree_at h r t" and "distinct (addrs t)"
  shows "avoids p prev t"
  unfolding avoids_def
proof (intro ballI impI)
  fix s
  assume s: "s \<in> set (lkids t)" "Some (lroot s) = prev"
  have "set (addrs s) \<inter> set (faddrs (others prev (lkids t))) = {}"
    using others_disjoint [of "lkids t" s "lroot s"] s assms(3) by (simp add: addrs_eq [of t])
  moreover have "lroot t \<notin> set (addrs s)" using faddrs_kid [OF s(1)] assms(3) by (auto simp: addrs_eq [of t])
  ultimately show "set p \<inter> set (addrs s) = {}" using path_in_node [OF assms] by auto
qed

lemma up_path_spec:
  "trail ts \<Longrightarrow> tree_at h None (last ts) \<Longrightarrow> distinct (addrs (last ts)) \<Longrightarrow> e \<in> set (addrs (last ts)) \<Longrightarrow>
     came_from prev e (hd ts) \<Longrightarrow>
     \<exists>p k. up_path e prev ts = Some (p, k) \<and> p \<noteq> [] \<and> hd p = lroot (hd ts) \<and> last p = e \<and> distinct p \<and> link_way h k p \<and>
       k < length p \<and> set p \<subseteq> set (addrs (last ts)) \<and> avoids p prev (hd ts)"
proof (induction ts arbitrary: prev rule: trail.induct)
  case (3 t s ts)
  have t: "set (addrs t) \<subseteq> set (addrs (last (s # ts)))" "distinct (addrs t)" "tree_at h (Some (lroot s)) t"
    using trail_trees [OF 3(2-4)] by auto
  have s: "distinct (addrs s)" "t \<in> set (lkids s)" using trail_trees [of "s # ts" h None] 3(2-4) by auto
  show ?case
  proof (cases "path_in e [LTree (lroot t) (others prev (lkids t))]")
    case (Some p)
    have "set p \<subseteq> set (addrs t)" using path_in_node [OF Some t(3,2)] faddrs_others by (fastforce simp: addrs_eq)
    then show ?thesis
      using path_in_node [OF Some t(3,2)] node_avoids [OF Some t(3,2)] Some t(1)
      by (intro exI [of _ p] exI [of _ 0]) auto
  next
    case None
    have e: "e \<notin> set (addrs t)" using node_lacks_end [OF None _ t(2)] "3.prems"(5) by simp
    then have "came_from (Some (lroot t)) e s" using s(2) by (auto simp: came_from_def)
    then obtain p k where p: "up_path e (Some (lroot t)) (s # ts) = Some (p, k)" "p \<noteq> []" "hd p = lroot s" "last p = e"
        "distinct p" "link_way h k p" "k < length p" "set p \<subseteq> set (addrs (last (s # ts)))" "avoids p (Some (lroot t)) s"
      using "3.IH" [of "Some (lroot t)"] "3.prems"(1-4) by auto
    have apart: "set p \<inter> set (addrs t) = {}" using p(9) s(2) by (auto simp: avoids_def)
    have "par h (lroot t) = Some (hd p)" using t(3) p(3) by (auto simp: tree_at_def)
    then have "link_way h (Suc k) (lroot t # p)" using link_way_up [OF p(6,2)] by simp
    moreover have "lroot t \<notin> set p" using apart by auto
    moreover have "avoids (lroot t # p) prev t"
      unfolding avoids_def
    proof (intro ballI impI)
      fix u
      assume u: "u \<in> set (lkids t)"
      then show "set (lroot t # p) \<inter> set (addrs u) = {}"
        using faddrs_kid [OF u] apart t(2) by (auto simp: addrs_eq [of t])
    qed
    moreover have "set (lroot t # p) \<subseteq> set (addrs (last (s # ts)))" using p(8) t(1) by (auto simp: addrs_eq [of t])
    moreover have "up_path e prev (t # s # ts) = Some (lroot t # p, Suc k)" using None p(1) by simp
    ultimately show ?thesis using p(2,4,5,7) by (intro exI [of _ "lroot t # p"] exI [of _ "Suc k"]) auto
  qed
next
  case (2 t)
  then have t: "distinct (addrs t)" "tree_at h None t" by auto
  then obtain p where p: "path_in e [LTree (lroot t) (others prev (lkids t))] = Some p"
    using node_lacks_end [of e t prev] "2.prems"(4,5) by fastforce
  have "set p \<subseteq> set (addrs t)" using path_in_node [OF p t(2,1)] faddrs_others by (fastforce simp: addrs_eq)
  then show ?case
    using path_in_node [OF p t(2,1)] node_avoids [OF p t(2,1)] p by (intro exI [of _ p] exI [of _ 0]) auto
qed simp

lemma up_path_None: "trail ts \<Longrightarrow> e \<notin> set (addrs (last ts)) \<Longrightarrow> tree_at h None (last ts) \<Longrightarrow> distinct (addrs (last ts)) \<Longrightarrow>
  up_path e prev ts = None"
proof (induction ts arbitrary: prev rule: trail.induct)
  case (3 t s ts)
  have "e \<notin> set (addrs t)" using trail_trees [OF 3(2,4,5)] "3.prems"(2) by auto
  then have "path_in e [LTree (lroot t) (others prev (lkids t))] = None"
    unfolding path_in_None using faddrs_others by (auto simp: addrs_eq)
  then show ?case using 3 by simp
next
  case (2 t)
  then have "path_in e [LTree (lroot t) (others prev (lkids t))] = None"
    unfolding path_in_None using faddrs_others by (auto simp: addrs_eq)
  then show ?case by simp
qed simp

text \<open>
  On a tree of links \<open>LinkPath::find\<close> returns, finds the end exactly when it is in the tree, and
  then holds the way from the base to the end without repetitions: first the steps to the parents,
  as many as it counted, then the steps to the children.
\<close>

lemma LinkPath_find_spec:
  assumes "tree_at h None T" and "distinct (addrs T)" and "base \<in> set (addrs T)"
  shows "\<exists>found tr. LinkPath_find h base e = Some (found, tr) \<and> (found \<longleftrightarrow> e \<in> set (addrs T)) \<and>
    (if found then links tr \<noteq> [] \<and> hd (links tr) = base \<and> last (links tr) = e \<and> distinct (links tr) \<and>
       0 \<le> numUpwardConnections tr \<and> numUpwardConnections tr < int (length (links tr)) \<and>
       link_way h (nat (numUpwardConnections tr)) (links tr) \<and> set (links tr) \<subseteq> set (addrs T)
     else tr = \<lparr>links = [], numUpwardConnections = 0\<rparr>)"
proof -
  obtain ts where ts: "trail ts" "lroot (hd ts) = base" "last ts = T"
    using trail_exists [of base "[T]"] assms(3) by auto
  then have run: "LinkPath_find h base e = Some (case up_path e None ts of
      Some (p, k) \<Rightarrow> (True, \<lparr>links = p, numUpwardConnections = int k\<rparr>)
    | None \<Rightarrow> (False, \<lparr>links = [], numUpwardConnections = 0\<rparr>))"
    using find_up [OF ts(1), of h None e False "[]" 0] assms(1,2)
    by (simp add: LinkPath_find_def split: option.split)
  show ?thesis
  proof (cases "e \<in> set (addrs T)")
    case True
    then obtain p k where "up_path e None ts = Some (p, k)" "p \<noteq> []" "hd p = base" "last p = e" "distinct p"
        "link_way h k p" "k < length p" "set p \<subseteq> set (addrs T)"
      using up_path_spec [OF ts(1), of h e None] assms(1,2) ts by (auto simp: came_from_def)
    then show ?thesis
      using run True by (intro exI [of _ True] exI [of _ "\<lparr>links = p, numUpwardConnections = int k\<rparr>"]) simp
  next
    case False
    then show ?thesis using run up_path_None [OF ts(1), of e h None] assms(1,2) ts(3)
      by (intro exI [of _ False] exI [of _ "\<lparr>links = [], numUpwardConnections = 0\<rparr>"]) simp
  qed
qed

section \<open>What \<open>LinkTraverse\<close> visits\<close>

text \<open>Every link of the list comes after its parent, or its parent is one of \<open>S\<close>.\<close>

fun fed :: "('v, 'm) link_heap \<Rightarrow> nat set \<Rightarrow> nat list \<Rightarrow> bool" where
  "fed h S [] \<longleftrightarrow> True"
| "fed h S (a # as) \<longleftrightarrow> (\<exists>p \<in> S. par h a = Some p) \<and> fed h (insert a S) as"

lemma fed_mono: "fed h S as \<Longrightarrow> S \<subseteq> T \<Longrightarrow> fed h T as"
  by (induction as arbitrary: S T) (auto, blast)

lemma fed_append: "fed h S (as @ bs) \<longleftrightarrow> fed h S as \<and> fed h (S \<union> set as) bs"
  by (induction as arbitrary: S) auto

lemma fed_forest: "forest_seg h r c ts q \<Longrightarrow> r \<in> S \<Longrightarrow> fed h S (faddrs ts)"
proof (induction ts arbitrary: r c q S rule: faddrs.induct)
  case (2 a us ts)
  then obtain n where n: "h a = Some n" "lparent n = Some r" "forest_seg h a (lchild n) us None"
      "forest_seg h r (lsibling n) ts q" by auto
  have "fed h (insert a S) (faddrs us)" "fed h (insert a S \<union> set (faddrs us)) (faddrs ts)"
    using "2.IH"(1) [OF n(3)] "2.IH"(2) [OF n(4)] "2.prems"(2) by auto
  then show ?case using n(1,2) "2.prems"(2) by (auto simp: fed_append)
qed simp

lemma fed_others: "forest_seg h r c ts q \<Longrightarrow> r \<in> S \<Longrightarrow> fed h S (faddrs (others prev ts))"
proof (induction ts arbitrary: c S)
  case (Cons t ts)
  obtain m where m: "forest_seg h r c [t] m" "forest_seg h r m ts q"
    using Cons.prems(1) forest_seg_append [of h r c "[t]" ts q] by auto
  then show ?case
    using Cons.IH [OF m(2)] fed_forest [OF m(1) Cons.prems(2)] Cons.prems(2) by (simp add: faddrs_Cons fed_append)
qed simp

lemma fed_detours:
  "trail ts \<Longrightarrow> tree_at h None (last ts) \<Longrightarrow> distinct (addrs (last ts)) \<Longrightarrow> set (map lroot ts) \<subseteq> S \<Longrightarrow>
     fed h S (detours prev ts)"
proof (induction ts arbitrary: prev S rule: trail.induct)
  case (3 t s ts)
  obtain n where n: "h (lroot t) = Some n" "forest_seg h (lroot t) (lchild n) (lkids t) None"
    using trail_trees [OF 3(2-4)] by (auto simp: tree_at_def)
  have "fed h S (detours (Some (lroot t)) (s # ts))" using 3 by simp
  then show ?case using fed_others [OF n(2)] "3.prems"(4) by (simp add: fed_append)
next
  case (2 t)
  then show ?case using fed_others by (fastforce simp: tree_at_def)
qed simp

lemma mset_others:
  "mset (faddrs ts) = mset (faddrs (others prev ts)) + mset (faddrs (filter (\<lambda>t. Some (lroot t) = prev) ts))"
  by (induction ts) (auto simp: faddrs_Cons)

lemma only_root: "distinct (faddrs ts) \<Longrightarrow> t \<in> set ts \<Longrightarrow> filter (\<lambda>s. lroot s = lroot t) ts = [t]"
proof (induction ts)
  case (Cons s ts)
  have none: "filter (\<lambda>u. lroot u = lroot s) ts = []"
    using fresh_root [OF Cons.prems(1)] by (simp add: filter_empty_conv)
  show ?case
  proof (cases "t = s")
    case False
    then have "lroot s \<noteq> lroot t" using unique_root [OF Cons.prems(1), of s t] Cons.prems(2) by auto
    then show ?thesis using False Cons by (simp add: faddrs_Cons)
  qed (simp add: none)
qed simp

lemma mset_detours:
  "trail ts \<Longrightarrow> tree_at h None (last ts) \<Longrightarrow> distinct (addrs (last ts)) \<Longrightarrow>
     mset (map lroot ts @ detours prev ts) + mset (faddrs (filter (\<lambda>t. Some (lroot t) = prev) (lkids (hd ts)))) =
       mset (addrs (last ts))"
proof (induction ts arbitrary: prev rule: trail.induct)
  case (3 t s ts)
  have s: "distinct (addrs s)" "t \<in> set (lkids s)" using trail_trees [of "s # ts" h None] 3(2-4) by auto
  then have "filter (\<lambda>u. lroot u = lroot t) (lkids s) = [t]" by (intro only_root) (simp_all add: addrs_eq)
  then have "mset (map lroot (s # ts) @ detours (Some (lroot t)) (s # ts)) + mset (addrs t) = mset (addrs (last (s # ts)))"
    using "3.IH" [of "Some (lroot t)"] "3.prems" by simp
  then show ?case using mset_others [of "lkids t" prev] by (auto simp: addrs_eq [of t] ac_simps add_mset_commute [of "lroot s" "lroot t"])
next
  case (2 t)
  then show ?case using mset_others [of "lkids t" prev] by (simp add: addrs_eq [of t])
qed simp

text \<open>\<open>k\<close> steps to the parents, then links whose parents have been visited.\<close>

definition walk_ok :: "('v, 'm) link_heap \<Rightarrow> nat \<Rightarrow> nat list \<Rightarrow> bool" where
  "walk_ok h k ls \<longleftrightarrow> distinct ls \<and> k < length ls \<and>
     (\<forall>i < k. par h (ls ! i) = Some (ls ! (i + 1))) \<and> fed h (set (take (Suc k) ls)) (drop (Suc k) ls)"

lemma trail_steps:
  "trail ts \<Longrightarrow> tree_at h None (last ts) \<Longrightarrow> distinct (addrs (last ts)) \<Longrightarrow> i < length ts - 1 \<Longrightarrow>
     par h (lroot (ts ! i)) = Some (lroot (ts ! (i + 1)))"
proof (induction ts arbitrary: i rule: trail.induct)
  case (3 t s ts)
  have "par h (lroot t) = Some (lroot s)" using trail_trees [OF 3(2-4)] by (auto simp: tree_at_def)
  then show ?case using 3 by (cases i) simp_all
qed simp_all

lemma find_walk_up:
  assumes "trail ts" and "tree_at h None (last ts)" and "distinct (addrs (last ts))"
  shows "walk_ok h (length ts - 1) (map lroot ts @ detours None ts)"
proof -
  let ?ls = "map lroot ts @ detours None ts"
  have "ts \<noteq> []" using assms(1) by auto
  have m: "mset ?ls = mset (addrs (last ts))" using mset_detours [OF assms, of None] by simp
  have "distinct ?ls" using mset_eq_imp_distinct_iff [OF m] assms(3) by simp
  moreover have "fed h (set (map lroot ts)) (detours None ts)" using fed_detours [OF assms] by simp
  moreover have "par h (?ls ! i) = Some (?ls ! (i + 1))" if "i < length ts - 1" for i
  proof -
    have "Suc i < length ts" using that by simp
    then show ?thesis using trail_steps [OF assms that] by (simp add: nth_append)
  qed
  ultimately show ?thesis using \<open>ts \<noteq> []\<close> by (cases ts rule: rev_cases) (auto simp: walk_ok_def)
qed

lemma LinkTraverse_find_up:
  assumes "tree_at h None T" and "distinct (addrs T)" and "base \<in> set (addrs T)"
  shows "\<exists>ls k. LinkTraverse_find h base True True = Some \<lparr>links = ls, numUpwardConnections = int k\<rparr> \<and>
    mset ls = mset (addrs T) \<and> hd ls = base \<and> walk_ok h k ls"
proof -
  obtain ts where ts: "trail ts" "lroot (hd ts) = base" "last ts = T"
    using trail_exists [of base "[T]"] assms(3) by auto
  let ?ls = "map lroot ts @ detours None ts"
  have "LinkTraverse_find h base True True = Some \<lparr>links = ?ls, numUpwardConnections = int (length ts - 1)\<rparr>"
    unfolding LinkTraverse_find_def
    using traverse_up [OF ts(1), of h False None] assms(1,2) ts(2,3) by simp
  moreover have "mset ?ls = mset (addrs T)" using mset_detours [OF ts(1), of h None] assms(1,2) ts(3) by simp
  moreover have "walk_ok h (length ts - 1) ?ls" using find_walk_up [OF ts(1), of h] assms(1,2) ts(3) by simp
  moreover have "hd ?ls = base" using ts(1,2) by (cases ts) auto
  ultimately show ?thesis by blast
qed

lemma LinkTraverse_find_down:
  assumes "tree_at h r s"
  shows "LinkTraverse_find h (lroot s) False True = Some \<lparr>links = addrs s, numUpwardConnections = 0\<rparr>"
proof -
  obtain m where m: "h (lroot s) = Some m" "forest_seg h (lroot s) (lchild m) (lkids s) None"
    using assms by (auto simp: tree_at_def)
  have "others None (lkids s) = lkids s" by (rule others_id) simp
  then show ?thesis
    unfolding LinkTraverse_find_def using m(1) traverse_children_spec [OF m(2), of None]
    by (subst traverse.simps) (simp add: addrs_eq Let_def split: option.split)
qed

text \<open>
  C32: From any link of a tree, \<open>find\<close> with both directions lists every link of the tree once: the
  links up to the root first, as many steps as it counted, then the others, each after its parent.
  With the downward direction only it lists the subtree in preorder.
\<close>

theorem LinkTraverse_find_correct:
  assumes "tree_at h None T" and "distinct (addrs T)" and "find_f base [T] = Some s"
  shows "LinkTraverse_find h base False True = Some \<lparr>links = addrs s, numUpwardConnections = 0\<rparr> \<and>
    (\<exists>ls k. LinkTraverse_find h base True True = Some \<lparr>links = ls, numUpwardConnections = int k\<rparr> \<and>
      mset ls = mset (addrs T) \<and> hd ls = base \<and> walk_ok h k ls)"
proof
  obtain m where "h base = Some m" and m: "tree_at h (lparent m) s" "lroot s = base"
    using tree_find [OF assms(1,3)] by blast
  show "LinkTraverse_find h base False True = Some \<lparr>links = addrs s, numUpwardConnections = 0\<rparr>"
    using LinkTraverse_find_down [OF m(1)] m(2) by simp
qed (rule LinkTraverse_find_up [OF assms(1,2) find_in_addrs [OF assms(3), THEN conjunct2]])

section \<open>The joints on a path\<close>

definition joint_in :: "('v, 'm) link_heap \<Rightarrow> nat \<Rightarrow> bool" where
  "joint_in h a = (case h a of Some n \<Rightarrow> is_joint n | None \<Rightarrow> False)"

lemma extract_loop_spec:
  "\<forall>i \<in> set is. i < length (links tr) \<and> links tr ! i \<in> dom h \<Longrightarrow>
     extract_loop h tr is js up =
       Some (js @ filter (joint_in h) (map ((!) (links tr)) is),
             up + int (length (filter (\<lambda>i. joint_in h (links tr ! i) \<and> int i < numUpwardConnections tr) is)))"
proof (induction "is" arbitrary: js up)
  case (Cons i "is")
  then obtain n where n: "h (links tr ! i) = Some n" "i < length (links tr)" by auto
  then show ?case using Cons by (auto simp: link_at_def joint_in_def isDownward_def)
qed simp

lemma map_nth_upt: "k \<le> length xs \<Longrightarrow> map ((!) xs) [0..<k] = take k xs"
  by (rule nth_equalityI) auto

lemma map_nth_upt_from: "k \<le> length xs \<Longrightarrow> map ((!) xs) [i..<k] = drop i (take k xs)"
  by (metis drop_map drop_upt map_nth_upt add_0)

lemma length_filter_map: "length (filter (\<lambda>i. P (f i)) is) = length (filter P (map f is))"
  by (simp add: filter_map o_def)

lemma count_up:
  assumes "k \<le> m" and "m \<le> length xs"
  shows "length (filter (\<lambda>i. P (xs ! i) \<and> i < k) [0..<m]) = length (filter P (take k xs))"
proof -
  have "[0..<m] = [0..<k] @ [k..<m]" using assms(1) by (metis le_add_diff_inverse upt_add_eq_append zero_le)
  then have "filter (\<lambda>i. P (xs ! i) \<and> i < k) [0..<m] = filter (\<lambda>i. P (xs ! i)) [0..<k]"
    by (auto simp: filter_empty_conv intro!: filter_cong)
  then show ?thesis using map_nth_upt [of k xs] assms length_filter_map [of P "(!) xs" "[0..<k]"] by simp
qed

text \<open>
  The joints taken from a path with \<open>k\<close> upward steps: those of the \<open>k\<close> links left upwards, those
  of the links reached downwards, and, when the path first goes up and then down, also the joint of
  the link where it turns, which connects that link to its own parent and is not on the path.
\<close>

definition path_joints :: "('v, 'm) link_heap \<Rightarrow> nat \<Rightarrow> nat list \<Rightarrow> nat list" where
  "path_joints h k ls =
     filter (joint_in h) (take k ls) @
     (if 0 < k \<and> k < length ls - 1 then filter (joint_in h) [ls ! k] else []) @
     filter (joint_in h) (drop (Suc k) ls)"

lemma extractJoints_spec:
  assumes "links (linkPath jp) = ls" and "numUpwardConnections (linkPath jp) = int k" and "k < length ls"
    and "1 < length ls" and "set ls \<subseteq> dom h"
  shows "\<exists>jp'. extractJoints h jp = Some jp' \<and>
    joints_m jp' = path_joints h k ls \<and>
    numUpwardJointConnections jp' = int (length (filter (joint_in h) (take k ls))) \<and> linkPath jp' = linkPath jp"
proof -
  let ?m = "length ls - 1" and ?J = "filter (joint_in h)"
  have rng: "\<forall>i \<in> set [j..<?m]. i < length (links (linkPath jp)) \<and> links (linkPath jp) ! i \<in> dom h" for j
  proof
    fix i
    assume "i \<in> set [j..<?m]"
    then have "i < length ls" by auto
    then show "i < length (links (linkPath jp)) \<and> links (linkPath jp) ! i \<in> dom h"
      using assms(1) subsetD [OF assms(5) nth_mem] by simp
  qed
  have sp: "extract_loop h (linkPath jp) [j..<?m] [] 0 =
      Some (?J (drop j (take ?m ls)), int (length (filter (\<lambda>i. joint_in h (ls ! i) \<and> i < k) [j..<?m])))" for j
    using extract_loop_spec [OF rng [of j], of "[]" 0] map_nth_upt_from [of ?m ls j] assms(1,2) by simp
  have "?m < length ls" using assms(4) by linarith
  then obtain n where n: "h (ls ! ?m) = Some n" using subsetD [OF assms(5) nth_mem, of ?m] by auto
  have split: "take ?m ls @ [ls ! ?m] = ls"
    using assms(4) by (cases ls rule: rev_cases) simp_all
  have "isDownward (linkPath jp) 0 \<longleftrightarrow> k = 0" "isDownward (linkPath jp) (int ?m - 1) \<longleftrightarrow> k < ?m"
    using assms(2,4) by (auto simp: isDownward_def of_nat_diff)
  moreover have "link_at (linkPath jp) ?m = Some (ls ! ?m)" using assms(1) \<open>?m < length ls\<close> by (simp add: link_at_def)
  ultimately have ext: "extractJoints h jp = Some (jp\<lparr>joints_m := ?J (drop j (take ?m ls)) @ (if k < ?m then ?J [ls ! ?m] else []),
      numUpwardJointConnections := int (length (filter (\<lambda>i. joint_in h (ls ! i) \<and> i < k) [j..<?m]))\<rparr>)"
    if "j = (if k = 0 then 1 else 0)" for j
    using that assms(1,4) n sp [of j] by (simp add: extractJoints_def Let_def numLinks_def joint_in_def)
  consider "k = 0" | "0 < k" "k < ?m" | "k = ?m" "0 < k" using assms(3,4) by linarith
  then show ?thesis
  proof cases
    case 1
    have "drop 1 (take ?m ls) @ [ls ! ?m] = drop 1 (take ?m ls @ [ls ! ?m])" using assms(4) by simp
    then have "?J (drop 1 (take ?m ls)) @ ?J [ls ! ?m] = ?J (drop 1 ls)" by (simp only: filter_append [symmetric] split)
    then show ?thesis using ext [of 1] 1 assms(4) by (simp del: filter.simps add: path_joints_def)
  next
    case 2
    have "?J (take ?m ls) @ ?J [ls ! ?m] = ?J ls" by (simp only: filter_append [symmetric] split)
    also have "\<dots> = ?J (take k ls @ [ls ! k] @ drop (Suc k) ls)"
      by (simp only: append_Cons append_Nil id_take_nth_drop [OF assms(3), symmetric])
    also have "\<dots> = ?J (take k ls) @ ?J [ls ! k] @ ?J (drop (Suc k) ls)" by (simp only: filter_append)
    finally show ?thesis using ext [of 0] 2 count_up [of k ?m ls "joint_in h"] by (simp del: filter.simps add: path_joints_def)
  next
    case 3
    then show ?thesis using ext [of 0] count_up [of k ?m ls "joint_in h"] by (simp add: path_joints_def)
  qed
qed

text \<open>
  C28: A joint path between two different links of a tree: the constructor returns, the links are the
  way between them, first up and then down, and the joints are those of \<open>path_joints\<close>: the joint
  of the link where the way turns is among them although the way does not use it.
\<close>

theorem JointPath_between:
  assumes "tree_at h None T" and "distinct (addrs T)" and "base \<in> set (addrs T)" and "e \<in> set (addrs T)" and "base \<noteq> e"
  shows "\<exists>jp ls k. JointPath_new_between h unset base e = Some jp \<and>
    linkPath jp = \<lparr>links = ls, numUpwardConnections = int k\<rparr> \<and>
    hd ls = base \<and> last ls = e \<and> distinct ls \<and> k < length ls \<and> link_way h k ls \<and>
    joints_m jp = path_joints h k ls \<and>
    numUpwardJointConnections jp = int (length (filter (joint_in h) (take k ls)))"
proof -
  obtain tr where tr: "LinkPath_find h base e = Some (True, tr)" "links tr \<noteq> []" "hd (links tr) = base" "last (links tr) = e"
      "distinct (links tr)" "0 \<le> numUpwardConnections tr" "numUpwardConnections tr < int (length (links tr))"
      "link_way h (nat (numUpwardConnections tr)) (links tr)" "set (links tr) \<subseteq> set (addrs T)"
    using LinkPath_find_spec [OF assms(1-3), of e] assms(4) by auto
  obtain a b ls where ls: "links tr = a # b # ls"
    using tr(2-4) assms(5) by (cases "links tr" rule: remdups_adj.cases) auto
  let ?k = "nat (numUpwardConnections tr)"
  have jp0: "linkPath (JointPath_init tr unset) = tr" by (simp add: JointPath_init_def)
  have "?k < length (links tr)" "1 < length (links tr)" "numUpwardConnections tr = int ?k" using tr(6,7) ls by auto
  moreover have "set (links tr) \<subseteq> dom h" using tr(9) tree_at_dom [OF assms(1)] by blast
  ultimately obtain jp where "extractJoints h (JointPath_init tr unset) = Some jp" "joints_m jp = path_joints h ?k (links tr)"
      "numUpwardJointConnections jp = int (length (filter (joint_in h) (take ?k (links tr))))" "linkPath jp = tr"
    using extractJoints_spec [of "JointPath_init tr unset" "links tr" ?k h] unfolding jp0 by auto
  then show ?thesis
    using tr by (intro exI [of _ jp] exI [of _ "links tr"] exI [of _ ?k]) (simp add: JointPath_new_between_def)
qed

text \<open>
  C34: When there is no way to the end, \<open>JointPath::find\<close> keeps the joints of an earlier path and
  reports success if there were any; the path of links is empty.
\<close>

theorem JointPath_find_keeps_old_joints:
  assumes "tree_at h None T" and "distinct (addrs T)" and "base \<in> set (addrs T)" and "e \<notin> set (addrs T)"
  shows "JointPath_find h jp base e = Some (joints_m jp \<noteq> [], jp\<lparr>linkPath := \<lparr>links = [], numUpwardConnections = 0\<rparr>\<rparr>)"
proof -
  have "LinkPath_find h base e = Some (False, \<lparr>links = [], numUpwardConnections = 0\<rparr>)"
    using LinkPath_find_spec [OF assms(1-3), of e] assms(4) by (auto split: if_splits)
  then show ?thesis by (simp add: JointPath_find_def)
qed

end
