(* ===== verification/KinematicsModel.thy ===== *)
theory KinematicsModel
  imports LinkPathProofs
begin

text \<open>
  \<open>LinkTraverse::calcForwardKinematics\<close> and the mass sums over a subtree of \<open>Link.cpp\<close>: the
  positions, velocities and accelerations of the links are computed one from the other along a
  walk. The arithmetic of vectors and matrices is Eigen's and \<open>rodrigues\<close> is the rotation about an
  axis: both are parameters, the fields of \<open>eigen\<close>. What is shown is about the walk: that each
  link is computed once, from a link that has its final values.
\<close>

section \<open>Operations on vectors and matrices\<close>

record ('v, 'm) eigen =
  mmul :: "'m \<Rightarrow> 'm \<Rightarrow> 'm"
  mvec :: "'m \<Rightarrow> 'v \<Rightarrow> 'v"
  transposed :: "'m \<Rightarrow> 'm"
  vadd :: "'v \<Rightarrow> 'v \<Rightarrow> 'v"
  vsub :: "'v \<Rightarrow> 'v \<Rightarrow> 'v"
  vscale :: "double \<Rightarrow> 'v \<Rightarrow> 'v"
  vcross :: "'v \<Rightarrow> 'v \<Rightarrow> 'v"
  rodrigues :: "'v \<Rightarrow> double \<Rightarrow> 'm"

section \<open>One step down\<close>

text \<open>The pose of a link from its parent's: the arm is the offset in the world frame.\<close>

definition down_arm :: "('v, 'm) eigen \<Rightarrow> ('v, 'm) LinkMotion \<Rightarrow> ('v, 'm) Link \<Rightarrow> 'v" where
  "down_arm E P l =
     (case ljointType l of
        SLIDE_JOINT \<Rightarrow> mvec E (lR P) (vadd E (lb (params l)) (vscale E (lq (motion l)) (ld (params l))))
      | _ \<Rightarrow> mvec E (lR P) (lb (params l)))"

definition down_pose :: "('v, 'm) eigen \<Rightarrow> ('v, 'm) LinkMotion \<Rightarrow> ('v, 'm) Link \<Rightarrow> ('v, 'm) Link" where
  "down_pose E P l =
     l\<lparr>motion := (motion l)\<lparr>
         lR := (case ljointType l of
                  ROTATIONAL_JOINT \<Rightarrow> mmul E (lR P) (rodrigues E (la (params l)) (lq (motion l)))
                | _ \<Rightarrow> lR P),
         lp := (case ljointType l of
                  ROTATIONAL_JOINT \<Rightarrow> vadd E (lp P) (down_arm E P l)
                | SLIDE_JOINT \<Rightarrow> vadd E (lp P) (down_arm E P l)
                | _ \<Rightarrow> vadd E (down_arm E P l) (lp P))\<rparr>\<rparr>"

definition down_velocity :: "('v, 'm) eigen \<Rightarrow> ('v, 'm) LinkMotion \<Rightarrow> 'v \<Rightarrow> ('v, 'm) Link \<Rightarrow> ('v, 'm) Link" where
  "down_velocity E P arm l =
     (case ljointType l of
        ROTATIONAL_JOINT \<Rightarrow>
          (let sw = mvec E (lR P) (la (params l))
           in l\<lparr>work := (work l)\<lparr>lsw := sw\<rparr>,
                motion := (motion l)\<lparr>lw := vadd E (lw P) (vscale E (ldq (motion l)) sw),
                                     lv := vadd E (lv P) (vcross E (lw P) arm)\<rparr>\<rparr>)
      | SLIDE_JOINT \<Rightarrow>
          (let sv = mvec E (lR P) (ld (params l))
           in l\<lparr>work := (work l)\<lparr>lsv := sv\<rparr>,
                motion := (motion l)\<lparr>lw := lw P, lv := vadd E (lv P) (vscale E (ldq (motion l)) sv)\<rparr>\<rparr>)
      | _ \<Rightarrow> l\<lparr>motion := (motion l)\<lparr>lw := lw P, lv := lv P\<rparr>\<rparr>)"

definition down_acceleration :: "('v, 'm) eigen \<Rightarrow> ('v, 'm) LinkMotion \<Rightarrow> 'v \<Rightarrow> ('v, 'm) Link \<Rightarrow> ('v, 'm) Link" where
  "down_acceleration E P arm l =
     (let turn = vadd E (vadd E (ldv P) (vcross E (lw P) (vcross E (lw P) arm))) (vcross E (ldw P) arm)
      in case ljointType l of
        ROTATIONAL_JOINT \<Rightarrow>
          l\<lparr>motion := (motion l)\<lparr>
              ldw := vadd E (vadd E (ldw P) (vscale E (ldq (motion l)) (vcross E (lw P) (lsw (work l)))))
                       (vscale E (lddq (motion l)) (lsw (work l))),
              ldv := turn\<rparr>\<rparr>
      | SLIDE_JOINT \<Rightarrow>
          l\<lparr>motion := (motion l)\<lparr>
              ldw := ldw P,
              ldv := vadd E (vadd E turn (vscale E (dmul (Fin 2) (ldq (motion l))) (vcross E (lw P) (lsv (work l)))))
                       (vscale E (lddq (motion l)) (lsv (work l)))\<rparr>\<rparr>
      | _ \<Rightarrow> l\<lparr>motion := (motion l)\<lparr>ldw := ldw P, ldv := ldv P\<rparr>\<rparr>)"

definition fk_down :: "('v, 'm) eigen \<Rightarrow> bool \<Rightarrow> bool \<Rightarrow> ('v, 'm) LinkMotion \<Rightarrow> ('v, 'm) Link \<Rightarrow> ('v, 'm) Link" where
  "fk_down E vel acc P l =
     (let arm = down_arm E P l; l1 = down_pose E P l
      in if vel then
           let l2 = down_velocity E P arm l1
           in if acc then down_acceleration E P arm l2 else l2
         else l1)"

section \<open>One step up\<close>

text \<open>
  The link from its child, whose joint lies between them. The axis in the world frame is stored in
  the child.
\<close>

definition up_pose :: "('v, 'm) eigen \<Rightarrow> ('v, 'm) Link \<Rightarrow> ('v, 'm) Link \<Rightarrow> ('v, 'm) Link" where
  "up_pose E c l =
     (let R = (case ljointType c of
                 ROTATIONAL_JOINT \<Rightarrow> mmul E (lR (motion c)) (transposed E (rodrigues E (la (params c)) (lq (motion c))))
               | _ \<Rightarrow> lR (motion c));
          arm = (case ljointType c of
                   SLIDE_JOINT \<Rightarrow> mvec E R (vadd E (lb (params c)) (vscale E (lq (motion c)) (ld (params c))))
                 | _ \<Rightarrow> mvec E R (lb (params c)))
      in l\<lparr>motion := (motion l)\<lparr>lR := R, lp := vsub E (lp (motion c)) arm\<rparr>\<rparr>)"

definition up_arm :: "('v, 'm) eigen \<Rightarrow> ('v, 'm) Link \<Rightarrow> ('v, 'm) Link \<Rightarrow> 'v" where
  "up_arm E c l =
     (case ljointType c of
        SLIDE_JOINT \<Rightarrow> mvec E (lR (motion l)) (vadd E (lb (params c)) (vscale E (lq (motion c)) (ld (params c))))
      | _ \<Rightarrow> mvec E (lR (motion l)) (lb (params c)))"

definition up_axis :: "('v, 'm) eigen \<Rightarrow> ('v, 'm) Link \<Rightarrow> ('v, 'm) Link \<Rightarrow> ('v, 'm) Link" where
  "up_axis E l c =
     (case ljointType c of
        ROTATIONAL_JOINT \<Rightarrow> c\<lparr>work := (work c)\<lparr>lsw := mvec E (lR (motion l)) (la (params c))\<rparr>\<rparr>
      | SLIDE_JOINT \<Rightarrow> c\<lparr>work := (work c)\<lparr>lsv := mvec E (lR (motion l)) (ld (params c))\<rparr>\<rparr>
      | _ \<Rightarrow> c)"

definition up_velocity :: "('v, 'm) eigen \<Rightarrow> 'v \<Rightarrow> ('v, 'm) Link \<Rightarrow> ('v, 'm) Link \<Rightarrow> ('v, 'm) Link" where
  "up_velocity E arm c l =
     (let C = motion c
      in case ljointType c of
        ROTATIONAL_JOINT \<Rightarrow>
          (let w = vsub E (lw C) (vscale E (ldq C) (lsw (work c)))
           in l\<lparr>motion := (motion l)\<lparr>lw := w, lv := vsub E (lv C) (vcross E w arm)\<rparr>\<rparr>)
      | SLIDE_JOINT \<Rightarrow>
          l\<lparr>motion := (motion l)\<lparr>lw := lw C, lv := vsub E (lv C) (vscale E (ldq C) (lsv (work c)))\<rparr>\<rparr>
      | _ \<Rightarrow> l\<lparr>motion := (motion l)\<lparr>lw := lw C, lv := lv C\<rparr>\<rparr>)"

definition up_acceleration :: "('v, 'm) eigen \<Rightarrow> 'v \<Rightarrow> ('v, 'm) Link \<Rightarrow> ('v, 'm) Link \<Rightarrow> ('v, 'm) Link" where
  "up_acceleration E arm c l =
     (let C = motion c;
          turn = vsub E (vsub E (ldv C) (vcross E (lw C) (vcross E (lw C) arm))) (vcross E (ldw C) arm)
      in case ljointType c of
        ROTATIONAL_JOINT \<Rightarrow>
          l\<lparr>motion := (motion l)\<lparr>
              ldw := vsub E (vsub E (ldw C) (vscale E (ldq C) (vcross E (lw C) (lsw (work c)))))
                       (vscale E (lddq C) (lsw (work c))),
              ldv := turn\<rparr>\<rparr>
      | SLIDE_JOINT \<Rightarrow>
          l\<lparr>motion := (motion l)\<lparr>
              ldw := ldw C,
              ldv := vsub E (vsub E turn (vscale E (dmul (Fin 2) (ldq C)) (vcross E (lw C) (lsv (work c)))))
                       (vscale E (lddq C) (lsv (work c)))\<rparr>\<rparr>
      | _ \<Rightarrow> l\<lparr>motion := (motion l)\<lparr>ldw := ldw C, ldv := ldv C\<rparr>\<rparr>)"

text \<open>The link and the child after the step.\<close>

definition fk_up :: "('v, 'm) eigen \<Rightarrow> bool \<Rightarrow> bool \<Rightarrow> ('v, 'm) Link \<Rightarrow> ('v, 'm) Link \<Rightarrow> ('v, 'm) Link \<times> ('v, 'm) Link" where
  "fk_up E vel acc c l =
     (let l1 = up_pose E c l; arm = up_arm E c l1
      in if vel then
           let c1 = up_axis E l1 c; l2 = up_velocity E arm c1 l1
           in (if acc then up_acceleration E arm c1 l2 else l2, c1)
         else (l1, c))"

section \<open>The two loops\<close>

text \<open>The first loop: \<open>c\<close> is the link before, \<open>as\<close> the links still to be computed upwards.\<close>

fun fk_up_loop :: "('v, 'm) eigen \<Rightarrow> bool \<Rightarrow> bool \<Rightarrow> ('v, 'm) link_heap \<Rightarrow> nat \<Rightarrow> nat list \<Rightarrow> ('v, 'm) link_heap option" where
  "fk_up_loop E vel acc h c [] = Some h"
| "fk_up_loop E vel acc h c (a # as) =
     do { n \<leftarrow> h c; l \<leftarrow> h a;
          case fk_up E vel acc n l of
            (l', n') \<Rightarrow> fk_up_loop E vel acc (h(a \<mapsto> l', c \<mapsto> n')) a as }"

fun fk_down_loop :: "('v, 'm) eigen \<Rightarrow> bool \<Rightarrow> bool \<Rightarrow> ('v, 'm) link_heap \<Rightarrow> nat list \<Rightarrow> ('v, 'm) link_heap option" where
  "fk_down_loop E vel acc h [] = Some h"
| "fk_down_loop E vel acc h (a # as) =
     do { l \<leftarrow> h a; p \<leftarrow> lparent l; P \<leftarrow> h p;
          fk_down_loop E vel acc (h(a \<mapsto> fk_down E vel acc (motion P) l)) as }"

text \<open>An upward step past the end of the vector is undefined.\<close>

definition calcForwardKinematics :: "('v, 'm) eigen \<Rightarrow> bool \<Rightarrow> bool \<Rightarrow> ('v, 'm) link_heap \<Rightarrow> LinkTraverse \<Rightarrow> ('v, 'm) link_heap option" where
  "calcForwardKinematics E vel acc h tr =
     (let ls = links tr; k = nat (numUpwardConnections tr)
      in if 0 < k \<and> length ls \<le> k then None
         else case ls of
             [] \<Rightarrow> Some h
           | c # as \<Rightarrow> do { h1 \<leftarrow> fk_up_loop E vel acc h c (take k as); fk_down_loop E vel acc h1 (drop k as) })"

section \<open>Sums over a subtree\<close>

text \<open>
  \<open>calcSubMassCM\<close>, with the loop over the siblings from \<open>c\<close> on: the sums of link \<open>this\<close> grow by
  the sums of every child.
\<close>

partial_function (option) add_children ::
  "('v, 'm) eigen \<Rightarrow> ('v, 'm) link_heap \<Rightarrow> nat \<Rightarrow> nat option \<Rightarrow> ('v, 'm) link_heap option" where
  "add_children E h this c =
     (case c of
        None \<Rightarrow> Some h
      | Some a \<Rightarrow>
          do { n \<leftarrow> h a;
               h1 \<leftarrow> add_children E (h(a \<mapsto> n\<lparr>work := (work n)\<lparr>lsubm := lm (params n),
                                     lsubmwc := vscale E (lm (params n)) (lwc (work n))\<rparr>\<rparr>)) a (lchild n);
               n1 \<leftarrow> h1 a;
               t \<leftarrow> h1 this;
               add_children E (h1(this \<mapsto> t\<lparr>work := (work t)\<lparr>lsubm := dadd (lsubm (work t)) (lsubm (work n1)),
                                  lsubmwc := vadd E (lsubmwc (work t)) (lsubmwc (work n1))\<rparr>\<rparr>)) this (lsibling n1) })"

declare add_children.simps [code]

definition calcSubMassCM :: "('v, 'm) eigen \<Rightarrow> ('v, 'm) link_heap \<Rightarrow> nat \<Rightarrow> ('v, 'm) link_heap option" where
  "calcSubMassCM E h a =
     do { n \<leftarrow> h a;
          add_children E (h(a \<mapsto> n\<lparr>work := (work n)\<lparr>lsubm := lm (params n),
                                lsubmwc := vscale E (lm (params n)) (lwc (work n))\<rparr>\<rparr>)) a (lchild n) }"

section \<open>What a step leaves alone\<close>

lemma fk_down_keeps [simp]:
  "lparent (fk_down E vel acc P l) = lparent l" "lsibling (fk_down E vel acc P l) = lsibling l"
  "lchild (fk_down E vel acc P l) = lchild l"
  by (simp_all add: fk_down_def down_pose_def down_velocity_def down_acceleration_def Let_def split: JointType.split)

lemma up_pose_keeps [simp]:
  "lparent (up_pose E c l) = lparent l"
  "lsibling (up_pose E c l) = lsibling l"
  "lchild (up_pose E c l) = lchild l"
  "params (up_pose E c l) = params l"
  "ljointType (up_pose E c l) = ljointType l"
  by (simp_all add: up_pose_def Let_def)

lemma up_axis_keeps [simp]:
  "lparent (up_axis E l c) = lparent c"
  "lsibling (up_axis E l c) = lsibling c"
  "lchild (up_axis E l c) = lchild c"
  "params (up_axis E l c) = params c"
  "ljointType (up_axis E l c) = ljointType c"
  "motion (up_axis E l c) = motion c"
  by (simp_all add: up_axis_def split: JointType.split)

lemma up_velocity_keeps [simp]:
  "lparent (up_velocity E arm c l) = lparent l"
  "lsibling (up_velocity E arm c l) = lsibling l"
  "lchild (up_velocity E arm c l) = lchild l"
  "params (up_velocity E arm c l) = params l"
  "ljointType (up_velocity E arm c l) = ljointType l"
  by (simp_all add: up_velocity_def Let_def split: JointType.split)

lemma up_acceleration_keeps [simp]:
  "lparent (up_acceleration E arm c l) = lparent l"
  "lsibling (up_acceleration E arm c l) = lsibling l"
  "lchild (up_acceleration E arm c l) = lchild l"
  "params (up_acceleration E arm c l) = params l"
  "ljointType (up_acceleration E arm c l) = ljointType l"
  by (simp_all add: up_acceleration_def Let_def split: JointType.split)

lemma fk_up_keeps [simp]:
  "lparent (fst (fk_up E vel acc c l)) = lparent l"
  "lsibling (fst (fk_up E vel acc c l)) = lsibling l"
  "lchild (fst (fk_up E vel acc c l)) = lchild l"
  "params (fst (fk_up E vel acc c l)) = params l"
  "ljointType (fst (fk_up E vel acc c l)) = ljointType l"
  "lparent (snd (fk_up E vel acc c l)) = lparent c"
  "lsibling (snd (fk_up E vel acc c l)) = lsibling c"
  "lchild (snd (fk_up E vel acc c l)) = lchild c"
  "params (snd (fk_up E vel acc c l)) = params c"
  "ljointType (snd (fk_up E vel acc c l)) = ljointType c"
  "motion (snd (fk_up E vel acc c l)) = motion c"
  by (simp_all add: fk_up_def Let_def)

text \<open>A step up depends on the pose, the parameters and the type of the child only.\<close>

lemma fk_up_cong:
  assumes "motion c' = motion c" and "params c' = params c" and "ljointType c' = ljointType c"
  shows "fst (fk_up E vel acc c' l) = fst (fk_up E vel acc c l)"
proof -
  have "up_pose E c' l = up_pose E c l" "up_arm E c' = up_arm E c"
    using assms by (cases "ljointType c", simp_all add: up_pose_def up_arm_def fun_eq_iff)+
  moreover have "up_velocity E arm (up_axis E k c') m = up_velocity E arm (up_axis E k c) m" for arm k m
    using assms by (cases "ljointType c") (simp_all add: up_velocity_def up_axis_def Let_def)
  moreover have "up_acceleration E arm (up_axis E k c') m = up_acceleration E arm (up_axis E k c) m" for arm k m
    using assms by (cases "ljointType c") (simp_all add: up_acceleration_def up_axis_def Let_def)
  ultimately show ?thesis by (simp add: fk_up_def Let_def)
qed

lemma par_skel: "skel h a = skel h' a \<Longrightarrow> par h a = par h' a"
  by (cases "h a"; cases "h' a") (auto simp: skel_def par_def)

lemma dom_skel:
  assumes "\<forall>a. skel h a = skel h' a"
  shows "dom h = dom h'"
proof -
  have "h a = None \<longleftrightarrow> h' a = None" for a
    using assms [rule_format, of a] by (cases "h a"; cases "h' a") (auto simp: skel_def)
  then show ?thesis by (simp add: dom_def)
qed

lemma fed_cong: "\<forall>a. skel h a = skel h' a \<Longrightarrow> fed h S as = fed h' S as"
  using par_skel [of h _ h'] by (induction as arbitrary: S) auto

lemma fk_down_loop_spec:
  "fed h S as \<Longrightarrow> distinct as \<Longrightarrow> S \<inter> set as = {} \<Longrightarrow> S \<union> set as \<subseteq> dom h \<Longrightarrow>
     \<exists>h'. fk_down_loop E vel acc h as = Some h' \<and> (\<forall>a. a \<notin> set as \<longrightarrow> h' a = h a) \<and> (\<forall>a. skel h' a = skel h a) \<and>
       (\<forall>a \<in> set as. \<exists>l p P. h a = Some l \<and> lparent l = Some p \<and> h' p = Some P \<and>
          h' a = Some (fk_down E vel acc (motion P) l))"
proof (induction as arbitrary: h S)
  case (Cons a as)
  obtain l where l: "h a = Some l" using Cons.prems(4) by auto
  then obtain p where p: "lparent l = Some p" "p \<in> S" using Cons.prems(1) by auto
  then obtain P where P: "h p = Some P" using Cons.prems(4) by auto
  let ?h = "h(a \<mapsto> fk_down E vel acc (motion P) l)"
  have sk: "\<forall>b. skel ?h b = skel h b" using l by (simp add: skel_def)
  then have fed: "fed ?h (insert a S) as" using Cons.prems(1) fed_cong [of ?h h] by simp
  have rest: "distinct as" "insert a S \<inter> set as = {}" "insert a S \<union> set as \<subseteq> dom ?h" using Cons.prems(2-4) by auto
  obtain h' where h': "fk_down_loop E vel acc ?h as = Some h'" "\<forall>b. b \<notin> set as \<longrightarrow> h' b = ?h b"
      "\<forall>b. skel h' b = skel ?h b"
      "\<forall>b \<in> set as. \<exists>l p P. ?h b = Some l \<and> lparent l = Some p \<and> h' p = Some P \<and> h' b = Some (fk_down E vel acc (motion P) l)"
    using Cons.IH [OF fed rest] by blast
  have "h' a = Some (fk_down E vel acc (motion P) l)" using h'(2) Cons.prems(2) by simp
  moreover have "p \<noteq> a" "p \<notin> set as" using p(2) Cons.prems(3) by auto
  then have "h' p = Some P" using h'(2) P by simp
  moreover have "\<forall>b \<in> set as. ?h b = h b" using Cons.prems(2) by auto
  ultimately show ?case using h' sk l p P by (intro exI [of _ h']) auto
qed simp

lemma fk_up_loop_spec:
  "distinct (c # as) \<Longrightarrow> set (c # as) \<subseteq> dom h \<Longrightarrow>
     \<exists>h'. fk_up_loop E vel acc h c as = Some h' \<and> (\<forall>a. a \<notin> set (c # as) \<longrightarrow> h' a = h a) \<and> (\<forall>a. skel h' a = skel h a) \<and>
       (\<exists>n n'. h c = Some n \<and> h' c = Some n' \<and> motion n' = motion n \<and> params n' = params n \<and> ljointType n' = ljointType n) \<and>
       (\<forall>i < length as. \<exists>C l l'. h' ((c # as) ! i) = Some C \<and> h (as ! i) = Some l \<and> h' (as ! i) = Some l' \<and>
          motion l' = motion (fst (fk_up E vel acc C l)))"
proof (induction as arbitrary: c h)
  case Nil
  then show ?case by auto
next
  case (Cons a as)
  obtain n l where nl: "h c = Some n" "h a = Some l" using Cons.prems(2) by auto
  obtain l' n' where step: "fk_up E vel acc n l = (l', n')" by fastforce
  then have l': "lparent l' = lparent l" "lsibling l' = lsibling l" "lchild l' = lchild l"
      and n': "lparent n' = lparent n" "lsibling n' = lsibling n" "lchild n' = lchild n" "motion n' = motion n"
        "params n' = params n" "ljointType n' = ljointType n"
    using fk_up_keeps [of E vel acc n l] by simp_all
  let ?h = "h(a \<mapsto> l', c \<mapsto> n')"
  have sk: "\<forall>b. skel ?h b = skel h b" using nl l' n' by (simp add: skel_def)
  have "distinct (a # as)" "set (a # as) \<subseteq> dom ?h" using Cons.prems by auto
  then obtain h' where h': "fk_up_loop E vel acc ?h a as = Some h'" "\<forall>b. b \<notin> set (a # as) \<longrightarrow> h' b = ?h b"
      "\<forall>b. skel h' b = skel ?h b"
      "\<exists>m m'. ?h a = Some m \<and> h' a = Some m' \<and> motion m' = motion m \<and> params m' = params m \<and> ljointType m' = ljointType m"
      "\<forall>i < length as. \<exists>C l l'. h' ((a # as) ! i) = Some C \<and> ?h (as ! i) = Some l \<and> h' (as ! i) = Some l' \<and>
         motion l' = motion (fst (fk_up E vel acc C l))"
    using Cons.IH [of a ?h] by blast
  have c: "h' c = Some n'" using h'(2) Cons.prems(1) by simp
  have fst: "fst (fk_up E vel acc n' l) = l'"
    using fk_up_cong [of n' n E vel acc l] n'(4-6) step by simp
  have "\<exists>C l l'. h' ((c # a # as) ! i) = Some C \<and> h ((a # as) ! i) = Some l \<and> h' ((a # as) ! i) = Some l' \<and>
         motion l' = motion (fst (fk_up E vel acc C l))" if "i < length (a # as)" for i
  proof (cases i)
    case 0
    then show ?thesis using c nl(2) h'(4) fst Cons.prems(1) by auto
  next
    case (Suc j)
    then have "as ! j \<noteq> a" "as ! j \<noteq> c" using that Cons.prems(1) nth_mem [of j as] by auto
    then show ?thesis using h'(5) [rule_format, of j] Suc that by simp
  qed
  moreover have "fk_up_loop E vel acc h c (a # as) = Some h'" using nl step h'(1) by simp
  moreover have "\<forall>b. b \<notin> set (c # a # as) \<longrightarrow> h' b = h b" using h'(2) by simp
  moreover have "\<forall>b. skel h' b = skel h b" using h'(3) sk by simp
  ultimately show ?case using nl(1) c n'(4-6) by (intro exI [of _ h']) simp
qed

section \<open>The links of a walk\<close>

text \<open>\<open>l'\<close> is link \<open>a\<close> after it has been computed from a neighbour with its values in \<open>h'\<close>.\<close>

definition fk_from_parent :: "('v, 'm) eigen \<Rightarrow> bool \<Rightarrow> bool \<Rightarrow> ('v, 'm) link_heap \<Rightarrow> ('v, 'm) link_heap \<Rightarrow> nat \<Rightarrow> bool" where
  "fk_from_parent E vel acc h h' a \<longleftrightarrow>
     (\<exists>l p P. h a = Some l \<and> lparent l = Some p \<and> h' p = Some P \<and>
        map_option motion (h' a) = Some (motion (fk_down E vel acc (motion P) l)))"

definition fk_from_child :: "('v, 'm) eigen \<Rightarrow> bool \<Rightarrow> bool \<Rightarrow> ('v, 'm) link_heap \<Rightarrow> ('v, 'm) link_heap \<Rightarrow> nat \<Rightarrow> bool" where
  "fk_from_child E vel acc h h' a \<longleftrightarrow>
     (\<exists>l c C. h a = Some l \<and> par h c = Some a \<and> h' c = Some C \<and>
        map_option motion (h' a) = Some (motion (fst (fk_up E vel acc C l))))"

lemma calcForwardKinematics_walk:
  assumes "walk_ok h k ls" and "set ls \<subseteq> dom h"
  shows "\<exists>h'. calcForwardKinematics E vel acc h \<lparr>links = ls, numUpwardConnections = int k\<rparr> = Some h' \<and>
    (\<forall>a. a \<notin> set ls \<longrightarrow> h' a = h a) \<and> (\<forall>a. skel h' a = skel h a) \<and>
    map_option motion (h' (hd ls)) = map_option motion (h (hd ls)) \<and>
    (\<forall>a \<in> set (take k (tl ls)). fk_from_child E vel acc h h' a) \<and>
    (\<forall>a \<in> set (drop (Suc k) ls). fk_from_parent E vel acc h h' a)"
proof -
  obtain c as where ls: "ls = c # as" using assms(1) by (cases ls) (auto simp: walk_ok_def)
  let ?us = "take k as" and ?ds = "drop k as"
  have w: "distinct ls" "k \<le> length as" "\<forall>i < k. par h (ls ! i) = Some (ls ! (i + 1))" "fed h (set (c # ?us)) ?ds"
    using assms(1) ls by (auto simp: walk_ok_def)
  have d1: "distinct (c # ?us)" "set (c # ?us) \<subseteq> dom h" "distinct ?ds" "set (c # ?us) \<inter> set ?ds = {}"
    using w(1) ls assms(2) set_take_subset [of k as] set_take_disj_set_drop_if_distinct [of as k k] in_set_dropD [of c k as]
    by auto
  obtain h1 where h1: "fk_up_loop E vel acc h c ?us = Some h1" "\<forall>a. a \<notin> set (c # ?us) \<longrightarrow> h1 a = h a"
      "\<forall>a. skel h1 a = skel h a" "\<exists>n n'. h c = Some n \<and> h1 c = Some n' \<and> motion n' = motion n"
      "\<forall>i < length ?us. \<exists>C l l'. h1 ((c # ?us) ! i) = Some C \<and> h (?us ! i) = Some l \<and> h1 (?us ! i) = Some l' \<and>
          motion l' = motion (fst (fk_up E vel acc C l))"
    using fk_up_loop_spec [OF d1(1,2)] by blast
  have fed1: "fed h1 (set (c # ?us)) ?ds" using w(4) fed_cong [of h1 h] h1(3) by blast
  have "set (c # ?us) \<union> set ?ds = set ls" unfolding ls by (metis append_take_drop_id set_append list.simps(15) Un_insert_left)
  then have dom1: "set (c # ?us) \<union> set ?ds \<subseteq> dom h1" using assms(2) dom_skel [OF h1(3)] by simp
  obtain h' where h': "fk_down_loop E vel acc h1 ?ds = Some h'" "\<forall>a. a \<notin> set ?ds \<longrightarrow> h' a = h1 a" "\<forall>a. skel h' a = skel h1 a"
      "\<forall>a \<in> set ?ds. \<exists>l p P. h1 a = Some l \<and> lparent l = Some p \<and> h' p = Some P \<and> h' a = Some (fk_down E vel acc (motion P) l)"
    using fk_down_loop_spec [OF fed1 d1(3,4) dom1] by blast
  have stay: "h' a = h1 a" if "a \<in> set (c # ?us)" for a using h'(2) d1(4) that by blast
  have "fk_from_child E vel acc h h' (?us ! i)" if i: "i < length ?us" for i
  proof -
    obtain C l l' where C: "h1 ((c # ?us) ! i) = Some C" "h (?us ! i) = Some l" "h1 (?us ! i) = Some l'"
        "motion l' = motion (fst (fk_up E vel acc C l))" using h1(5) i by blast
    have "(c # ?us) ! i \<in> set (c # ?us)" "?us ! i \<in> set (c # ?us)"
      using i nth_mem [of i "c # ?us"] nth_mem [of i ?us] by auto
    then have "h' ((c # ?us) ! i) = Some C" "h' (?us ! i) = Some l'" using stay C(1,3) by simp_all
    moreover have "par h ((c # ?us) ! i) = Some (?us ! i)"
    proof -
      have "(c # ?us) ! i = ls ! i" using i by (cases i) (simp_all add: ls)
      then show ?thesis using w(3) i by (simp add: ls)
    qed
    ultimately show ?thesis using C(2,4) unfolding fk_from_child_def by auto
  qed
  then have up: "\<forall>a \<in> set ?us. fk_from_child E vel acc h h' a" by (metis in_set_conv_nth)
  have "fk_from_parent E vel acc h h' a" if a: "a \<in> set ?ds" for a
  proof -
    have "h1 a = h a" using h1(2) d1(4) a by blast
    moreover obtain l p P where "h1 a = Some l" "lparent l = Some p" "h' p = Some P"
        "h' a = Some (fk_down E vel acc (motion P) l)" using h'(4) a by blast
    ultimately show ?thesis unfolding fk_from_parent_def
      by (intro exI [of _ l] exI [of _ p] exI [of _ P]) simp
  qed
  moreover have "map_option motion (h' c) = map_option motion (h c)" using h1(4) stay [of c] by auto
  moreover have "\<forall>a. a \<notin> set ls \<longrightarrow> h' a = h a" using h1(2) h'(2) unfolding ls by (metis in_set_takeD in_set_dropD set_ConsD list.set_intros)
  moreover have "calcForwardKinematics E vel acc h \<lparr>links = ls, numUpwardConnections = int k\<rparr> = Some h'"
    using h1(1) h'(1) w(2) ls by (simp add: calcForwardKinematics_def)
  ultimately show ?thesis using up h'(3) h1(3) ls by (intro exI [of _ h']) simp
qed

text \<open>
  C29: The forward kinematics over a whole tree from any link: it returns, the pose of the link it
  starts from, the links outside and all pointers stay, and every other link ends with the values
  one step of the code gives from the final values of its parent or, on the way up, of its child.
\<close>

theorem calcForwardKinematics_consistent:
  assumes "tree_at h None T" and "distinct (addrs T)" and "base \<in> set (addrs T)"
  shows "\<exists>tr h'. LinkTraverse_find h base True True = Some tr \<and> calcForwardKinematics E vel acc h tr = Some h' \<and>
    tree_at h' None T \<and> map_option motion (h' base) = map_option motion (h base) \<and>
    (\<forall>a. a \<notin> set (addrs T) \<longrightarrow> h' a = h a) \<and>
    (\<forall>a \<in> set (addrs T) - {base}. fk_from_child E vel acc h h' a \<or> fk_from_parent E vel acc h h' a)"
proof -
  obtain ls k where tr: "LinkTraverse_find h base True True = Some \<lparr>links = ls, numUpwardConnections = int k\<rparr>"
      "mset ls = mset (addrs T)" "hd ls = base" "walk_ok h k ls"
    using LinkTraverse_find_up [OF assms] by blast
  have ls: "set ls = set (addrs T)" using mset_eq_setD [OF tr(2)] .
  then have "set ls \<subseteq> dom h" using tree_at_dom [OF assms(1)] by simp
  then obtain h' where h': "calcForwardKinematics E vel acc h \<lparr>links = ls, numUpwardConnections = int k\<rparr> = Some h'"
      "\<forall>a. a \<notin> set ls \<longrightarrow> h' a = h a" "\<forall>a. skel h' a = skel h a" "map_option motion (h' base) = map_option motion (h base)"
      "\<forall>a \<in> set (take k (tl ls)). fk_from_child E vel acc h h' a"
      "\<forall>a \<in> set (drop (Suc k) ls). fk_from_parent E vel acc h h' a"
    using calcForwardKinematics_walk [OF tr(4)] tr(3) by blast
  have "set ls - {base} \<subseteq> set (take k (tl ls)) \<union> set (drop (Suc k) ls)"
  proof (cases ls)
    case (Cons c as)
    then have "set as = set (take k as) \<union> set (drop k as)" by (metis append_take_drop_id set_append)
    then show ?thesis using Cons tr(3) by auto
  qed simp
  moreover have "tree_at h' None T" by (rule tree_at_cong [OF _ assms(1)]) (simp add: h'(3))
  ultimately show ?thesis using tr(1) h' ls by (intro exI conjI) auto
qed

section \<open>Sums over a subtree\<close>

definition own_sums :: "('v, 'm) eigen \<Rightarrow> ('v, 'm) link_heap \<Rightarrow> nat \<Rightarrow> double \<times> 'v" where
  "own_sums E h a = (case h a of Some n \<Rightarrow> (lm (params n), vscale E (lm (params n)) (lwc (work n))))"

definition stored_sums :: "('v, 'm) link_heap \<Rightarrow> nat \<Rightarrow> double \<times> 'v" where
  "stored_sums h a = (case h a of Some n \<Rightarrow> (lsubm (work n), lsubmwc (work n)))"

fun sums_f :: "('v, 'm) eigen \<Rightarrow> ('v, 'm) link_heap \<Rightarrow> double \<times> 'v \<Rightarrow> ltree list \<Rightarrow> double \<times> 'v" where
  "sums_f E h acc [] = acc"
| "sums_f E h acc (LTree a us # ts) =
     (let sub = sums_f E h (own_sums E h a) us
      in sums_f E h (dadd (fst acc) (fst sub), vadd E (snd acc) (snd sub)) ts)"

text \<open>Nothing but the two sums differs.\<close>

definition sums_only :: "('v, 'm) link_heap \<Rightarrow> ('v, 'm) link_heap \<Rightarrow> bool" where
  "sums_only h h' \<longleftrightarrow>
     (\<forall>a. (h a = None \<and> h' a = None) \<or>
        (\<exists>n s v. h a = Some n \<and> h' a = Some (n\<lparr>work := (work n)\<lparr>lsubm := s, lsubmwc := v\<rparr>\<rparr>)))"

lemma sums_only_cases:
  "sums_only h h' \<Longrightarrow> (h a = None \<and> h' a = None) \<or>
     (\<exists>n s v. h a = Some n \<and> h' a = Some (n\<lparr>work := (work n)\<lparr>lsubm := s, lsubmwc := v\<rparr>\<rparr>))"
  unfolding sums_only_def by blast

lemma sums_onlyD: "sums_only h h' \<Longrightarrow> h a = Some n \<Longrightarrow> \<exists>s v. h' a = Some (n\<lparr>work := (work n)\<lparr>lsubm := s, lsubmwc := v\<rparr>\<rparr>)"
  unfolding sums_only_def by (metis option.distinct(1) option.inject)

lemma sums_only_refl: "sums_only h h"
  unfolding sums_only_def
proof
  fix a
  show "(h a = None \<and> h a = None) \<or> (\<exists>n s v. h a = Some n \<and> h a = Some (n\<lparr>work := (work n)\<lparr>lsubm := s, lsubmwc := v\<rparr>\<rparr>))"
  proof (cases "h a")
    case (Some n)
    then show ?thesis by (intro disjI2 exI [of _ n] exI [of _ "lsubm (work n)"] exI [of _ "lsubmwc (work n)"]) simp
  qed simp
qed

lemma sums_only_trans: "sums_only h h1 \<Longrightarrow> sums_only h1 h2 \<Longrightarrow> sums_only h h2"
proof -
  assume h: "sums_only h h1" "sums_only h1 h2"
  have "(h a = None \<and> h2 a = None) \<or> (\<exists>n s v. h a = Some n \<and> h2 a = Some (n\<lparr>work := (work n)\<lparr>lsubm := s, lsubmwc := v\<rparr>\<rparr>))" for a
  proof (cases "h a")
    case None
    then show ?thesis using h unfolding sums_only_def by (metis option.distinct(1))
  next
    case (Some n)
    then obtain s v where "h1 a = Some (n\<lparr>work := (work n)\<lparr>lsubm := s, lsubmwc := v\<rparr>\<rparr>)" using sums_onlyD [OF h(1)] by blast
    then show ?thesis using sums_onlyD [OF h(2)] Some by fastforce
  qed
  then show ?thesis unfolding sums_only_def by blast
qed

lemma sums_only_upd: "h a = Some n \<Longrightarrow> sums_only h (h(a \<mapsto> n\<lparr>work := (work n)\<lparr>lsubm := s, lsubmwc := v\<rparr>\<rparr>))"
proof -
  assume a: "h a = Some n"
  have "(h b = None \<and> (h(a \<mapsto> n\<lparr>work := (work n)\<lparr>lsubm := s, lsubmwc := v\<rparr>\<rparr>)) b = None) \<or>
      (\<exists>m s' v'. h b = Some m \<and> (h(a \<mapsto> n\<lparr>work := (work n)\<lparr>lsubm := s, lsubmwc := v\<rparr>\<rparr>)) b =
        Some (m\<lparr>work := (work m)\<lparr>lsubm := s', lsubmwc := v'\<rparr>\<rparr>))" for b
    using a sums_only_cases [OF sums_only_refl, of h b]
    by (cases "b = a") (simp_all only: fun_upd_same fun_upd_other not_False_eq_True, blast+)
  then show ?thesis unfolding sums_only_def by blast
qed

lemma sums_only_skel: "sums_only h h' \<Longrightarrow> skel h' a = skel h a"
  using sums_only_cases [of h h' a] by (auto simp: skel_def)

lemma own_sums_only: "sums_only h h' \<Longrightarrow> own_sums E h' a = own_sums E h a"
  using sums_only_cases [of h h' a] by (auto simp: own_sums_def)

lemma sums_f_only: "sums_only h h' \<Longrightarrow> sums_f E h' acc ts = sums_f E h acc ts"
  by (induction E h acc ts rule: sums_f.induct) (simp_all add: own_sums_only)

lemma add_children_spec:
  "forest_seg h this c ts None \<Longrightarrow> distinct (this # faddrs ts) \<Longrightarrow> h this = Some t \<Longrightarrow>
     \<exists>h'. add_children E h this c = Some h' \<and> sums_only h h' \<and> (\<forall>a. a \<notin> set (this # faddrs ts) \<longrightarrow> h' a = h a) \<and>
       stored_sums h' this = sums_f E h (stored_sums h this) ts \<and>
       (\<forall>a s. find_f a ts = Some s \<longrightarrow> stored_sums h' a = sums_f E h (own_sums E h a) (lkids s))"
proof (induction ts arbitrary: h this c t rule: faddrs.induct)
  case 1
  then show ?case by (subst add_children.simps) (simp add: sums_only_refl)
next
  case (2 a us ts)
  obtain n where n: "c = Some a" "h a = Some n" "forest_seg h a (lchild n) us None" "forest_seg h this (lsibling n) ts None"
    using "2.prems"(1) by auto
  let ?n = "n\<lparr>work := (work n)\<lparr>lsubm := lm (params n), lsubmwc := vscale E (lm (params n)) (lwc (work n))\<rparr>\<rparr>"
  let ?h = "h(a \<mapsto> ?n)"
  have o1: "sums_only h ?h" using n(2) by (rule sums_only_upd)
  have s1: "forest_seg ?h a (lchild n) us None" by (rule forest_seg_cong [OF _ n(3)]) (simp add: sums_only_skel [OF o1])
  have d1: "distinct (a # faddrs us)" "?h a = Some ?n" using "2.prems"(2) by auto
  obtain h1 where h1: "add_children E ?h a (lchild n) = Some h1" "sums_only ?h h1" "\<forall>b. b \<notin> set (a # faddrs us) \<longrightarrow> h1 b = ?h b"
      "stored_sums h1 a = sums_f E ?h (stored_sums ?h a) us"
      "\<forall>b s. find_f b us = Some s \<longrightarrow> stored_sums h1 b = sums_f E ?h (own_sums E ?h b) (lkids s)"
    using "2.IH"(1) [OF s1 d1] by blast
  obtain s1 v1 where n1: "h1 a = Some (?n\<lparr>work := (work ?n)\<lparr>lsubm := s1, lsubmwc := v1\<rparr>\<rparr>)"
    using sums_onlyD [OF h1(2) d1(2)] by blast
  have sub: "(s1, v1) = sums_f E h (own_sums E h a) us"
    using h1(4) n1 n(2) sums_f_only [OF o1] by (simp add: stored_sums_def own_sums_def)
  have t1: "h1 this = Some t" using h1(3) "2.prems"(2,3) by auto
  let ?t = "t\<lparr>work := (work t)\<lparr>lsubm := dadd (lsubm (work t)) s1, lsubmwc := vadd E (lsubmwc (work t)) v1\<rparr>\<rparr>"
  let ?h2 = "h1(this \<mapsto> ?t)"
  have "sums_only h1 ?h2" using t1 by (rule sums_only_upd)
  then have o2: "sums_only h ?h2" using sums_only_trans [OF o1 sums_only_trans [OF h1(2)]] by blast
  have s2: "forest_seg ?h2 this (lsibling n) ts None" by (rule forest_seg_cong [OF _ n(4)]) (simp add: sums_only_skel [OF o2])
  have d2: "distinct (this # faddrs ts)" "?h2 this = Some ?t" using "2.prems"(2) by auto
  obtain h' where h': "add_children E ?h2 this (lsibling n) = Some h'" "sums_only ?h2 h'"
      "\<forall>b. b \<notin> set (this # faddrs ts) \<longrightarrow> h' b = ?h2 b"
      "stored_sums h' this = sums_f E ?h2 (stored_sums ?h2 this) ts"
      "\<forall>b s. find_f b ts = Some s \<longrightarrow> stored_sums h' b = sums_f E ?h2 (own_sums E ?h2 b) (lkids s)"
    using "2.IH"(2) [OF s2 d2] by blast
  have "add_children E h this c = Some h'"
    using n(1,2) h1(1) n1 t1 h'(1) by (subst add_children.simps) simp
  moreover have "sums_only h h'" by (rule sums_only_trans [OF o2 h'(2)])
  moreover have "\<forall>b. b \<notin> set (this # faddrs (LTree a us # ts)) \<longrightarrow> h' b = h b" using h'(3) h1(3) by simp
  moreover have "stored_sums h' this = sums_f E h (stored_sums h this) (LTree a us # ts)"
    using h'(4) sums_f_only [OF o2] sub "2.prems"(3) by (simp add: stored_sums_def Let_def sub [symmetric])
  moreover have "stored_sums h' b = sums_f E h (own_sums E h b) (lkids s)" if b: "find_f b (LTree a us # ts) = Some s" for b s
  proof -
    consider "a = b" "s = LTree a us" | "a \<noteq> b" "find_f b us = Some s" | "find_f b ts = Some s"
      using b by (auto split: if_splits option.splits)
    then show ?thesis
    proof cases
      case 1
      then have "h' a = h1 a" using h'(3) "2.prems"(2) by auto
      then show ?thesis using 1 n1 sub by (simp add: stored_sums_def)
    next
      case 2
      have "b \<in> set (faddrs us)" using find_f_Some [OF 2(2)] lroot_in_addrs [of s] by blast
      then have "h' b = h1 b" using h'(3) "2.prems"(2) by auto
      then show ?thesis using h1(5) 2(2) sums_f_only [OF o1] own_sums_only [OF o1] by (simp add: stored_sums_def)
    next
      case 3
      then show ?thesis using h'(5) sums_f_only [OF o2] own_sums_only [OF o2] by simp
    qed
  qed
  ultimately show ?case by blast
qed

text \<open>
  C33: After \<open>calcSubMassCM\<close> on a tree every link of it holds the mass and the moment of its
  subtree, summed child by child in their order, and nothing else has changed.
\<close>

theorem calcSubMassCM_sums:
  assumes "tree_at h r T" and "distinct (addrs T)"
  shows "\<exists>h'. calcSubMassCM E h (lroot T) = Some h' \<and> sums_only h h' \<and> (\<forall>a. a \<notin> set (addrs T) \<longrightarrow> h' a = h a) \<and>
    (\<forall>a s. find_f a [T] = Some s \<longrightarrow> stored_sums h' a = sums_f E h (own_sums E h a) (lkids s))"
proof -
  let ?a = "lroot T"
  obtain n where n: "h ?a = Some n" "forest_seg h ?a (lchild n) (lkids T) None" using assms(1) by (auto simp: tree_at_def)
  let ?n = "n\<lparr>work := (work n)\<lparr>lsubm := lm (params n), lsubmwc := vscale E (lm (params n)) (lwc (work n))\<rparr>\<rparr>"
  let ?h = "h(?a \<mapsto> ?n)"
  have o1: "sums_only h ?h" using n(1) by (rule sums_only_upd)
  have s1: "forest_seg ?h ?a (lchild n) (lkids T) None" by (rule forest_seg_cong [OF _ n(2)]) (simp add: sums_only_skel [OF o1])
  have d1: "distinct (?a # faddrs (lkids T))" "?h ?a = Some ?n" using assms(2) by (simp_all add: addrs_eq)
  obtain h' where h': "add_children E ?h ?a (lchild n) = Some h'" "sums_only ?h h'"
      "\<forall>b. b \<notin> set (?a # faddrs (lkids T)) \<longrightarrow> h' b = ?h b"
      "stored_sums h' ?a = sums_f E ?h (stored_sums ?h ?a) (lkids T)"
      "\<forall>b s. find_f b (lkids T) = Some s \<longrightarrow> stored_sums h' b = sums_f E ?h (own_sums E ?h b) (lkids s)"
    using add_children_spec [OF s1 d1] by blast
  have "stored_sums h' a = sums_f E h (own_sums E h a) (lkids s)" if "find_f a [T] = Some s" for a s
  proof (cases "a = ?a")
    case True
    then have "s = T" using that by (cases T) simp
    then show ?thesis using True h'(4) n(1) sums_f_only [OF o1] by (simp add: stored_sums_def own_sums_def)
  next
    case False
    then have "find_f a (lkids T) = Some s" using that by (cases T) (auto split: option.splits)
    then show ?thesis using h'(5) sums_f_only [OF o1] own_sums_only [OF o1] by simp
  qed
  moreover have "calcSubMassCM E h ?a = Some h'" using n(1) h'(1) by (simp add: calcSubMassCM_def)
  moreover have "\<forall>a. a \<notin> set (addrs T) \<longrightarrow> h' a = h a" using h'(3) by (simp add: addrs_eq)
  ultimately show ?thesis using sums_only_trans [OF o1 h'(2)] by blast
qed

end
