(* ===== verification/LinkWitnesses.thy ===== *)
theory LinkWitnesses
  imports KinematicsModel
begin

text \<open>
  A robot of five links on which the theorems about links, walks and kinematics apply: link 0 is
  the root, 1 and 2 are its children, 3 and 4 are the children of 2. All joints but the root's turn.
\<close>

definition demo_link :: "nat option \<Rightarrow> nat option \<Rightarrow> nat option \<Rightarrow> JointType \<Rightarrow> int \<Rightarrow> (unit, unit) Link" where
  "demo_link p s c ty jid =
     \<lparr>lbody = Some 7, lindex = 0, ljointId = jid, lname = ''link'', ljointType = ty,
      lparent = p, lsibling = s, lchild = c,
      motion = \<lparr>lp = (), lR = (), lv = (), lw = (), ldv = (), ldw = (), lq = Fin 0, ldq = Fin 0, lddq = Fin 0,
                lu = Fin 0, lfext = (), ltauext = ()\<rparr>,
      params = \<lparr>la = (), ld = (), lb = (), lRs = (), lm = Fin 1, lI = (), lc = (), lJm2 = Fin 0, lulimit = Fin 0,
                lllimit = Fin 0, luvlimit = Fin 0, llvlimit = Fin 0, ldefaultJointValue = Fin 0, ltorqueConst = Fin 0,
                lencoderPulse = Fin 0, lIr = Fin 0, lgearRatio = Fin 1, lgearEfficiency = Fin 1, lrotorResistor = Fin 0,
                lisHighGainMode = False, lisCrawler = False\<rparr>,
      work = \<lparr>lwc = (), lvo = (), ldvo = (), lsw = (), lsv = (), lsubm = Fin 0, lsubmwc = (), lclimit = Fin 0\<rparr>,
      lsensors = [], llights = []\<rparr>"

lemma demo_link_sel [simp]:
  "lparent (demo_link p s c ty j) = p" "lsibling (demo_link p s c ty j) = s" "lchild (demo_link p s c ty j) = c"
  "lbody (demo_link p s c ty j) = Some 7" "ljointId (demo_link p s c ty j) = j" "ljointType (demo_link p s c ty j) = ty"
  by (simp_all add: demo_link_def)

definition demo_heap :: "(unit, unit) link_heap" where
  "demo_heap = Map.empty(0 \<mapsto> demo_link None None (Some 1) FREE_JOINT (-1),
                     1 \<mapsto> demo_link (Some 0) (Some 2) None ROTATIONAL_JOINT 0,
                     2 \<mapsto> demo_link (Some 0) None (Some 3) ROTATIONAL_JOINT 1,
                     3 \<mapsto> demo_link (Some 2) (Some 4) None ROTATIONAL_JOINT 2,
                     4 \<mapsto> demo_link (Some 2) None None ROTATIONAL_JOINT 3)"

definition demo_tree :: ltree where
  "demo_tree = LTree 0 [LTree 1 [], LTree 2 [LTree 3 [], LTree 4 []]]"

lemma demo_tree_at: "tree_at demo_heap None demo_tree"
  by (simp add: tree_at_def demo_heap_def demo_tree_def)

lemma demo_distinct: "distinct (addrs demo_tree)" "set (addrs demo_tree) = {0, 1, 2, 3, 4}" "dom demo_heap = {0, 1, 2, 3, 4}"
  by (auto simp: demo_tree_def demo_heap_def)

definition demo_store :: "(unit, unit) link_store" where
  "demo_store = \<lparr>lheap = demo_heap, next_link = 5,
     garbage = (\<lambda>a. (motion (demo_link None None None FIXED_JOINT 0), params (demo_link None None None FIXED_JOINT 0),
                     work (demo_link None None None FIXED_JOINT 0)))\<rparr>"

definition unit_eigen :: "(unit, unit) eigen" where
  "unit_eigen = \<lparr>mmul = (\<lambda>_ _. ()), mvec = (\<lambda>_ _. ()), transposed = (\<lambda>_. ()), vadd = (\<lambda>_ _. ()), vsub = (\<lambda>_ _. ()),
     vscale = (\<lambda>_ _. ()), vcross = (\<lambda>_ _. ()), rodrigues = (\<lambda>_ _. ())\<rparr>"

lemma addChild_moves_subtree_witness:
  "\<exists>h'. addChild_link demo_heap 1 2 = Some h' \<and> tree_at h' None (LTree 0 [LTree 1 [LTree 2 [LTree 3 [], LTree 4 []]]])"
proof -
  have T': "LTree 0 [LTree 1 []] = in_tree (LTree 0 ([LTree 1 []] @ [])) demo_tree"
    by (simp add: in_tree_def demo_tree_def)
  have q: "find_f 0 [demo_tree] = Some (LTree 0 ([LTree 1 []] @ LTree 2 [LTree 3 [], LTree 4 []] # []))" by (simp add: demo_tree_def)
  show ?thesis
    using addChild_moves_subtree [OF demo_tree_at demo_distinct(1) q T', of 1 "LTree 1 []"]
    by (simp add: in_tree_def) blast
qed

lemma Link_copy_then_delete_witness:
  "\<exists>t' st'. Link_copy demo_store 0 = Some (lroot t', st') \<and> same_forest demo_heap [demo_tree] (lheap st') [t']"
proof -
  have "tree_at (lheap demo_store) None demo_tree" "dom (lheap demo_store) \<subseteq> {..<next_link demo_store}"
    using demo_tree_at demo_distinct(3) by (simp_all add: demo_store_def)
  from Link_copy_then_delete [OF this] show ?thesis by (auto simp: demo_store_def demo_tree_def)
qed

lemma LinkTraverse_find_correct_witness:
  "LinkTraverse_find demo_heap 2 False True = Some \<lparr>links = [2, 3, 4], numUpwardConnections = 0\<rparr>"
  using LinkTraverse_find_correct [OF demo_tree_at demo_distinct(1), of 2 "LTree 2 [LTree 3 [], LTree 4 []]"]
  by (simp add: demo_tree_def)

text \<open>From link 3 to link 4 the way turns at link 2, whose joint does not move one against the other.\<close>

lemma JointPath_between_witness:
  "\<exists>jp ls k. JointPath_new_between demo_heap 0 3 4 = Some jp \<and> hd ls = 3 \<and> last ls = 4 \<and> link_way demo_heap k ls \<and>
     joints_m jp = path_joints demo_heap k ls \<and> joints_m jp = [3, 2, 4]"
proof -
  have "LinkPath_find demo_heap 3 4 = Some (True, \<lparr>links = [3, 2, 4], numUpwardConnections = 1\<rparr>)" by code_simp
  then have js: "map_option joints_m (JointPath_new_between demo_heap 0 3 4) = Some [3, 2, 4]"
    by (simp add: JointPath_new_between_def extractJoints_def JointPath_init_def Let_def numLinks_def isDownward_def
        link_at_def is_joint_def demo_heap_def upt_rec)
  obtain jp ls k where "JointPath_new_between demo_heap 0 3 4 = Some jp" "hd ls = 3" "last ls = 4" "link_way demo_heap k ls"
      "joints_m jp = path_joints demo_heap k ls"
    using JointPath_between [OF demo_tree_at demo_distinct(1), of 3 4 0] demo_distinct(2) by (simp, blast)
  then show ?thesis using js by (intro exI [of _ jp] exI [of _ ls] exI [of _ k]) simp
qed

lemma JointPath_find_keeps_old_joints_witness:
  "fst (the (JointPath_find demo_heap ((JointPath_new 0 0)\<lparr>joints_m := [3]\<rparr>) 1 9))"
  using JointPath_find_keeps_old_joints [OF demo_tree_at demo_distinct(1), of 1 9 "(JointPath_new 0 0)\<lparr>joints_m := [3]\<rparr>"]
    demo_distinct(2) by simp

lemma calcForwardKinematics_consistent_witness:
  "\<exists>tr h'. LinkTraverse_find demo_heap 2 True True = Some tr \<and>
     calcForwardKinematics unit_eigen True True demo_heap tr = Some h' \<and> tree_at h' None demo_tree"
  using calcForwardKinematics_consistent [OF demo_tree_at demo_distinct(1), of 2 unit_eigen True True] demo_distinct(2) by auto

lemma calcSubMassCM_sums_witness: "\<exists>h'. calcSubMassCM unit_eigen demo_heap 0 = Some h' \<and> sums_only demo_heap h'"
  using calcSubMassCM_sums [OF demo_tree_at demo_distinct(1), of unit_eigen] by (auto simp: demo_tree_def)

end
