(* ===== verification/BodyModel.thy ===== *)
theory BodyModel
  imports KinematicsModel
begin

text \<open>
  \<open>hrplib/hrpModel/Body.{h,cpp}\<close>, \<open>Sensor.{h,cpp}\<close> and \<open>Light.{h,cpp}\<close>: a robot with its links,
  the tables of its joints, names and sensors, and the quantities computed by loops over its
  links. Left out: the mass matrix and the Jacobians (loops over Eigen matrices), the customizers
  (plug-ins loaded at run time) and \<open>constraintForces\<close>, which only the solvers of contacts fill.
\<close>

section \<open>More of Eigen\<close>

record ('v, 'm) eigen_more =
  vzero :: 'v
  vec3 :: "double \<Rightarrow> double \<Rightarrow> double \<Rightarrow> 'v"
  vdivide :: "'v \<Rightarrow> double \<Rightarrow> 'v"
  vdot :: "'v \<Rightarrow> 'v \<Rightarrow> double"
  mzero :: 'm
  midentity :: 'm
  madd :: "'m \<Rightarrow> 'm \<Rightarrow> 'm"
  mscale :: "double \<Rightarrow> 'm \<Rightarrow> 'm"
  hat :: "'v \<Rightarrow> 'm"

section \<open>Sensors and lights\<close>

text \<open>
  \<open>Sensor::SensorType\<close>; the members of a subclass are the sensor's data, without the image buffers
  and the filter state that only the simulator uses.
\<close>

abbreviation (input) COMMON :: int where "COMMON \<equiv> 0"
abbreviation (input) FORCE :: int where "FORCE \<equiv> 1"
abbreviation (input) RATE_GYRO :: int where "RATE_GYRO \<equiv> 2"
abbreviation (input) ACCELERATION :: int where "ACCELERATION \<equiv> 3"
abbreviation (input) PRESSURE :: int where "PRESSURE \<equiv> 4"
abbreviation (input) PHOTO_INTERRUPTER :: int where "PHOTO_INTERRUPTER \<equiv> 5"
abbreviation (input) VISION :: int where "VISION \<equiv> 6"
abbreviation (input) TORQUE :: int where "TORQUE \<equiv> 7"
abbreviation (input) RANGE :: int where "RANGE \<equiv> 8"
abbreviation (input) NUM_SENSOR_TYPES :: int where "NUM_SENSOR_TYPES \<equiv> 9"

datatype ImageType = IMG_NONE | COLOR | MONO | DEPTH | COLOR_DEPTH | MONO_DEPTH

record RangeData =
  scanAngle :: double
  scanStep :: double
  scanRate :: double
  maxDistance :: double
  distances :: "double list"
  range_nextUpdateTime :: double
  range_isUpdated :: bool
  range_isEnabled :: bool

record VisionData =
  width :: int
  height :: int
  far :: double
  near :: double
  fovy :: double
  frameRate :: double
  imageType :: ImageType
  vision_nextUpdateTime :: double
  vision_isUpdated :: bool
  vision_isEnabled :: bool

datatype 'v SensorData =
  PlainSensor | ForceSensor 'v 'v | RateGyroSensor 'v | AccelSensor 'v | RangeSensor RangeData | VisionSensor VisionData

record ('v, 'm) Sensor =
  sname :: string
  stype :: int
  sid :: int
  slink :: "nat option"
  slocalR :: 'm
  slocalPos :: 'v
  sdata :: "'v SensorData"

text \<open>
  \<open>Sensor::create\<close>: \<open>raw\<close> is what the memory handed out holds, \<open>f\<close>, \<open>tau\<close> and \<open>fov\<close> what it holds
  where the vectors of the subclasses and \<open>fovy\<close> are. A sensor of the three plain types keeps the
  type of its base class.
\<close>

definition Sensor_create ::
  "('v, 'm) eigen_more \<Rightarrow> ('v, 'm) Sensor \<times> 'v \<times> 'v \<times> double \<Rightarrow> int \<Rightarrow> ('v, 'm) Sensor option" where
  "Sensor_create Z g type =
     (case g of (raw, f, tau, fov) \<Rightarrow>
        let new = (\<lambda>t d. Some (raw\<lparr>sname := [], stype := t, sdata := d\<rparr>))
        in if type = FORCE then new FORCE (ForceSensor f tau)
           else if type = RATE_GYRO then new RATE_GYRO (RateGyroSensor f)
           else if type = ACCELERATION then new ACCELERATION (AccelSensor (vec3 Z (Fin 0) (Fin 0) (rnd (98 / 10))))
           else if type = RANGE then
             new RANGE (RangeSensor \<lparr>scanAngle = M_PI, scanStep = rnd (1 / 10), scanRate = Fin 10, maxDistance = Fin 10,
               distances = [], range_nextUpdateTime = Fin 0, range_isUpdated = False, range_isEnabled = False\<rparr>)
           else if type = VISION then
             new VISION (VisionSensor \<lparr>width = 320, height = 240, far = Fin 10, near = rnd (1 / 100), fovy = fov,
               frameRate = Fin 30, imageType = IMG_NONE, vision_nextUpdateTime = Fin 0, vision_isUpdated = False,
               vision_isEnabled = False\<rparr>)
           else if type = PRESSURE \<or> type = PHOTO_INTERRUPTER \<or> type = TORQUE then new COMMON PlainSensor
           else None)"

text \<open>\<open>Sensor::operator=\<close>: the members of the base class but the link.\<close>

definition Sensor_assign :: "('v, 'm) Sensor \<Rightarrow> ('v, 'm) Sensor \<Rightarrow> ('v, 'm) Sensor" where
  "Sensor_assign s org =
     s\<lparr>sname := sname org, stype := stype org, sid := sid org, slocalR := slocalR org, slocalPos := slocalPos org\<rparr>"

text \<open>\<open>clear\<close> of the class the sensor has.\<close>

definition Sensor_clear :: "('v, 'm) eigen_more \<Rightarrow> ('v, 'm) Sensor \<Rightarrow> ('v, 'm) Sensor" where
  "Sensor_clear Z s =
     (case sdata s of
        ForceSensor f tau \<Rightarrow> s\<lparr>sdata := ForceSensor (vzero Z) (vzero Z)\<rparr>
      | RateGyroSensor w \<Rightarrow> s\<lparr>sdata := RateGyroSensor (vzero Z)\<rparr>
      | AccelSensor dv \<Rightarrow> s\<lparr>sdata := AccelSensor (vec3 Z (Fin 0) (Fin 0) (rnd (98 / 10)))\<rparr>
      | _ \<Rightarrow> s)"

text \<open>The members of a light set by its constructor; the others are left to their initial garbage.\<close>

record Light =
  light_link :: nat
  light_type :: int
  light_name :: string
  light_id :: int

section \<open>The memory and a body\<close>

record ('v, 'm) body_mem =
  lstore :: "('v, 'm) link_store"
  sensor_heap :: "nat \<Rightarrow> ('v, 'm) Sensor option"
  next_sensor :: nat
  sensor_garbage :: "nat \<Rightarrow> ('v, 'm) Sensor \<times> 'v \<times> 'v \<times> double"
  light_heap :: "nat \<Rightarrow> Light option"
  next_light :: nat
  nextId :: int

datatype ExtraJointType = EJ_XYZ | EJ_XY | EJ_Z

record 'v ExtraJoint =
  ej_name :: string
  ej_type :: ExtraJointType
  ej_axis :: 'v
  ej_link :: "nat option \<times> nat option"
  ej_point :: "'v \<times> 'v"

record ('v, 'm) Body =
  body_name :: string
  modelName :: string
  rootLink_m :: "nat option"
  isStaticModel_m :: bool
  jointIdToLinkArray :: "nat option list"
  linkTraverse_m :: LinkTraverse
  nameToLinkMap :: "string \<Rightarrow> nat option"
  allSensors :: "nat option list list"
  nameToSensorMap :: "string \<Rightarrow> nat option"
  nameToLightMap :: "string \<Rightarrow> nat option option"
  totalMass_m :: double
  defaultRootPosition :: 'v
  defaultRootAttitude :: 'm
  extraJoints :: "'v ExtraJoint list"

abbreviation mheap :: "('v, 'm) body_mem \<Rightarrow> ('v, 'm) link_heap" where
  "mheap m \<equiv> lheap (lstore m)"

abbreviation set_mheap :: "('v, 'm) body_mem \<Rightarrow> ('v, 'm) link_heap \<Rightarrow> ('v, 'm) body_mem" where
  "set_mheap m h \<equiv> m\<lparr>lstore := (lstore m)\<lparr>lheap := h\<rparr>\<rparr>"

section \<open>The links of a body\<close>

definition createEmptyJoint ::
  "('v, 'm) eigen_more \<Rightarrow> ('v, 'm) link_store \<Rightarrow> nat \<Rightarrow> int \<Rightarrow> (nat \<times> ('v, 'm) link_store) option" where
  "createEmptyJoint Z st this jointId =
     (case Link_new st of (a, st1) \<Rightarrow>
        do { e \<leftarrow> lheap st1 a;
             Some (a, st1\<lparr>lheap := (lheap st1)(a \<mapsto>
               e\<lparr>lbody := Some this, ljointId := jointId,
                 motion := \<lparr>lp = vzero Z, lR = midentity Z, lv = vzero Z, lw = vzero Z, ldv = vzero Z, ldw = vzero Z,
                   lq = Fin 0, ldq = Fin 0, lddq = Fin 0, lu = Fin 0, lfext = vzero Z, ltauext = vzero Z\<rparr>,
                 params := (params e)\<lparr>la := vzero Z, ld := vzero Z, lb := vzero Z, lRs := midentity Z, lm := Fin 0,
                   lI := mzero Z, lc := vzero Z, lJm2 := Fin 0, lulimit := Fin 0, lllimit := Fin 0, luvlimit := Fin 0,
                   llvlimit := Fin 0, ldefaultJointValue := Fin 0, lIr := Fin 0, lgearRatio := Fin 1\<rparr>,
                 work := (work e)\<lparr>lwc := vzero Z, lvo := vzero Z, ldvo := vzero Z\<rparr>\<rparr>)\<rparr>) })"

text \<open>
  The state of the loop over the links: the name map, the joint array and the greatest id. The
  joint id \<open>2 ^ 31 - 1\<close>, for which \<open>id + 1\<close> overflows, is not considered here either.
\<close>

definition note_joint :: "nat option list \<Rightarrow> int \<Rightarrow> nat \<Rightarrow> int \<Rightarrow> nat option list \<times> int" where
  "note_joint arr maxId a jid =
     (if 0 \<le> jid then
        (let arr1 = (if int (length arr) \<le> jid then resize_vec (nat jid + 1) None arr else arr)
         in (arr1[nat jid := Some a], if maxId < jid then jid else maxId))
      else (arr, maxId))"

fun index_links ::
  "('v, 'm) link_heap \<Rightarrow> nat \<Rightarrow> nat \<Rightarrow> nat list \<Rightarrow> (string \<Rightarrow> nat option) \<Rightarrow> nat option list \<Rightarrow> int \<Rightarrow>
     (('v, 'm) link_heap \<times> (string \<Rightarrow> nat option) \<times> nat option list \<times> int) option" where
  "index_links h this i [] names arr maxId = Some (h, names, arr, maxId)"
| "index_links h this i (a # as) names arr maxId =
     do { n \<leftarrow> h a;
          case note_joint arr maxId a (ljointId n) of (arr1, maxId1) \<Rightarrow>
            index_links (h(a \<mapsto> n\<lparr>lbody := Some this, lindex := int i\<rparr>)) this (i + 1) as
              (names(lname n \<mapsto> a)) arr1 maxId1 }"

text \<open>The joints without a link, from id \<open>i\<close> on.\<close>

fun fill_joints ::
  "('v, 'm) eigen_more \<Rightarrow> ('v, 'm) link_store \<Rightarrow> nat \<Rightarrow> nat \<Rightarrow> nat option list \<Rightarrow> (nat option list \<times> ('v, 'm) link_store) option" where
  "fill_joints Z st this i [] = Some ([], st)"
| "fill_joints Z st this i (j # js) =
     do { (k, st1) \<leftarrow> (case j of
            Some a \<Rightarrow> Some (a, st)
          | None \<Rightarrow> createEmptyJoint Z st this (int i));
          (ks, st2) \<leftarrow> fill_joints Z st1 this (i + 1) js;
          Some (Some k # ks, st2) }"

definition Body_calcTotalMass :: "('v, 'm) link_heap \<Rightarrow> ('v, 'm) Body \<Rightarrow> (double \<times> ('v, 'm) Body) option" where
  "Body_calcTotalMass h b =
     do { x \<leftarrow> calcTotalMass h (linkTraverse_m b); Some (x, b\<lparr>totalMass_m := x\<rparr>) }"

definition numJoints :: "('v, 'm) Body \<Rightarrow> nat" where
  "numJoints b = length (jointIdToLinkArray b)"

definition updateLinkTree ::
  "('v, 'm) eigen_more \<Rightarrow> ('v, 'm) body_mem \<Rightarrow> nat \<Rightarrow> ('v, 'm) Body \<Rightarrow> (('v, 'm) Body \<times> ('v, 'm) body_mem) option" where
  "updateLinkTree Z m this b =
     do { r \<leftarrow> rootLink_m b;
          tr \<leftarrow> LinkTraverse_find (mheap m) r False True;
          (h, names, arr, maxId) \<leftarrow>
            index_links (mheap m) this 0 (links tr) Map.empty (replicate (length (links tr)) None) (- 1);
          (joints, st) \<leftarrow> fill_joints Z ((lstore m)\<lparr>lheap := h\<rparr>) this 0 (resize_vec (nat (maxId + 1)) None arr);
          let b1 = b\<lparr>linkTraverse_m := tr, nameToLinkMap := names, jointIdToLinkArray := joints\<rparr>
          in do { (_, b2) \<leftarrow> Body_calcTotalMass (lheap st) b1;
                  rt \<leftarrow> lheap st r;
                  Some (b2\<lparr>isStaticModel_m := (ljointType rt = FIXED_JOINT \<and> numJoints b2 = 0)\<rparr>,
                        m\<lparr>lstore := st\<rparr>) } }"

text \<open>Deleting the null pointer does nothing.\<close>

definition delete_root :: "('v, 'm) link_heap \<Rightarrow> nat option \<Rightarrow> ('v, 'm) link_heap option" where
  "delete_root h r = (case r of None \<Rightarrow> Some h | Some a \<Rightarrow> Link_delete h a)"

definition setRootLink ::
  "('v, 'm) eigen_more \<Rightarrow> ('v, 'm) body_mem \<Rightarrow> nat \<Rightarrow> ('v, 'm) Body \<Rightarrow> nat option \<Rightarrow>
     (('v, 'm) Body \<times> ('v, 'm) body_mem) option" where
  "setRootLink Z m this b link =
     do { h \<leftarrow> delete_root (mheap m) (rootLink_m b);
          updateLinkTree Z (set_mheap m h) this (b\<lparr>rootLink_m := link\<rparr>) }"

definition Body_joint :: "('v, 'm) Body \<Rightarrow> nat \<Rightarrow> nat option option" where
  "Body_joint b i = elem_at (jointIdToLinkArray b) i"

definition Body_link :: "('v, 'm) Body \<Rightarrow> nat \<Rightarrow> nat option" where
  "Body_link b i = link_at (linkTraverse_m b) i"

definition Body_link_named :: "('v, 'm) Body \<Rightarrow> string \<Rightarrow> nat option" where
  "Body_link_named b s = nameToLinkMap b s"

definition setDefaultRootPosition :: "('v, 'm) Body \<Rightarrow> 'v \<Rightarrow> 'm \<Rightarrow> ('v, 'm) Body" where
  "setDefaultRootPosition b p R = b\<lparr>defaultRootPosition := p, defaultRootAttitude := R\<rparr>"

definition getDefaultRootPosition :: "('v, 'm) Body \<Rightarrow> 'v \<times> 'm" where
  "getDefaultRootPosition b = (defaultRootPosition b, defaultRootAttitude b)"

section \<open>Lights and sensors\<close>

definition createLight ::
  "('v, 'm) body_mem \<Rightarrow> ('v, 'm) Body \<Rightarrow> nat \<Rightarrow> int \<Rightarrow> string \<Rightarrow> (nat \<times> ('v, 'm) Body \<times> ('v, 'm) body_mem) option" where
  "createLight m b link lightType nm =
     do { n \<leftarrow> mheap m link;
          let a = next_light m
          in Some (a, b\<lparr>nameToLightMap := (nameToLightMap b)(nm \<mapsto> Some a)\<rparr>,
                   (set_mheap m ((mheap m)(link \<mapsto> n\<lparr>llights := llights n @ [a]\<rparr>)))\<lparr>
                     light_heap := (light_heap m)(a \<mapsto>
                       \<lparr>light_link = link, light_type = lightType, light_name = nm, light_id = nextId m\<rparr>),
                     next_light := a + 1, nextId := nextId m + 1\<rparr>) }"

text \<open>\<open>operator[]\<close> of the map enters a null pointer for a new name.\<close>

definition Body_light :: "('v, 'm) Body \<Rightarrow> string \<Rightarrow> nat option \<times> ('v, 'm) Body" where
  "Body_light b nm =
     (case nameToLightMap b nm of
        Some p \<Rightarrow> (p, b)
      | None \<Rightarrow> (None, b\<lparr>nameToLightMap := (nameToLightMap b)(nm \<mapsto> None)\<rparr>))"

text \<open>
  The array of one type, grown so that it has the slot \<open>ident\<close>; a type below zero is out of
  range. The \<open>int\<close> sum \<open>id + 1\<close> overflows for the id \<open>2 ^ 31 - 1\<close>, which is not considered.
\<close>

definition sensor_slots :: "('v, 'm) Body \<Rightarrow> int \<Rightarrow> int \<Rightarrow> nat option list option" where
  "sensor_slots b type ident =
     (if type < 0 then None
      else do { ss \<leftarrow> elem_at (allSensors b) (nat type);
                Some (if int (length ss) \<le> ident then resize_vec (nat ident + 1) None ss else ss) })"

definition set_slots :: "('v, 'm) Body \<Rightarrow> int \<Rightarrow> nat option list \<Rightarrow> ('v, 'm) Body" where
  "set_slots b type ss = b\<lparr>allSensors := (allSensors b)[nat type := ss]\<rparr>"

text \<open>The sensor that gets the slot: the one in it, whose name is taken out of the map, or a new one.\<close>

definition slot_sensor ::
  "('v, 'm) eigen_more \<Rightarrow> ('v, 'm) body_mem \<Rightarrow> ('v, 'm) Body \<Rightarrow> int \<Rightarrow> nat option \<Rightarrow>
     (nat option \<times> ('v, 'm) Body \<times> ('v, 'm) body_mem) option" where
  "slot_sensor Z m b type s =
     (case s of
        Some a \<Rightarrow> do { x \<leftarrow> sensor_heap m a;
                       Some (Some a, b\<lparr>nameToSensorMap := (nameToSensorMap b)(sname x := None)\<rparr>, m) }
      | None \<Rightarrow>
          (let a = next_sensor m
           in case Sensor_create Z (sensor_garbage m a) type of
                None \<Rightarrow> Some (None, b, m)
              | Some x \<Rightarrow> Some (Some a, b, m\<lparr>sensor_heap := (sensor_heap m)(a \<mapsto> x), next_sensor := a + 1\<rparr>)))"

definition createSensor ::
  "('v, 'm) eigen_more \<Rightarrow> ('v, 'm) body_mem \<Rightarrow> ('v, 'm) Body \<Rightarrow> nat \<Rightarrow> int \<Rightarrow> int \<Rightarrow> string \<Rightarrow>
     (nat option \<times> ('v, 'm) Body \<times> ('v, 'm) body_mem) option" where
  "createSensor Z m b link type ident nm =
     (if type < NUM_SENSOR_TYPES \<and> 0 \<le> ident then
        do { ss \<leftarrow> sensor_slots b type ident;
             slot \<leftarrow> elem_at ss (nat ident);
             (s, b1, m1) \<leftarrow> slot_sensor Z m (set_slots b type ss) type slot;
             case s of
               None \<Rightarrow> Some (None, b1, m1)
             | Some a \<Rightarrow>
                 do { x \<leftarrow> sensor_heap m1 a;
                      n \<leftarrow> mheap m1 link;
                      Some (Some a,
                        (set_slots b1 type (ss[nat ident := Some a]))\<lparr>nameToSensorMap := (nameToSensorMap b1)(nm \<mapsto> a)\<rparr>,
                        (set_mheap m1 ((mheap m1)(link \<mapsto> n\<lparr>lsensors := lsensors n @ [a]\<rparr>)))\<lparr>
                          sensor_heap := (sensor_heap m1)(a \<mapsto> x\<lparr>sid := ident, slink := Some link, sname := nm\<rparr>)\<rparr>) } }
      else Some (None, b, m))"

definition addSensor ::
  "('v, 'm) body_mem \<Rightarrow> ('v, 'm) Body \<Rightarrow> nat \<Rightarrow> int \<Rightarrow> int \<Rightarrow> ('v, 'm) Body option" where
  "addSensor m b s type ident =
     (if type < NUM_SENSOR_TYPES \<and> 0 \<le> ident then
        do { ss \<leftarrow> sensor_slots b type ident;
             slot \<leftarrow> elem_at ss (nat ident);
             names \<leftarrow> (case slot of
                 Some a \<Rightarrow> do { x \<leftarrow> sensor_heap m a; Some ((nameToSensorMap b)(sname x := None)) }
               | None \<Rightarrow> Some (nameToSensorMap b));
             y \<leftarrow> sensor_heap m s;
             Some ((set_slots b type (ss[nat ident := Some s]))\<lparr>nameToSensorMap := names(sname y \<mapsto> s)\<rparr>) }
      else Some b)"

definition sensor_at :: "('v, 'm) Body \<Rightarrow> nat \<Rightarrow> nat \<Rightarrow> nat option option" where
  "sensor_at b type i = do { ss \<leftarrow> elem_at (allSensors b) type; elem_at ss i }"

definition numSensors :: "('v, 'm) Body \<Rightarrow> nat \<Rightarrow> nat option" where
  "numSensors b type = map_option length (elem_at (allSensors b) type)"

definition numSensorTypes :: "('v, 'm) Body \<Rightarrow> nat" where
  "numSensorTypes b = length (allSensors b)"

text \<open>The sensor of a name when it is of the class asked for, which \<open>cls\<close> tests as \<open>dynamic_cast\<close> does.\<close>

definition sensor_named ::
  "('v, 'm) body_mem \<Rightarrow> ('v, 'm) Body \<Rightarrow> ('v SensorData \<Rightarrow> bool) \<Rightarrow> string \<Rightarrow> nat option option" where
  "sensor_named m b cls nm =
     (case nameToSensorMap b nm of
        None \<Rightarrow> Some None
      | Some a \<Rightarrow> do { x \<leftarrow> sensor_heap m a; Some (if cls (sdata x) then Some a else None) })"

text \<open>The loops over all sensors, type by type.\<close>

fun clear_sensors ::
  "('v, 'm) eigen_more \<Rightarrow> (nat \<Rightarrow> ('v, 'm) Sensor option) \<Rightarrow> nat option list \<Rightarrow> (nat \<Rightarrow> ('v, 'm) Sensor option) option" where
  "clear_sensors Z h [] = Some h"
| "clear_sensors Z h (None # ss) = clear_sensors Z h ss"
| "clear_sensors Z h (Some a # ss) = do { x \<leftarrow> h a; clear_sensors Z (h(a \<mapsto> Sensor_clear Z x)) ss }"

definition clearSensorValues :: "('v, 'm) eigen_more \<Rightarrow> ('v, 'm) body_mem \<Rightarrow> ('v, 'm) Body \<Rightarrow> ('v, 'm) body_mem option" where
  "clearSensorValues Z m b =
     do { h \<leftarrow> clear_sensors Z (sensor_heap m) (concat (allSensors b)); Some (m\<lparr>sensor_heap := h\<rparr>) }"

fun destroy_sensors :: "(nat \<Rightarrow> ('v, 'm) Sensor option) \<Rightarrow> nat option list \<Rightarrow> (nat \<Rightarrow> ('v, 'm) Sensor option) option" where
  "destroy_sensors h [] = Some h"
| "destroy_sensors h (None # ss) = destroy_sensors h ss"
| "destroy_sensors h (Some a # ss) = do { _ \<leftarrow> h a; destroy_sensors (h(a := None)) ss }"

section \<open>Constructors and the destructor\<close>

text \<open>\<open>unset\<close> is what the members hold that the constructor does not set.\<close>

definition Body_blank :: "('v, 'm) eigen_more \<Rightarrow> int \<times> double \<times> bool \<Rightarrow> ('v, 'm) Body" where
  "Body_blank Z unset =
     (case unset of (up, mass, static) \<Rightarrow>
        \<lparr>body_name = [], modelName = [], rootLink_m = None, isStaticModel_m = static, jointIdToLinkArray = [],
         linkTraverse_m = LinkTraverse_new up, nameToLinkMap = Map.empty, allSensors = replicate 9 [],
         nameToSensorMap = Map.empty, nameToLightMap = Map.empty, totalMass_m = mass,
         defaultRootPosition = vzero Z, defaultRootAttitude = midentity Z, extraJoints = []\<rparr>)"

definition Body_new ::
  "('v, 'm) eigen_more \<Rightarrow> int \<times> double \<times> bool \<Rightarrow> ('v, 'm) body_mem \<Rightarrow> nat \<Rightarrow> (('v, 'm) Body \<times> ('v, 'm) body_mem) option" where
  "Body_new Z unset m this =
     (case Link_new (lstore m) of (r, st) \<Rightarrow>
        do { n \<leftarrow> lheap st r;
             Some ((Body_blank Z unset)\<lparr>rootLink_m := Some r\<rparr>,
                   m\<lparr>lstore := st\<lparr>lheap := (lheap st)(r \<mapsto> n\<lparr>lbody := Some this\<rparr>)\<rparr>\<rparr>) })"

definition Body_destroy :: "('v, 'm) body_mem \<Rightarrow> ('v, 'm) Body \<Rightarrow> ('v, 'm) body_mem option" where
  "Body_destroy m b =
     do { h \<leftarrow> delete_root (mheap m) (rootLink_m b);
          s \<leftarrow> destroy_sensors (sensor_heap m) (concat (allSensors b));
          Some ((set_mheap m h)\<lparr>sensor_heap := s\<rparr>) }"

text \<open>The index of a link in the walk of the original; \<open>operator[]\<close> answers 0 for a link not in it.\<close>

fun last_index :: "nat \<Rightarrow> nat list \<Rightarrow> nat option \<Rightarrow> nat" where
  "last_index i [] l = 0"
| "last_index i (a # as) l = (if l = Some a \<and> Some a \<notin> Some ` set as then i else last_index (i + 1) as l)"

fun copy_sensors ::
  "('v, 'm) eigen_more \<Rightarrow> nat list \<Rightarrow> (nat \<times> nat option) list \<Rightarrow> ('v, 'm) Body \<times> ('v, 'm) body_mem \<Rightarrow>
     (('v, 'm) Body \<times> ('v, 'm) body_mem) option" where
  "copy_sensors Z orgLinks [] bm = Some bm"
| "copy_sensors Z orgLinks ((type, None) # ss) bm = copy_sensors Z orgLinks ss bm"
| "copy_sensors Z orgLinks ((type, Some s) # ss) (b, m) =
     do { org \<leftarrow> sensor_heap m s;
          newLink \<leftarrow> Body_link b (last_index 0 orgLinks (slink org));
          (c, b1, m1) \<leftarrow> createSensor Z m b newLink (int type) (sid org) (sname org);
          clone \<leftarrow> c;
          x \<leftarrow> sensor_heap m1 clone;
          copy_sensors Z orgLinks ss
            (b1, m1\<lparr>sensor_heap := (sensor_heap m1)(clone \<mapsto> Sensor_assign x org)\<rparr>) }"

text \<open>The slots of all types in the order of the loops.\<close>

definition typed_slots :: "('v, 'm) Body \<Rightarrow> (nat \<times> nat option) list" where
  "typed_slots b = concat (map (\<lambda>t. map (Pair t) (allSensors b ! t)) [0..<length (allSensors b)])"

text \<open>The loop over the extra joints looks up their links in the new body and drops the copy.\<close>

definition extra_link :: "('v, 'm) body_mem \<Rightarrow> ('v, 'm) Body \<Rightarrow> nat option \<Rightarrow> nat option" where
  "extra_link m b l = do { a \<leftarrow> l; n \<leftarrow> mheap m a; if lindex n < 0 then None else Body_link b (nat (lindex n)) }"

fun copy_extra_joints :: "('v, 'm) body_mem \<Rightarrow> ('v, 'm) Body \<Rightarrow> 'v ExtraJoint list \<Rightarrow> unit option" where
  "copy_extra_joints m b [] = Some ()"
| "copy_extra_joints m b (j # js) =
     do { _ \<leftarrow> extra_link m b (fst (ej_link j));
          _ \<leftarrow> extra_link m b (snd (ej_link j));
          copy_extra_joints m b js }"

definition Body_copy ::
  "('v, 'm) eigen_more \<Rightarrow> int \<times> double \<times> bool \<Rightarrow> ('v, 'm) body_mem \<Rightarrow> nat \<Rightarrow> ('v, 'm) Body \<Rightarrow>
     (('v, 'm) Body \<times> ('v, 'm) body_mem) option" where
  "Body_copy Z unset m this org =
     do { r \<leftarrow> rootLink_m org;
          (r', st) \<leftarrow> Link_copy (lstore m) r;
          (b, m1) \<leftarrow> setRootLink Z (m\<lparr>lstore := st\<rparr>) this
             ((Body_blank Z unset)\<lparr>body_name := body_name org, modelName := modelName org\<rparr>) (Some r');
          (b2, m2) \<leftarrow> copy_sensors Z (links (linkTraverse_m org)) (typed_slots org)
             (b\<lparr>defaultRootPosition := defaultRootPosition org, defaultRootAttitude := defaultRootAttitude org\<rparr>, m1);
          _ \<leftarrow> copy_extra_joints m2 b2 (extraJoints org);
          Some (b2, m2) }"
end
