(* ===== verification/BodyProofs.thy ===== *)
theory BodyProofs
  imports BodyModel
begin

text \<open>
  What the tables of a body hold: \<open>updateLinkTree\<close> as the function from names and joint ids to the
  links of the tree, the sensor table as an invariant of the operations on sensors, and what a
  copied body shares with its original.
\<close>

section \<open>The joint array and the name map\<close>

definition joint_id :: "('v, 'm) link_heap \<Rightarrow> nat \<Rightarrow> int" where
  "joint_id h a = (case h a of Some n \<Rightarrow> ljointId n | None \<Rightarrow> -1)"

definition link_name :: "('v, 'm) link_heap \<Rightarrow> nat \<Rightarrow> string" where
  "link_name h a = (case h a of Some n \<Rightarrow> lname n | None \<Rightarrow> [])"

text \<open>The last link of a list that \<open>f\<close> maps to \<open>x\<close>: what the loops that overwrite leave.\<close>

definition last_with :: "(nat \<Rightarrow> 'b) \<Rightarrow> 'b \<Rightarrow> nat list \<Rightarrow> nat option" where
  "last_with f x as = find (\<lambda>a. f a = x) (List.rev as)"

definition slot :: "nat option list \<Rightarrow> nat \<Rightarrow> nat option" where
  "slot arr i = (if i < length arr then arr ! i else None)"

lemma find_append: "find P (xs @ ys) = (case find P xs of Some x \<Rightarrow> Some x | None \<Rightarrow> find P ys)"
  by (induction xs) auto

lemma last_with_Nil [simp]: "last_with f x [] = None"
  by (simp add: last_with_def)

lemma last_with_Cons:
  "last_with f x (a # as) = (case last_with f x as of Some b \<Rightarrow> Some b | None \<Rightarrow> if f a = x then Some a else None)"
  by (simp add: last_with_def find_append split: option.split)

lemma last_with_Some: "last_with f x as = Some a \<Longrightarrow> a \<in> set as \<and> f a = x"
  by (induction as) (auto simp: last_with_Cons split: option.splits if_splits)

lemma last_with_None: "last_with f x as = None \<longleftrightarrow> x \<notin> f ` set as"
  by (auto simp: last_with_def find_None_iff)

lemma last_with_cong: "\<forall>a \<in> set as. f a = g a \<Longrightarrow> last_with f x as = last_with g x as"
  by (induction as) (simp_all add: last_with_Cons)

lemma slot_resize [simp]: "slot (resize_vec n None arr) i = (if i < n then slot arr i else None)"
  by (auto simp: slot_def resize_vec_def nth_append)

lemma slot_replicate [simp]: "slot (replicate k None) i = None"
  by (simp add: slot_def)

lemma slot_ge: "length arr \<le> i \<Longrightarrow> slot arr i = None"
  by (simp add: slot_def)

lemma resize_nth [simp]: "i < n \<Longrightarrow> resize_vec n None arr ! i = slot arr i"
  by (simp add: resize_vec_def slot_def nth_append)

lemma slot_update: "k < length arr \<Longrightarrow> slot (arr[k := v]) i = (if i = k then v else slot arr i)"
  by (simp add: slot_def)

lemma note_joint_spec:
  assumes "-1 \<le> maxId" and "maxId < int (length arr)"
  shows "\<exists>arr1. note_joint arr maxId a jid = (arr1, max maxId jid) \<and> max maxId jid < int (length arr1) \<and>
    (\<forall>i. slot arr1 i = (if jid = int i then Some a else slot arr i))"
proof (cases "0 \<le> jid")
  case True
  let ?arr = "if int (length arr) \<le> jid then resize_vec (nat jid + 1) None arr else arr"
  have len: "nat jid < length ?arr" using True by auto
  moreover have "slot ?arr i = slot arr i" for i using True slot_ge [of arr i] by auto
  ultimately have "slot (?arr[nat jid := Some a]) i = (if jid = int i then Some a else slot arr i)" for i
    using True slot_update [OF len, of "Some a" i] by auto
  moreover have "max maxId jid < int (length (?arr[nat jid := Some a]))" using True assms(2) by auto
  ultimately show ?thesis using True unfolding note_joint_def Let_def by (simp add: max_def)
qed (use assms in \<open>auto simp: note_joint_def max_def\<close>)

lemma index_links_spec:
  assumes "distinct as" and "set as \<subseteq> dom h" and "-1 \<le> maxId" and "maxId < int (length arr)"
  shows "\<exists>h' arr'. index_links h this i as names arr maxId =
      Some (h', \<lambda>s. (case last_with (link_name h) s as of Some a \<Rightarrow> Some a | None \<Rightarrow> names s), arr',
            fold max (map (joint_id h) as) maxId) \<and>
    fold max (map (joint_id h) as) maxId < int (length arr') \<and>
    (\<forall>k. slot arr' k = (case last_with (joint_id h) (int k) as of Some a \<Rightarrow> Some a | None \<Rightarrow> slot arr k)) \<and>
    (\<forall>a. a \<notin> set as \<longrightarrow> h' a = h a) \<and>
    (\<forall>k < length as. h' (as ! k) = map_option (\<lambda>n. n\<lparr>lbody := Some this, lindex := int (i + k)\<rparr>) (h (as ! k)))"
  using assms
proof (induction as arbitrary: h i names arr maxId)
  case (Cons a as)
  obtain n where n: "h a = Some n" using Cons.prems(2) by auto
  let ?h = "h(a \<mapsto> n\<lparr>lbody := Some this, lindex := int i\<rparr>)" and ?j = "ljointId n"
  obtain arr1 where arr1: "note_joint arr maxId a ?j = (arr1, max maxId ?j)" "max maxId ?j < int (length arr1)"
      "\<forall>k. slot arr1 k = (if ?j = int k then Some a else slot arr k)"
    using note_joint_spec [OF Cons.prems(3,4)] by blast
  have same: "joint_id ?h b = joint_id h b" "link_name ?h b = link_name h b" for b
    using n by (simp_all add: joint_id_def link_name_def)
  have own: "joint_id h a = ?j" "link_name h a = lname n" using n by (simp_all add: joint_id_def link_name_def)
  have ids: "joint_id ?h = joint_id h" "link_name ?h = link_name h" using same by (intro ext; simp)+
  have "distinct as" "set as \<subseteq> dom ?h" "-1 \<le> max maxId ?j" "max maxId ?j < int (length arr1)"
    using Cons.prems arr1(2) by auto
  from Cons.IH [OF this, of "i + 1" "names(lname n \<mapsto> a)"] obtain h' arr' where
    r: "index_links ?h this (i + 1) as (names(lname n \<mapsto> a)) arr1 (max maxId ?j) =
      Some (h', \<lambda>s. (case last_with (link_name h) s as of Some b \<Rightarrow> Some b | None \<Rightarrow> (names(lname n \<mapsto> a)) s), arr',
            fold max (map (joint_id h) as) (max maxId ?j))"
      "fold max (map (joint_id h) as) (max maxId ?j) < int (length arr')"
      "\<forall>k. slot arr' k = (case last_with (joint_id h) (int k) as of Some b \<Rightarrow> Some b | None \<Rightarrow> slot arr1 k)"
      "\<forall>b. b \<notin> set as \<longrightarrow> h' b = ?h b"
      "\<forall>k < length as. h' (as ! k) = map_option (\<lambda>n. n\<lparr>lbody := Some this, lindex := int (i + 1 + k)\<rparr>) (?h (as ! k))"
    unfolding ids by blast
  have f: "fold max (map (joint_id h) (a # as)) maxId = fold max (map (joint_id h) as) (max maxId ?j)"
    using own by (simp add: max.commute)
  have nm: "(\<lambda>s. case last_with (link_name h) s (a # as) of Some b \<Rightarrow> Some b | None \<Rightarrow> names s) =
      (\<lambda>s. case last_with (link_name h) s as of Some b \<Rightarrow> Some b | None \<Rightarrow> (names(lname n \<mapsto> a)) s)"
    using own by (intro ext) (simp add: last_with_Cons split: option.split)
  have "\<forall>k. slot arr' k = (case last_with (joint_id h) (int k) (a # as) of Some b \<Rightarrow> Some b | None \<Rightarrow> slot arr k)"
    using r(3) arr1(3) own by (simp add: last_with_Cons split: option.split)
  moreover have "h' ((a # as) ! k) = map_option (\<lambda>n. n\<lparr>lbody := Some this, lindex := int (i + k)\<rparr>) (h ((a # as) ! k))"
    if "k < length (a # as)" for k
  proof (cases k)
    case 0
    then show ?thesis using r(4) Cons.prems(1) n by simp
  next
    case (Suc k')
    then have "as ! k' \<noteq> a" using that Cons.prems(1) by auto
    then show ?thesis using r(5) Suc that by simp
  qed
  moreover have "\<forall>b. b \<notin> set (a # as) \<longrightarrow> h' b = h b" using r(4) by simp
  moreover have "index_links h this i (a # as) names arr maxId =
      Some (h', \<lambda>s. (case last_with (link_name h) s (a # as) of Some a \<Rightarrow> Some a | None \<Rightarrow> names s), arr',
            fold max (map (joint_id h) (a # as)) maxId)"
    unfolding nm f using n arr1(1) r(1) by simp
  ultimately show ?case using r(2) unfolding f by blast
qed simp


lemma case_option_self [simp]: "(case x of None \<Rightarrow> None | Some a \<Rightarrow> Some a) = x"
  by (cases x) auto

section \<open>Joints without a link\<close>

lemma createEmptyJoint_spec:
  "\<exists>n st'. createEmptyJoint Z st this jid = Some (next_link st, st') \<and> next_link st' = next_link st + 1 \<and>
     lheap st' = (lheap st)(next_link st \<mapsto> n) \<and> ljointId n = jid \<and> lbody n = Some this \<and> lindex n = -1 \<and> lparent n = None"
proof (cases "garbage st (next_link st)")
  case (fields mo pa wo)
  then show ?thesis by (auto simp: createEmptyJoint_def Link_new_def Let_def)
qed

definition dummy_joint :: "('v, 'm) link_heap \<Rightarrow> nat \<Rightarrow> int \<Rightarrow> nat \<Rightarrow> bool" where
  "dummy_joint h this jid a \<longleftrightarrow>
     (\<exists>n. h a = Some n \<and> ljointId n = jid \<and> lbody n = Some this \<and> lindex n = -1 \<and> lparent n = None)"

lemma fill_joints_spec:
  "\<exists>ks st'. fill_joints Z st this i js = Some (ks, st') \<and> length ks = length js \<and> next_link st \<le> next_link st' \<and>
     (\<forall>a < next_link st. lheap st' a = lheap st a) \<and>
     (\<forall>k < length js. case js ! k of
        Some a \<Rightarrow> ks ! k = Some a
      | None \<Rightarrow> \<exists>a. ks ! k = Some a \<and> next_link st \<le> a \<and> a < next_link st' \<and> dummy_joint (lheap st') this (int (i + k)) a)"
proof (induction js arbitrary: st i)
  case (Cons j js)
  obtain a st1 where st1: "(case j of Some a \<Rightarrow> Some (a, st) | None \<Rightarrow> createEmptyJoint Z st this (int i)) = Some (a, st1)"
      "next_link st \<le> next_link st1" "\<forall>b < next_link st. lheap st1 b = lheap st b"
      "case j of Some b \<Rightarrow> a = b | None \<Rightarrow> next_link st \<le> a \<and> a < next_link st1 \<and> dummy_joint (lheap st1) this (int i) a"
    using createEmptyJoint_spec [of Z st this "int i"] by (cases j) (auto simp: dummy_joint_def)
  obtain ks st' where st': "fill_joints Z st1 this (i + 1) js = Some (ks, st')" "length ks = length js" "next_link st1 \<le> next_link st'"
      "\<forall>b < next_link st1. lheap st' b = lheap st1 b"
      "\<forall>k < length js. case js ! k of
        Some b \<Rightarrow> ks ! k = Some b
      | None \<Rightarrow> \<exists>b. ks ! k = Some b \<and> next_link st1 \<le> b \<and> b < next_link st' \<and> dummy_joint (lheap st') this (int (i + 1 + k)) b"
    using Cons.IH [of st1 "i + 1"] by blast
  have "case (j # js) ! k of
        Some b \<Rightarrow> (Some a # ks) ! k = Some b
      | None \<Rightarrow> \<exists>b. (Some a # ks) ! k = Some b \<and> next_link st \<le> b \<and> b < next_link st' \<and> dummy_joint (lheap st') this (int (i + k)) b"
    if "k < length (j # js)" for k
  proof (cases k)
    case 0
    have "dummy_joint (lheap st1) this (int i) a \<Longrightarrow> a < next_link st1 \<Longrightarrow> dummy_joint (lheap st') this (int i) a"
      using st'(4) by (simp add: dummy_joint_def)
    then show ?thesis using 0 st1(4) st'(3) by (auto split: option.splits)
  next
    case (Suc k')
    then have k: "k' < length js" using that by simp
    show ?thesis using st'(5) [rule_format, OF k] Suc st1(2) by (auto split: option.splits)
  qed
  then show ?case using st1(1-3) st'(1-4) by auto
qed simp

section \<open>\<open>updateLinkTree\<close>\<close>

lemma add_masses_total: "set as \<subseteq> dom h \<Longrightarrow> \<exists>x. add_masses h as acc = Some x"
  by (induction as arbitrary: acc) auto

lemma add_masses_cong:
  "\<forall>a \<in> set as. map_option params (h a) = map_option params (h' a) \<Longrightarrow> add_masses h as acc = add_masses h' as acc"
proof (induction as arbitrary: acc)
  case (Cons a as)
  then show ?case by (cases "h a"; cases "h' a") auto
qed simp

definition tree_indexed :: "('v, 'm) link_heap \<Rightarrow> ('v, 'm) link_heap \<Rightarrow> nat \<Rightarrow> nat list \<Rightarrow> bool" where
  "tree_indexed h h' this as \<longleftrightarrow>
     (\<forall>k < length as. h' (as ! k) = map_option (\<lambda>n. n\<lparr>lbody := Some this, lindex := int k\<rparr>) (h (as ! k)))"

lemma tree_indexed_at: "tree_indexed h h' this as \<Longrightarrow> a \<in> set as \<Longrightarrow>
  \<exists>k < length as. as ! k = a \<and> h' a = map_option (\<lambda>n. n\<lparr>lbody := Some this, lindex := int k\<rparr>) (h a)"
  by (auto simp: tree_indexed_def in_set_conv_nth)

lemma tree_indexed_skel: "tree_indexed h h' this as \<Longrightarrow> a \<in> set as \<Longrightarrow> skel h' a = skel h a"
  using tree_indexed_at [of h h' this as a] by (cases "h a") (auto simp: skel_def)

lemma tree_indexed_params: "tree_indexed h h' this as \<Longrightarrow> a \<in> set as \<Longrightarrow> map_option params (h' a) = map_option params (h a)"
  using tree_indexed_at [of h h' this as a] by (cases "h a") auto

lemma Max_insert_fold: "Max (insert (-1) (f ` set as)) = fold max (map f as) (-1::int)"
  using Max.set_eq_fold [of "-1" "map f as"] by simp

text \<open>
  What \<open>updateLinkTree\<close> leaves in the tables, given the tree and the memory before it: names and
  ids belong to the last link that has them, every other id up to the greatest to a new dummy.
\<close>

definition tables_of :: "('v, 'm) link_store \<Rightarrow> nat list \<Rightarrow> nat \<Rightarrow> ('v, 'm) Body \<Rightarrow> ('v, 'm) link_heap \<Rightarrow> bool" where
  "tables_of st as this b h \<longleftrightarrow>
     linkTraverse_m b = \<lparr>links = as, numUpwardConnections = 0\<rparr> \<and>
     nameToLinkMap b = (\<lambda>s. last_with (link_name (lheap st)) s as) \<and>
     int (numJoints b) = Max (insert (-1) (joint_id (lheap st) ` set as)) + 1 \<and>
     (\<forall>i < numJoints b. \<exists>a. Body_joint b i = Some (Some a) \<and>
        (case last_with (joint_id (lheap st)) (int i) as of
           Some c \<Rightarrow> a = c
         | None \<Rightarrow> next_link st \<le> a \<and> dummy_joint h this (int i) a))"

lemma tables_of_joint:
  "tables_of st as this b h \<Longrightarrow> i < numJoints b \<Longrightarrow> last_with (joint_id (lheap st)) (int i) as = Some c \<Longrightarrow>
     Body_joint b i = Some (Some c)"
  unfolding tables_of_def by fastforce

lemma updateLinkTree_spec:
  assumes r: "rootLink_m b = Some (lroot T)" and T: "tree_at (mheap m) p T" and d: "distinct (addrs T)"
    and old: "set (addrs T) \<subseteq> {..<next_link (lstore m)}"
  shows "\<exists>b' st. updateLinkTree Z m this b = Some (b', m\<lparr>lstore := st\<rparr>) \<and> next_link (lstore m) \<le> next_link st \<and>
    tables_of (lstore m) (addrs T) this b' (lheap st) \<and> tree_indexed (mheap m) (lheap st) this (addrs T) \<and>
    (\<forall>a < next_link (lstore m). a \<notin> set (addrs T) \<longrightarrow> lheap st a = mheap m a) \<and>
    add_masses (mheap m) (addrs T) (Fin 0) = Some (totalMass_m b') \<and>
    (isStaticModel_m b' \<longleftrightarrow> map_option ljointType (mheap m (lroot T)) = Some FIXED_JOINT \<and>
       (\<forall>a \<in> set (addrs T). joint_id (mheap m) a < 0)) \<and>
    (\<exists>tr nm js ms stc. b' = b\<lparr>linkTraverse_m := tr, nameToLinkMap := nm, jointIdToLinkArray := js, totalMass_m := ms,
       isStaticModel_m := stc\<rparr>)"
proof -
  let ?h = "mheap m" and ?as = "addrs T"
  let ?max = "fold max (map (joint_id ?h) ?as) (-1)"
  have dom: "set ?as \<subseteq> dom ?h" using tree_at_dom [OF T] .
  have find: "LinkTraverse_find ?h (lroot T) False True = Some \<lparr>links = ?as, numUpwardConnections = 0\<rparr>"
    using LinkTraverse_find_down [OF T] .
  obtain h' arr where ix: "index_links ?h this 0 ?as Map.empty (replicate (length ?as) None) (-1) =
      Some (h', \<lambda>s. last_with (link_name ?h) s ?as, arr, ?max)"
      "?max < int (length arr)" "\<forall>k. slot arr k = last_with (joint_id ?h) (int k) ?as"
      "\<forall>a. a \<notin> set ?as \<longrightarrow> h' a = ?h a" "tree_indexed ?h h' this ?as"
    using index_links_spec [OF d dom, of "-1" "replicate (length ?as) None" this 0 Map.empty]
    by (auto simp: tree_indexed_def cong: option.case_cong)
  let ?js = "resize_vec (nat (?max + 1)) None arr"
  obtain ks st where fill: "fill_joints Z ((lstore m)\<lparr>lheap := h'\<rparr>) this 0 ?js = Some (ks, st)" "length ks = length ?js"
      "next_link (lstore m) \<le> next_link st" "\<forall>a < next_link (lstore m). lheap st a = h' a"
      "\<forall>k < length ?js. case ?js ! k of
        Some a \<Rightarrow> ks ! k = Some a
      | None \<Rightarrow> \<exists>a. ks ! k = Some a \<and> next_link (lstore m) \<le> a \<and> a < next_link st \<and> dummy_joint (lheap st) this (int k) a"
    using fill_joints_spec [of Z "(lstore m)\<lparr>lheap := h'\<rparr>" this 0 ?js] by (auto cong: option.case_cong)
  have hh: "lheap st a = h' a" if "a \<in> set ?as" for a using fill(4) old that by auto
  have ixd: "tree_indexed ?h (lheap st) this ?as" using ix(5) hh by (simp add: tree_indexed_def)
  obtain x where x: "add_masses ?h ?as (Fin 0) = Some x" using add_masses_total [OF dom] by blast
  have mass: "add_masses (lheap st) ?as (Fin 0) = Some x"
    using x add_masses_cong [of ?as "lheap st" ?h] tree_indexed_params [OF ixd] by simp
  obtain n where n: "?h (lroot T) = Some n" using T by (auto simp: tree_at_def)
  obtain k where k: "lheap st (lroot T) = Some (n\<lparr>lbody := Some this, lindex := int k\<rparr>)"
    using tree_indexed_at [OF ixd lroot_in_addrs] n by auto
  define b1 where "b1 = b\<lparr>linkTraverse_m := \<lparr>links = ?as, numUpwardConnections = 0\<rparr>,
     nameToLinkMap := (\<lambda>s. last_with (link_name ?h) s ?as), jointIdToLinkArray := ks\<rparr>"
  let ?b = "b1\<lparr>totalMass_m := x, isStaticModel_m := (ljointType n = FIXED_JOINT \<and> numJoints b1 = 0)\<rparr>"
  have run: "updateLinkTree Z m this b = Some (?b, m\<lparr>lstore := st\<rparr>)"
    using r find ix(1) fill(1) mass k
    by (simp add: updateLinkTree_def b1_def Body_calcTotalMass_def calcTotalMass_def numJoints_def)
  have "?max = Max (insert (-1) (joint_id ?h ` set ?as))" using Max_insert_fold [of "joint_id ?h" ?as] by simp
  then have "numJoints b1 = nat (Max (insert (-1) (joint_id ?h ` set ?as)) + 1)"
    using fill(2) by (simp add: numJoints_def b1_def)
  moreover have "-1 \<le> Max (insert (-1) (joint_id ?h ` set ?as))" by (intro Max_ge) simp_all
  ultimately have count: "int (numJoints b1) = Max (insert (-1) (joint_id ?h ` set ?as)) + 1" by linarith
  have "numJoints b1 = 0 \<longleftrightarrow> Max (insert (-1) (joint_id ?h ` set ?as)) < 0" using count by linarith
  also have "\<dots> \<longleftrightarrow> (\<forall>a \<in> set ?as. joint_id ?h a < 0)" by simp
  finally have none: "numJoints b1 = 0 \<longleftrightarrow> (\<forall>a \<in> set ?as. joint_id ?h a < 0)" .
  have "\<exists>a. elem_at ks i = Some (Some a) \<and> (case last_with (joint_id ?h) (int i) ?as of
      Some c \<Rightarrow> a = c | None \<Rightarrow> next_link (lstore m) \<le> a \<and> dummy_joint (lheap st) this (int i) a)"
    if i: "i < length ks" for i
  proof -
    have js: "i < length ?js" using i fill(2) by simp
    then have "?js ! i = last_with (joint_id ?h) (int i) ?as" using ix(3) by simp
    then show ?thesis
      using fill(5) [rule_format, OF js] i by (cases "last_with (joint_id ?h) (int i) ?as") auto
  qed
  then have "tables_of (lstore m) ?as this ?b (lheap st)"
    using count unfolding tables_of_def by (simp add: b1_def numJoints_def Body_joint_def)
  moreover have "\<exists>tr nm js ms stc. ?b = b\<lparr>linkTraverse_m := tr, nameToLinkMap := nm, jointIdToLinkArray := js, totalMass_m := ms,
       isStaticModel_m := stc\<rparr>"
    unfolding b1_def by (intro exI) (rule refl)
  moreover have "\<forall>a < next_link (lstore m). a \<notin> set ?as \<longrightarrow> lheap st a = ?h a" using ix(4) fill(4) by simp
  moreover have "isStaticModel_m ?b \<longleftrightarrow> map_option ljointType (?h (lroot T)) = Some FIXED_JOINT \<and> (\<forall>a \<in> set ?as. joint_id ?h a < 0)"
    using n none by simp
  moreover have "add_masses ?h ?as (Fin 0) = Some (totalMass_m ?b)" using x by simp
  ultimately show ?thesis using run fill(3) ixd by blast
qed

section \<open>The sensor table\<close>

text \<open>The sensor registered for a type and an id.\<close>

definition reg :: "('v, 'm) Body \<Rightarrow> nat \<Rightarrow> nat \<Rightarrow> nat option" where
  "reg b t i = (if t < length (allSensors b) then slot (allSensors b ! t) i else None)"

text \<open>The class of a sensor is the one of its type.\<close>

fun has_class :: "nat \<Rightarrow> 'v SensorData \<Rightarrow> bool" where
  "has_class t PlainSensor \<longleftrightarrow> t = 4 \<or> t = 5 \<or> t = 7"
| "has_class t (ForceSensor f tau) \<longleftrightarrow> t = 1"
| "has_class t (RateGyroSensor w) \<longleftrightarrow> t = 2"
| "has_class t (AccelSensor dv) \<longleftrightarrow> t = 3"
| "has_class t (RangeSensor r) \<longleftrightarrow> t = 8"
| "has_class t (VisionSensor v) \<longleftrightarrow> t = 6"

text \<open>
  The invariant of the table: a registered sensor exists, has the id of its slot and the class of
  its type, and is in no other slot; a name leads to a registered sensor of that name.
\<close>

definition sensor_table :: "('v, 'm) body_mem \<Rightarrow> ('v, 'm) Body \<Rightarrow> bool" where
  "sensor_table m b \<longleftrightarrow>
     length (allSensors b) = 9 \<and>
     (\<forall>t i a. reg b t i = Some a \<longrightarrow> (\<exists>x. sensor_heap m a = Some x \<and> sid x = int i \<and> has_class t (sdata x))) \<and>
     (\<forall>t i t' i' a. reg b t i = Some a \<longrightarrow> reg b t' i' = Some a \<longrightarrow> t = t' \<and> i = i') \<and>
     (\<forall>s a. nameToSensorMap b s = Some a \<longrightarrow>
        (\<exists>x t i. sensor_heap m a = Some x \<and> sname x = s \<and> reg b t i = Some a)) \<and>
     (\<forall>a. next_sensor m \<le> a \<longrightarrow> sensor_heap m a = None)"

lemma sensor_table_name:
  "sensor_table m b \<Longrightarrow> nameToSensorMap b s = Some a \<Longrightarrow> \<exists>x t i. sensor_heap m a = Some x \<and> sname x = s \<and> reg b t i = Some a"
  unfolding sensor_table_def by blast

lemma reg_set_slots:
  "reg (set_slots b type ss) t i = (if t = nat type \<and> t < length (allSensors b) then slot ss i else reg b t i)"
  by (simp add: reg_def set_slots_def)

lemma reg_names [simp]: "reg (b\<lparr>nameToSensorMap := f\<rparr>) = reg b"
  by (intro ext) (simp add: reg_def)

lemma sensor_slots_spec:
  assumes "length (allSensors b) = 9" and "0 \<le> type" and "type < 9" and "0 \<le> jid"
  shows "\<exists>ss. sensor_slots b type jid = Some ss \<and> nat jid < length ss \<and> (\<forall>i. slot ss i = reg b (nat type) i)"
proof -
  let ?ss = "allSensors b ! nat type"
  have t: "nat type < length (allSensors b)" using assms(1-3) by simp
  have "slot (resize_vec (nat jid + 1) None ?ss) i = slot ?ss i" if "int (length ?ss) \<le> jid" for i
    using that slot_ge [of ?ss i] assms(4) by auto
  moreover have "nat jid < length ?ss" if "\<not> int (length ?ss) \<le> jid" using that assms(4) by simp
  ultimately show ?thesis using assms t by (auto simp: sensor_slots_def reg_def)
qed

lemma Sensor_create_spec:
  assumes "0 \<le> type" and "type < 9"
  shows "if type = 0 then Sensor_create Z g type = None
         else \<exists>x. Sensor_create Z g type = Some x \<and> has_class (nat type) (sdata x)"
proof -
  obtain raw f tau fov where g: "g = (raw, f, tau, fov)" by (cases g)
  consider "type = 0" | "type = 1" | "type = 2" | "type = 3" | "type = 4" | "type = 5" | "type = 6" | "type = 7" | "type = 8"
    using assms by linarith
  then show ?thesis by cases (simp_all add: Sensor_create_def g Let_def)
qed

text \<open>Registering a sensor whose slot and name are consistent keeps the invariant.\<close>

lemma sensor_table_register:
  assumes T: "sensor_table m b" and ty: "0 \<le> type" "type < 9"
    and ss: "nat jid < length ss" "\<forall>i. slot ss i = reg b (nat type) i" "0 \<le> jid"
    and a: "slot ss (nat jid) = Some a \<or> next_sensor m \<le> a" "a < k" "next_sensor m \<le> k"
    and x: "sid x = jid" "sname x = nm" "has_class (nat type) (sdata x)"
    and names: "\<forall>s c. names s = Some c \<longrightarrow> nameToSensorMap b s = Some c \<and> c \<noteq> a"
    and b': "allSensors b' = (allSensors b)[nat type := ss[nat jid := Some a]]" "nameToSensorMap b' = names(nm \<mapsto> a)"
    and m': "sensor_heap m' = (sensor_heap m)(a \<mapsto> x)" "next_sensor m' = k"
    and new: "slot ss (nat jid) = None \<or> slot ss (nat jid) = Some a"
  shows "sensor_table m' b' \<and> reg b' = (\<lambda>t i. if t = nat type \<and> i = nat jid then Some a else reg b t i)"
proof -
  have len: "length (allSensors b) = 9" using T by (simp add: sensor_table_def)
  then have r: "reg b' = (\<lambda>t i. if t = nat type \<and> i = nat jid then Some a else reg b t i)"
    using ty ss(1,2) slot_update [OF ss(1), of "Some a"] by (intro ext) (auto simp: reg_def b'(1) nth_list_update)
  have fresh: "\<forall>c. next_sensor m \<le> c \<longrightarrow> sensor_heap m c = None" using T by (simp add: sensor_table_def)
  have only: "reg b t i = Some a \<longrightarrow> t = nat type \<and> i = nat jid" for t i
  proof
    assume t: "reg b t i = Some a"
    then have "sensor_heap m a \<noteq> None" using T unfolding sensor_table_def by blast
    then have "reg b (nat type) (nat jid) = Some a" using a(1) fresh ss(2) by (metis)
    then show "t = nat type \<and> i = nat jid" using t T unfolding sensor_table_def by blast
  qed
  have was: "c = a \<and> t = nat type \<and> i = nat jid \<or> c \<noteq> a \<and> reg b t i = Some c" if "reg b' t i = Some c" for t i c
  proof (cases "t = nat type \<and> i = nat jid")
    case False
    then have "reg b t i = Some c" using that unfolding r by presburger
    then show ?thesis using only False by blast
  qed (use that in \<open>simp add: r\<close>)
  have "\<exists>y. sensor_heap m' c = Some y \<and> sid y = int i \<and> has_class t (sdata y)" if "reg b' t i = Some c" for t i c
  proof (cases "t = nat type \<and> i = nat jid")
    case True
    then show ?thesis using that x(1,3) ss(3) by (simp add: r m'(1))
  next
    case False
    then have "reg b t i = Some c" "c \<noteq> a" using was [OF that] by blast+
    then show ?thesis using T unfolding sensor_table_def by (simp add: m'(1))
  qed
  moreover have "t = t' \<and> i = i'" if "reg b' t i = Some c" "reg b' t' i' = Some c" for t i t' i' c
  proof -
    have inj: "reg b t i = Some c \<Longrightarrow> reg b t' i' = Some c \<Longrightarrow> t = t' \<and> i = i'"
      using T unfolding sensor_table_def by blast
    show ?thesis using was [OF that(1)] was [OF that(2)] inj by blast
  qed
  moreover have "\<exists>y t i. sensor_heap m' c = Some y \<and> sname y = s \<and> reg b' t i = Some c" if n: "nameToSensorMap b' s = Some c" for s c
  proof (cases "s = nm")
    case True
    then have "c = a" using n by (simp add: b'(2))
    then show ?thesis using True x(2) by (intro exI [of _ x] exI [of _ "nat type"] exI [of _ "nat jid"]) (simp add: m'(1) r)
  next
    case False
    then have "nameToSensorMap b s = Some c" "c \<noteq> a" using n names by (auto simp: b'(2))
    moreover from this obtain y t i where "sensor_heap m c = Some y" "sname y = s" "reg b t i = Some c"
      using T unfolding sensor_table_def by blast
    moreover have "reg b' t i = Some c"
    proof (cases "t = nat type \<and> i = nat jid")
      case True
      then show ?thesis using new calculation(2,5) ss(2) by simp
    next
      case False
      then show ?thesis using calculation(5) unfolding r by presburger
    qed
    ultimately show ?thesis by (intro exI [of _ y] exI [of _ t] exI [of _ i]) (simp add: m'(1))
  qed
  moreover have "\<forall>c. k \<le> c \<longrightarrow> sensor_heap m' c = None" using fresh a(2,3) by (simp add: m'(1))
  moreover have "length (allSensors b') = 9" using len by (simp add: b'(1))
  ultimately show ?thesis using r unfolding sensor_table_def m'(2) by blast
qed

lemma createSensor_out_of_range:
  "\<not> (type < 9 \<and> 0 \<le> jid) \<Longrightarrow> createSensor Z m b link type jid nm = Some (None, b, m)"
  by (auto simp: createSensor_def)

lemma reg_eqD: "allSensors b = allSensors b' \<Longrightarrow> reg b = reg b'"
  by (intro ext) (simp add: reg_def)

lemma createSensor_spec:
  assumes T: "sensor_table m b" and ty: "0 < type" "type < 9" and jid: "0 \<le> jid" and link: "mheap m link = Some n"
  shows "\<exists>a b' m' x. createSensor Z m b link type jid nm = Some (Some a, b', m') \<and> sensor_table m' b' \<and>
    reg b' = (\<lambda>t i. if t = nat type \<and> i = nat jid then Some a else reg b t i) \<and>
    a = (case reg b (nat type) (nat jid) of Some s \<Rightarrow> s | None \<Rightarrow> next_sensor m) \<and>
    nameToSensorMap b' nm = Some a \<and>
    sensor_heap m' = (sensor_heap m)(a \<mapsto> x) \<and> sid x = jid \<and> sname x = nm \<and> slink x = Some link \<and>
    next_sensor m \<le> next_sensor m' \<and> a < next_sensor m' \<and>
    (case reg b (nat type) (nat jid) of
       Some s \<Rightarrow> (\<exists>y. sensor_heap m s = Some y \<and> sdata x = sdata y)
     | None \<Rightarrow> (\<exists>y. Sensor_create Z (sensor_garbage m a) type = Some y \<and> sdata x = sdata y)) \<and>
    m' = m\<lparr>lstore := lstore m', sensor_heap := sensor_heap m', next_sensor := next_sensor m'\<rparr> \<and>
    lstore m' = (lstore m)\<lparr>lheap := (mheap m)(link \<mapsto> n\<lparr>lsensors := lsensors n @ [a]\<rparr>)\<rparr> \<and>
    b' = b\<lparr>allSensors := allSensors b', nameToSensorMap := nameToSensorMap b'\<rparr>"
proof -
  have len: "length (allSensors b) = 9" using T by (simp add: sensor_table_def)
  obtain ss where ss: "sensor_slots b type jid = Some ss" "nat jid < length ss" "\<forall>i. slot ss i = reg b (nat type) i"
    using sensor_slots_spec [OF len, of type jid] ty jid by auto
  have sl: "elem_at ss (nat jid) = Some (reg b (nat type) (nat jid))" using ss(2) ss(3) [rule_format, of "nat jid"] by (simp add: slot_def)
  have set_all: "allSensors (set_slots (set_slots b type ss) type s) = (allSensors b)[nat type := s]" for s
    by (simp add: set_slots_def)
  show ?thesis
  proof (cases "reg b (nat type) (nat jid)")
    case (Some s)
    obtain y where y: "sensor_heap m s = Some y" "has_class (nat type) (sdata y)"
      using T Some unfolding sensor_table_def by blast
    have low: "s < next_sensor m" using T y(1) unfolding sensor_table_def by (metis not_le option.distinct(1))
    let ?x = "y\<lparr>sid := jid, slink := Some link, sname := nm\<rparr>"
    let ?names = "(nameToSensorMap b)(sname y := None)"
    let ?h = "(mheap m)(link \<mapsto> n\<lparr>lsensors := lsensors n @ [s]\<rparr>)"
    let ?m = "(set_mheap m ?h)\<lparr>sensor_heap := (sensor_heap m)(s \<mapsto> ?x)\<rparr>"
    let ?b = "b\<lparr>allSensors := (allSensors b)[nat type := ss[nat jid := Some s]], nameToSensorMap := ?names(nm \<mapsto> s)\<rparr>"
    have run: "createSensor Z m b link type jid nm = Some (Some s, ?b, ?m)"
      using ty jid ss(1) sl Some y(1) link by (simp add: createSensor_def slot_sensor_def set_slots_def)
    have "t = sname y" if "nameToSensorMap b t = Some s" for t
      using sensor_table_name [OF T that] y(1) by auto
    then have names: "\<forall>t c. ?names t = Some c \<longrightarrow> nameToSensorMap b t = Some c \<and> c \<noteq> s"
      by (auto split: if_splits)
    have "sensor_table ?m ?b \<and> reg ?b = (\<lambda>t i. if t = nat type \<and> i = nat jid then Some s else reg b t i)"
      using sensor_table_register [OF T _ _ ss(2,3) jid _ low, where x = ?x and nm = nm and names = ?names and b' = ?b and m' = ?m] ty Some ss(3) y(2) names
      by simp
    then show ?thesis using run Some y(1) low
      by (intro exI [of _ s] exI [of _ ?b] exI [of _ ?m] exI [of _ ?x] conjI) simp_all
  next
    case None
    let ?a = "next_sensor m"
    obtain y where y: "Sensor_create Z (sensor_garbage m ?a) type = Some y" "has_class (nat type) (sdata y)"
      using Sensor_create_spec [of type Z "sensor_garbage m ?a"] ty by auto
    let ?x = "y\<lparr>sid := jid, slink := Some link, sname := nm\<rparr>"
    let ?names = "nameToSensorMap b"
    let ?h = "(mheap m)(link \<mapsto> n\<lparr>lsensors := lsensors n @ [?a]\<rparr>)"
    let ?m = "(set_mheap m ?h)\<lparr>sensor_heap := (sensor_heap m)(?a \<mapsto> ?x), next_sensor := ?a + 1\<rparr>"
    let ?b = "b\<lparr>allSensors := (allSensors b)[nat type := ss[nat jid := Some ?a]], nameToSensorMap := ?names(nm \<mapsto> ?a)\<rparr>"
    have run: "createSensor Z m b link type jid nm = Some (Some ?a, ?b, ?m)"
      using ty jid ss(1) sl None y(1) link by (simp add: createSensor_def slot_sensor_def set_slots_def Let_def)
    have names: "\<forall>t c. ?names t = Some c \<longrightarrow> nameToSensorMap b t = Some c \<and> c \<noteq> ?a"
      using T unfolding sensor_table_def by fastforce
    have "sensor_table ?m ?b \<and> reg ?b = (\<lambda>t i. if t = nat type \<and> i = nat jid then Some ?a else reg b t i)"
      using sensor_table_register [OF T _ _ ss(2,3) jid, where a = ?a and k = "?a + 1" and x = ?x and nm = nm and names = ?names and b' = ?b and m' = ?m] ty None ss(3) y(2) names
      by simp
    then show ?thesis using run None y(1)
      by (intro exI [of _ ?a] exI [of _ ?b] exI [of _ ?m] exI [of _ ?x] conjI) simp_all
  qed
qed

section \<open>The tables of a body\<close>

text \<open>
  C35: \<open>updateLinkTree\<close> returns for every tree of links; it leaves the pointers alone, numbers the links
  in the order of the walk and makes them the body's; the name map and the joint array become
  functions of the tree (the last link wins where two share a name or an id, an id without a link
  gets a new dummy with that very id); the mass is the sum over the links, and the body is static
  when its root is fixed and it has no joints.
\<close>

theorem updateLinkTree_tables:
  assumes "rootLink_m b = Some (lroot T)" and "tree_at (mheap m) p T" and "distinct (addrs T)"
    and "set (addrs T) \<subseteq> {..<next_link (lstore m)}"
  shows "\<exists>b' st. updateLinkTree Z m this b = Some (b', m\<lparr>lstore := st\<rparr>) \<and>
    tree_at (lheap st) p T \<and> tree_indexed (mheap m) (lheap st) this (addrs T) \<and>
    tables_of (lstore m) (addrs T) this b' (lheap st) \<and>
    (\<forall>a < next_link (lstore m). a \<notin> set (addrs T) \<longrightarrow> lheap st a = mheap m a) \<and>
    add_masses (mheap m) (addrs T) (Fin 0) = Some (totalMass_m b') \<and>
    (isStaticModel_m b' \<longleftrightarrow> map_option ljointType (mheap m (lroot T)) = Some FIXED_JOINT \<and> numJoints b' = 0)"
proof -
  obtain b' st where u: "updateLinkTree Z m this b = Some (b', m\<lparr>lstore := st\<rparr>)"
      "tables_of (lstore m) (addrs T) this b' (lheap st)" "tree_indexed (mheap m) (lheap st) this (addrs T)"
      "\<forall>a < next_link (lstore m). a \<notin> set (addrs T) \<longrightarrow> lheap st a = mheap m a"
      "add_masses (mheap m) (addrs T) (Fin 0) = Some (totalMass_m b')"
      "isStaticModel_m b' \<longleftrightarrow> map_option ljointType (mheap m (lroot T)) = Some FIXED_JOINT \<and>
         (\<forall>a \<in> set (addrs T). joint_id (mheap m) a < 0)"
    using updateLinkTree_spec [OF assms, of Z this] by blast
  have "tree_at (lheap st) p T" by (rule tree_at_cong [OF _ assms(2)]) (simp add: tree_indexed_skel [OF u(3)])
  moreover have "numJoints b' = 0 \<longleftrightarrow> (\<forall>a \<in> set (addrs T). joint_id (mheap m) a < 0)"
  proof -
    have "int (numJoints b') = Max (insert (-1) (joint_id (mheap m) ` set (addrs T))) + 1"
      using u(2) by (simp add: tables_of_def)
    then have "numJoints b' = 0 \<longleftrightarrow> Max (insert (-1) (joint_id (mheap m) ` set (addrs T))) < 0" by linarith
    then show ?thesis by simp
  qed
  ultimately show ?thesis using u by (intro exI [of _ b'] exI [of _ st]) simp
qed

lemma createSensor_negative_type:
  "type < 0 \<Longrightarrow> 0 \<le> jid \<Longrightarrow> createSensor Z m b link type jid nm = None"
  by (simp add: createSensor_def sensor_slots_def)

lemma createSensor_in_table:
  assumes "sensor_table m b" and "0 \<le> type \<or> jid < 0" and "link \<in> dom (mheap m)"
  shows "\<exists>s b' m'. createSensor Z m b link type jid nm = Some (s, b', m') \<and> sensor_table m' b' \<and>
    (if 0 < type \<and> type < 9 \<and> 0 \<le> jid then
       \<exists>a x. s = Some a \<and> sensor_heap m' a = Some x \<and> slink x = Some link \<and> sname x = nm \<and> sid x = jid \<and>
         has_class (nat type) (sdata x) \<and> nameToSensorMap b' nm = Some a \<and>
         reg b' = (\<lambda>t i. if t = nat type \<and> i = nat jid then Some a else reg b t i) \<and>
         (reg b (nat type) (nat jid) \<noteq> None \<longrightarrow> reg b (nat type) (nat jid) = s) \<and>
         (\<forall>c. c \<noteq> a \<longrightarrow> sensor_heap m' c = sensor_heap m c)
     else s = None \<and> m' = m \<and> reg b' = reg b \<and> nameToSensorMap b' = nameToSensorMap b)"
proof -
  have T: "length (allSensors b) = 9" using assms(1) by (simp add: sensor_table_def)
  consider "\<not> (type < 9 \<and> 0 \<le> jid)" | "type = 0" "0 \<le> jid" | "0 < type" "type < 9" "0 \<le> jid" using assms(2) by fastforce
  then show ?thesis
  proof cases
    case 1
    then show ?thesis using createSensor_out_of_range [OF 1] assms(1) by (intro exI [of _ None] exI [of _ b] exI [of _ m]) auto
  next
    case 2
    obtain ss where ss: "sensor_slots b type jid = Some ss" "nat jid < length ss" "\<forall>i. slot ss i = reg b (nat type) i"
      using sensor_slots_spec [OF T, of type jid] 2 by auto
    have none: "reg b 0 i = None" for i
    proof (rule ccontr)
      assume "reg b 0 i \<noteq> None"
      then obtain x :: "('a, 'b) Sensor" where "has_class 0 (sdata x)" using assms(1) unfolding sensor_table_def by blast
      then show False by (cases "sdata x") simp_all
    qed
    have sl: "elem_at ss (nat jid) = Some None"
      using ss(2) ss(3) [rule_format, of "nat jid"] none 2(1) by (simp add: slot_def)
    have r: "reg (set_slots b type ss) = reg b"
      using ss(3) by (intro ext) (auto simp: reg_set_slots)
    have "createSensor Z m b link type jid nm = Some (None, set_slots b type ss, m)"
      using 2 ss(1) sl Sensor_create_spec [of type Z "sensor_garbage m (next_sensor m)"]
      by (simp add: createSensor_def slot_sensor_def Let_def)
    moreover have "sensor_table m (set_slots b type ss)"
      using assms(1) T unfolding sensor_table_def r by (simp add: set_slots_def)
    ultimately show ?thesis using 2(1) r by (simp add: set_slots_def)
  next
    case 3
    obtain n where n: "mheap m link = Some n" using assms(3) by blast
    obtain a b' m' x where c: "createSensor Z m b link type jid nm = Some (Some a, b', m')" "sensor_table m' b'"
        "reg b' = (\<lambda>t i. if t = nat type \<and> i = nat jid then Some a else reg b t i)"
        "a = (case reg b (nat type) (nat jid) of Some s \<Rightarrow> s | None \<Rightarrow> next_sensor m)"
        "nameToSensorMap b' nm = Some a" "sensor_heap m' = (sensor_heap m)(a \<mapsto> x)" "sid x = jid" "sname x = nm" "slink x = Some link"
      using createSensor_spec [OF assms(1) 3 n, of Z nm] by blast
    have "has_class (nat type) (sdata x)"
    proof -
      have "reg b' (nat type) (nat jid) = Some a" by (simp add: c(3))
      then obtain y where "sensor_heap m' a = Some y" "has_class (nat type) (sdata y)"
        using c(2) unfolding sensor_table_def by blast
      then show ?thesis by (simp add: c(6))
    qed
    moreover have "reg b (nat type) (nat jid) \<noteq> None \<longrightarrow> reg b (nat type) (nat jid) = Some a" using c(4) by auto
    ultimately show ?thesis
      using 3 c(1-3,5-9) by (intro exI [of _ "Some a"] exI [of _ b'] exI [of _ m']) auto
  qed
qed

text \<open>
  C37: \<open>createSensor\<close> on a body whose sensor table is consistent: for a type and an id in range it
  returns a sensor that is then found under the type and the id and under the name, with the class
  of the type, on the given link, and the table stays consistent and otherwise the same. An id in
  use gives the same sensor again with the new name. A type past the last, a negative id and the
  common type 0 give the null pointer and leave table and names alone. A negative type with an id
  that is not negative is not refused: \<open>allSensors\<close> is read in front of its first element, so
  nothing is known of what follows.
\<close>

theorem createSensor_keeps_table:
  assumes "sensor_table m b" and "link \<in> dom (mheap m)"
  shows "if type < 0 \<and> 0 \<le> jid then createSensor Z m b link type jid nm = None
    else \<exists>s b' m'. createSensor Z m b link type jid nm = Some (s, b', m') \<and> sensor_table m' b' \<and>
      (if 0 < type \<and> type < 9 \<and> 0 \<le> jid then
         \<exists>a x. s = Some a \<and> sensor_heap m' a = Some x \<and> slink x = Some link \<and> sname x = nm \<and> sid x = jid \<and>
           has_class (nat type) (sdata x) \<and> nameToSensorMap b' nm = Some a \<and>
           reg b' = (\<lambda>t i. if t = nat type \<and> i = nat jid then Some a else reg b t i) \<and>
           (reg b (nat type) (nat jid) \<noteq> None \<longrightarrow> reg b (nat type) (nat jid) = s) \<and>
           (\<forall>c. c \<noteq> a \<longrightarrow> sensor_heap m' c = sensor_heap m c)
       else s = None \<and> m' = m \<and> reg b' = reg b \<and> nameToSensorMap b' = nameToSensorMap b)"
proof (cases "type < 0 \<and> 0 \<le> jid")
  case True
  then show ?thesis by (simp add: createSensor_negative_type)
next
  case False
  then have in_table: "0 \<le> type \<or> jid < 0" by linarith
  show ?thesis unfolding if_not_P [OF False] by (rule createSensor_in_table [OF assms(1) in_table assms(2)])
qed

end
