(* ===== verification/BodyCopy.thy ===== *)
theory BodyCopy
  imports BodyProofs
begin

text \<open>
  The copy constructor of \<open>Body\<close>: what the copy shares with its original, and what it loses.
\<close>

section \<open>Copying the sensors\<close>

lemma last_index_nth:
  "distinct as \<Longrightarrow> k < length as \<Longrightarrow> last_index i as (Some (as ! k)) = i + k"
proof (induction as arbitrary: i k)
  case (Cons a as)
  then show ?case by (cases k) auto
qed simp

lemma sensor_table_assign:
  assumes T: "sensor_table m b" and x: "sensor_heap m a = Some x" and y: "sid y = sid x" "sname y = sname x" "sdata y = sdata x"
  shows "sensor_table (m\<lparr>sensor_heap := (sensor_heap m)(a \<mapsto> y)\<rparr>) b"
proof -
  have "\<exists>z. ((sensor_heap m)(a \<mapsto> y)) c = Some z \<and> sid z = int i \<and> has_class t (sdata z)" if "reg b t i = Some c" for t i c
  proof -
    have "\<exists>z. sensor_heap m c = Some z \<and> sid z = int i \<and> has_class t (sdata z)"
      using T that unfolding sensor_table_def by blast
    then show ?thesis using x y by (cases "c = a") auto
  qed
  moreover have "\<exists>z t i. ((sensor_heap m)(a \<mapsto> y)) c = Some z \<and> sname z = s \<and> reg b t i = Some c"
    if "nameToSensorMap b s = Some c" for s c
    using sensor_table_name [OF T that] x y by (cases "c = a") auto
  moreover have "\<forall>c. next_sensor m \<le> c \<longrightarrow> ((sensor_heap m)(a \<mapsto> y)) c = None"
    using T x unfolding sensor_table_def by auto
  ultimately show ?thesis using T unfolding sensor_table_def by simp
qed

text \<open>The type and the id under which the sensors of a list of slots are registered.\<close>

definition sensor_key :: "(nat \<Rightarrow> ('v, 'm) Sensor option) \<Rightarrow> nat \<Rightarrow> nat" where
  "sensor_key H s = (case H s of Some x \<Rightarrow> nat (sid x) | None \<Rightarrow> 0)"

fun slot_keys :: "(nat \<Rightarrow> ('v, 'm) Sensor option) \<Rightarrow> (nat \<times> nat option) list \<Rightarrow> (nat \<times> nat) list" where
  "slot_keys H [] = []"
| "slot_keys H ((t, None) # ps) = slot_keys H ps"
| "slot_keys H ((t, Some s) # ps) = (t, sensor_key H s) # slot_keys H ps"

lemma slot_keys_mem: "(t, i) \<in> set (slot_keys H ps) \<longleftrightarrow> (\<exists>s. (t, Some s) \<in> set ps \<and> sensor_key H s = i)"
  by (induction H ps rule: slot_keys.induct) auto

text \<open>
  The copy of a sensor on the link of the same index: the members of the base class, and the data
  of a sensor that was just made.
\<close>

definition sensor_copied ::
  "('v, 'm) eigen_more \<Rightarrow> nat list \<Rightarrow> nat list \<Rightarrow> nat \<Rightarrow> ('v, 'm) Sensor \<Rightarrow> ('v, 'm) Sensor \<Rightarrow> bool" where
  "sensor_copied Z as as' t x y \<longleftrightarrow>
     sname y = sname x \<and> stype y = stype x \<and> sid y = sid x \<and> slocalR y = slocalR x \<and> slocalPos y = slocalPos x \<and>
     (\<exists>k < length as. slink x = Some (as ! k) \<and> slink y = Some (as' ! k)) \<and>
     (\<exists>g z. Sensor_create Z g (int t) = Some z \<and> sdata y = sdata z)"

definition but_sensors :: "('v, 'm) Link \<Rightarrow> ('v, 'm) Link" where
  "but_sensors n = n\<lparr>lsensors := []\<rparr>"

definition copyable :: "(nat \<Rightarrow> ('v, 'm) Sensor option) \<Rightarrow> nat \<Rightarrow> nat list \<Rightarrow> nat \<Rightarrow> nat \<Rightarrow> bool" where
  "copyable H K as t s \<longleftrightarrow>
     (\<exists>x k. H s = Some x \<and> s < K \<and> 0 < t \<and> t < 9 \<and> 0 \<le> sid x \<and> k < length as \<and> slink x = Some (as ! k))"

lemma copy_sensors_spec:
  assumes "\<forall>t s. (t, Some s) \<in> set ps \<longrightarrow> copyable H K as t s"
    and "\<forall>(t, i) \<in> set (slot_keys H ps). reg b t i = None" and "distinct (slot_keys H ps)"
    and "\<forall>s < K. sensor_heap m s = H s" and "K \<le> next_sensor m" and "sensor_table m b"
    and "distinct as" and "links (linkTraverse_m b) = as'" and "length as' = length as" and "set as' \<subseteq> dom (mheap m)"
  shows "\<exists>b' m'. copy_sensors Z as ps (b, m) = Some (b', m') \<and> sensor_table m' b' \<and>
    (\<forall>t s x. (t, Some s) \<in> set ps \<longrightarrow> H s = Some x \<longrightarrow>
       (\<exists>c y. reg b' t (sensor_key H s) = Some c \<and> K \<le> c \<and> sensor_heap m' c = Some y \<and> sensor_copied Z as as' t x y)) \<and>
    (\<forall>t i. (t, i) \<notin> set (slot_keys H ps) \<longrightarrow> reg b' t i = reg b t i) \<and>
    (\<forall>c < next_sensor m. sensor_heap m' c = sensor_heap m c) \<and> next_sensor m \<le> next_sensor m' \<and>
    (\<forall>a. map_option but_sensors (mheap m' a) = map_option but_sensors (mheap m a)) \<and>
    (\<forall>a. a \<notin> set as' \<longrightarrow> mheap m' a = mheap m a) \<and> next_link (lstore m') = next_link (lstore m) \<and>
    b' = b\<lparr>allSensors := allSensors b', nameToSensorMap := nameToSensorMap b'\<rparr>"
  using assms
proof (induction H ps arbitrary: b m rule: slot_keys.induct)
  case (1 H)
  then show ?case by (intro exI [of _ b] exI [of _ m]) simp
next
  case (2 H t ps)
  then show ?case by simp
next
  case (3 H t s ps)
  obtain x k where x: "H s = Some x" "s < K" "0 < t" "t < 9" "0 \<le> sid x" "k < length as" "slink x = Some (as ! k)"
    using "3.prems"(1) unfolding copyable_def by (metis list.set_intros(1))
  have hs: "sensor_heap m s = Some x" using x(1,2) "3.prems"(4) by simp
  have link: "Body_link b (last_index 0 as (slink x)) = Some (as' ! k)"
    using last_index_nth [OF "3.prems"(7) x(6), of 0] x(6,7) "3.prems"(8,9) by (simp add: Body_link_def link_at_def)
  have key: "sensor_key H s = nat (sid x)" using x(1) by (simp add: sensor_key_def)
  have ad: "as' ! k \<in> set as'" using x(6) "3.prems"(9) by simp
  then obtain n where n: "mheap m (as' ! k) = Some n" using "3.prems"(10) by auto
  have free: "reg b t (nat (sid x)) = None" using "3.prems"(2) key by simp
  let ?a = "next_sensor m"
  obtain b1 m1 y where c: "createSensor Z m b (as' ! k) (int t) (sid x) (sname x) = Some (Some ?a, b1, m1)"
      "sensor_table m1 b1" "reg b1 = (\<lambda>u i. if u = t \<and> i = nat (sid x) then Some ?a else reg b u i)"
      "sensor_heap m1 = (sensor_heap m)(?a \<mapsto> y)" "sid y = sid x" "sname y = sname x" "slink y = Some (as' ! k)"
      "?a < next_sensor m1" "\<exists>z. Sensor_create Z (sensor_garbage m ?a) (int t) = Some z \<and> sdata y = sdata z"
      "lstore m1 = (lstore m)\<lparr>lheap := (mheap m)(as' ! k \<mapsto> n\<lparr>lsensors := lsensors n @ [?a]\<rparr>)\<rparr>"
      "b1 = b\<lparr>allSensors := allSensors b1, nameToSensorMap := nameToSensorMap b1\<rparr>"
    using createSensor_spec [OF "3.prems"(6) _ _ x(5) n, of "int t" Z "sname x"] x(3,4) free by (simp, blast)
  let ?y = "Sensor_assign y x" and ?m1 = "m1\<lparr>sensor_heap := (sensor_heap m1)(?a \<mapsto> Sensor_assign y x)\<rparr>"
  have sy: "sensor_heap m1 ?a = Some y" by (simp add: c(4))
  have step: "copy_sensors Z as ((t, Some s) # ps) (b, m) = copy_sensors Z as ps (b1, ?m1)"
    using hs link c(1) sy by simp
  have p1: "\<forall>u r. (u, Some r) \<in> set ps \<longrightarrow> copyable H K as u r" using "3.prems"(1) by simp
  have p2: "\<forall>(u, i) \<in> set (slot_keys H ps). reg b1 u i = None"
    using "3.prems"(2,3) key by (auto simp: c(3))
  have p3: "distinct (slot_keys H ps)" using "3.prems"(3) by simp
  have p4: "\<forall>r < K. sensor_heap ?m1 r = H r" using "3.prems"(4,5) c(4) by simp
  have p5: "K \<le> next_sensor ?m1" using "3.prems"(5) c(8) by simp
  have p6: "sensor_table ?m1 b1"
    using sensor_table_assign [OF c(2) sy, of ?y] c(5,6) by (simp add: Sensor_assign_def)
  have p8: "links (linkTraverse_m b1) = as'" using "3.prems"(8) by (subst c(11)) simp
  have p10: "set as' \<subseteq> dom (mheap ?m1)" using "3.prems"(10) by (auto simp: c(10))
  obtain b' m' where r: "copy_sensors Z as ps (b1, ?m1) = Some (b', m')" "sensor_table m' b'"
      "\<forall>u r x. (u, Some r) \<in> set ps \<longrightarrow> H r = Some x \<longrightarrow>
         (\<exists>c y. reg b' u (sensor_key H r) = Some c \<and> K \<le> c \<and> sensor_heap m' c = Some y \<and> sensor_copied Z as as' u x y)"
      "\<forall>u i. (u, i) \<notin> set (slot_keys H ps) \<longrightarrow> reg b' u i = reg b1 u i"
      "\<forall>c < next_sensor ?m1. sensor_heap m' c = sensor_heap ?m1 c" "next_sensor ?m1 \<le> next_sensor m'"
      "\<forall>a. map_option but_sensors (mheap m' a) = map_option but_sensors (mheap ?m1 a)"
      "\<forall>a. a \<notin> set as' \<longrightarrow> mheap m' a = mheap ?m1 a" "next_link (lstore m') = next_link (lstore ?m1)"
      "b' = b1\<lparr>allSensors := allSensors b', nameToSensorMap := nameToSensorMap b'\<rparr>"
    using "3.IH" [OF p1 p2 p3 p4 p5 p6 "3.prems"(7) p8 "3.prems"(9) p10] by blast
  have low: "?a < next_sensor ?m1" using c(8) by simp
  have mine: "reg b' t (nat (sid x)) = Some ?a"
    using r(4) "3.prems"(3) by (simp add: key c(3))
  have here: "sensor_heap m' ?a = Some ?y" using r(5) low by (simp add: c(4))
  have copied: "sensor_copied Z as as' t x ?y"
    using x(6,7) c(7,9) by (auto simp: sensor_copied_def Sensor_assign_def simp del: split_paired_Ex)
  have "\<exists>c y. reg b' u (sensor_key H q) = Some c \<and> K \<le> c \<and> sensor_heap m' c = Some y \<and> sensor_copied Z as as' u z y"
    if "(u, Some q) \<in> set ((t, Some s) # ps)" "H q = Some z" for u q z
  proof (cases "u = t \<and> q = s")
    case True
    then show ?thesis using that(2) mine here copied key x(1) "3.prems"(5) by auto
  next
    case False
    then show ?thesis using that r(3) by auto
  qed
  moreover have "\<forall>u i. (u, i) \<notin> set (slot_keys H ((t, Some s) # ps)) \<longrightarrow> reg b' u i = reg b u i"
    using r(4) by (auto simp: key c(3))
  moreover have "\<forall>c < next_sensor m. sensor_heap m' c = sensor_heap m c" using r(5) low by (simp add: c(4))
  moreover have "\<forall>a. map_option but_sensors (mheap m' a) = map_option but_sensors (mheap m a)"
    using r(7) n by (simp add: c(10) but_sensors_def)
  moreover have "\<forall>a. a \<notin> set as' \<longrightarrow> mheap m' a = mheap m a" using r(8) ad by (auto simp: c(10))
  moreover have "b' = b\<lparr>allSensors := allSensors b', nameToSensorMap := nameToSensorMap b'\<rparr>"
    by (subst r(10), subst c(11)) simp
  ultimately show ?case
    using r(1,2,6,9) low c(10) unfolding step by (intro exI [of _ b'] exI [of _ m']) simp
qed

section \<open>The slots of a body\<close>

lemma slot_keys_append: "slot_keys H (ps @ qs) = slot_keys H ps @ slot_keys H qs"
  by (induction H ps rule: slot_keys.induct) auto

lemma row_keys:
  "\<forall>i < length ss. \<forall>s. ss ! i = Some s \<longrightarrow> sensor_key H s = i \<Longrightarrow>
     distinct (slot_keys H (map (Pair t) ss)) \<and> set (slot_keys H (map (Pair t) ss)) \<subseteq> {t} \<times> {..<length ss}"
proof (induction ss rule: rev_induct)
  case (snoc v ss)
  have "\<forall>i < length ss. \<forall>s. ss ! i = Some s \<longrightarrow> sensor_key H s = i"
    using snoc.prems by (metis butlast_snoc length_append_singleton less_SucI nth_butlast)
  moreover have "\<forall>s. v = Some s \<longrightarrow> sensor_key H s = length ss" using snoc.prems by auto
  ultimately show ?case using snoc.IH by (cases v) (auto simp: slot_keys_append)
qed simp

definition rows :: "nat option list list \<Rightarrow> nat \<Rightarrow> (nat \<times> nat option) list" where
  "rows sss n = concat (map (\<lambda>t. map (Pair t) (sss ! t)) [0..<n])"

lemma rows_keys:
  "\<forall>t < n. \<forall>i < length (sss ! t). \<forall>s. sss ! t ! i = Some s \<longrightarrow> sensor_key H s = i \<Longrightarrow>
     distinct (slot_keys H (rows sss n)) \<and> set (slot_keys H (rows sss n)) \<subseteq> {..<n} \<times> UNIV"
proof (induction n)
  case (Suc n)
  have prev: "\<forall>t < n. \<forall>i < length (sss ! t). \<forall>s. sss ! t ! i = Some s \<longrightarrow> sensor_key H s = i"
    using Suc.prems less_SucI by blast
  have r: "rows sss (Suc n) = rows sss n @ map (Pair n) (sss ! n)" by (simp add: rows_def)
  have "\<forall>i < length (sss ! n). \<forall>s. sss ! n ! i = Some s \<longrightarrow> sensor_key H s = i" using Suc.prems lessI by blast
  from row_keys [OF this, of n] show ?case
    using Suc.IH [OF prev] by (auto simp: r slot_keys_append less_Suc_eq)
qed (simp add: rows_def)

lemma typed_slots_mem: "(t, Some s) \<in> set (typed_slots b) \<longleftrightarrow> (\<exists>i. reg b t i = Some s)"
proof -
  have "(t, Some s) \<in> set (typed_slots b) \<longleftrightarrow> t < length (allSensors b) \<and> Some s \<in> set (allSensors b ! t)"
    by (auto simp: typed_slots_def)
  then show ?thesis by (simp add: reg_def slot_def in_set_conv_nth) metis
qed

lemma typed_slots_keys:
  assumes "sensor_table m b"
  shows "distinct (slot_keys (sensor_heap m) (typed_slots b))" and
    "(t, i) \<in> set (slot_keys (sensor_heap m) (typed_slots b)) \<longleftrightarrow> reg b t i \<noteq> None"
proof -
  have key: "sensor_key (sensor_heap m) s = i" if "reg b t i = Some s" for t i s
    using assms that unfolding sensor_table_def sensor_key_def by fastforce
  have "sensor_key (sensor_heap m) s = i"
    if "t < length (allSensors b)" "i < length (allSensors b ! t)" "allSensors b ! t ! i = Some s" for t i s
    by (rule key [of t]) (use that in \<open>simp add: reg_def slot_def\<close>)
  then show "distinct (slot_keys (sensor_heap m) (typed_slots b))"
    using rows_keys [of "length (allSensors b)" "allSensors b" "sensor_heap m"] by (simp add: typed_slots_def rows_def)
  show "(t, i) \<in> set (slot_keys (sensor_heap m) (typed_slots b)) \<longleftrightarrow> reg b t i \<noteq> None"
    using key by (fastforce simp: slot_keys_mem typed_slots_mem)
qed

section \<open>The copy of a body\<close>

text \<open>A body whose tables are up to date.\<close>

definition body_ok :: "('v, 'm) body_mem \<Rightarrow> ('v, 'm) Body \<Rightarrow> ltree \<Rightarrow> bool" where
  "body_ok m b T \<longleftrightarrow>
     rootLink_m b = Some (lroot T) \<and> tree_at (mheap m) None T \<and> distinct (addrs T) \<and>
     set (addrs T) \<subseteq> {..<next_link (lstore m)} \<and>
     linkTraverse_m b = \<lparr>links = addrs T, numUpwardConnections = 0\<rparr> \<and>
     (\<forall>k < length (addrs T). \<exists>n. mheap m (addrs T ! k) = Some n \<and> lindex n = int k) \<and>
     sensor_table m b \<and>
     (\<forall>t i a. reg b t i = Some a \<longrightarrow> (\<exists>x k. sensor_heap m a = Some x \<and> k < length (addrs T) \<and> slink x = Some (addrs T ! k))) \<and>
     (\<forall>j \<in> set (extraJoints b). \<exists>a \<in> set (addrs T). \<exists>c \<in> set (addrs T). ej_link j = (Some a, Some c))"

lemma body_ok_copyable:
  assumes ok: "body_ok m b T" and s: "(t, Some s) \<in> set (typed_slots b)"
  shows "copyable (sensor_heap m) (next_sensor m) (addrs T) t s"
proof -
  obtain i where i: "reg b t i = Some s" using s by (auto simp: typed_slots_mem)
  have T: "sensor_table m b" using ok by (simp add: body_ok_def)
  obtain x k where x: "sensor_heap m s = Some x" "k < length (addrs T)" "slink x = Some (addrs T ! k)"
    using ok i unfolding body_ok_def by blast
  have "sid x = int i" "has_class t (sdata x)" using T i x(1) unfolding sensor_table_def by fastforce+
  moreover have "s < next_sensor m" using T x(1) unfolding sensor_table_def by (metis not_le option.distinct(1))
  moreover have "0 < t" using \<open>has_class t (sdata x)\<close> by (cases "sdata x") auto
  moreover have "t < 9" using i T by (auto simp: reg_def sensor_table_def split: if_splits)
  ultimately show ?thesis using x unfolding copyable_def by (intro exI [of _ x] exI [of _ k]) simp
qed

lemma same_forest_length: "same_forest h ts h' ss \<Longrightarrow> length (faddrs ts) = length (faddrs ss)"
  by (induction h ts h' ss rule: same_forest.induct) auto

lemma but_sensors_sel [simp]:
  "payload (but_sensors n) = payload n" "lindex (but_sensors n) = lindex n"
  "lparent (but_sensors n) = lparent n" "lsibling (but_sensors n) = lsibling n" "lchild (but_sensors n) = lchild n"
  by (simp_all add: but_sensors_def payload_def)

lemma but_sensors_eq:
  "map_option but_sensors x = map_option but_sensors y \<Longrightarrow>
     map_option payload x = map_option payload y \<and> map_option lindex x = map_option lindex y \<and>
     map_option (\<lambda>n. (lparent n, lsibling n, lchild n)) x = map_option (\<lambda>n. (lparent n, lsibling n, lchild n)) y"
  by (cases x; cases y) (auto dest: arg_cong [of _ _ payload] arg_cong [of _ _ lindex] arg_cong [of _ _ lparent]
    arg_cong [of _ _ lsibling] arg_cong [of _ _ lchild])

lemma extra_joints_spec:
  assumes "\<forall>a \<in> set as. \<exists>n. mheap m a = Some n \<and> 0 \<le> lindex n \<and> nat (lindex n) < numLinks (linkTraverse_m b)"
  shows "\<forall>j \<in> set js. \<exists>a \<in> set as. \<exists>c \<in> set as. ej_link j = (Some a, Some c) \<Longrightarrow> copy_extra_joints m b js = Some ()"
proof (induction js)
  case (Cons j js)
  have found: "\<exists>l. extra_link m b (Some a) = Some l" if a: "a \<in> set as" for a
  proof -
    obtain n where n: "mheap m a = Some n" "0 \<le> lindex n" "nat (lindex n) < numLinks (linkTraverse_m b)"
      using bspec [OF assms a] by blast
    have "extra_link m b (Some a) = Body_link b (nat (lindex n))" using n(1,2) by (simp add: extra_link_def)
    also have "\<dots> = Some (links (linkTraverse_m b) ! nat (lindex n))"
      unfolding Body_link_def link_at_def using n(3) unfolding numLinks_def by (rule elem_at_less)
    finally show ?thesis by blast
  qed
  obtain a c where j: "a \<in> set as" "c \<in> set as" "ej_link j = (Some a, Some c)"
    using Cons.prems by (meson list.set_intros(1))
  have "copy_extra_joints m b js = Some ()" by (rule Cons.IH) (meson Cons.prems list.set_intros(2))
  moreover obtain l1 l2 where "extra_link m b (Some a) = Some l1" "extra_link m b (Some c) = Some l2"
    using found j(1,2) by blast
  ultimately show ?case using j(3) by simp
qed simp

definition old_memory_kept :: "('v, 'm) body_mem \<Rightarrow> ('v, 'm) body_mem \<Rightarrow> bool" where
  "old_memory_kept m m' \<longleftrightarrow>
     (\<forall>a < next_link (lstore m). mheap m' a = mheap m a) \<and> (\<forall>c < next_sensor m. sensor_heap m' c = sensor_heap m c)"

definition sensors_copied ::
  "('v, 'm) eigen_more \<Rightarrow> ('v, 'm) body_mem \<Rightarrow> ('v, 'm) Body \<Rightarrow> nat list \<Rightarrow> ('v, 'm) body_mem \<Rightarrow> ('v, 'm) Body \<Rightarrow> nat list \<Rightarrow> bool" where
  "sensors_copied Z m b as m' b' as' \<longleftrightarrow>
     (\<forall>t i. case reg b t i of
        None \<Rightarrow> reg b' t i = None
      | Some s \<Rightarrow> \<exists>c x y. reg b' t i = Some c \<and> next_sensor m \<le> c \<and> sensor_heap m s = Some x \<and>
          sensor_heap m' c = Some y \<and> sensor_copied Z as as' t x y)"

lemma sensors_copiedD:
  "sensors_copied Z m b as m' b' as' \<Longrightarrow> reg b t i = Some s \<Longrightarrow>
     \<exists>c x y. reg b' t i = Some c \<and> sensor_heap m s = Some x \<and> sensor_heap m' c = Some y \<and> sensor_copied Z as as' t x y"
  unfolding sensors_copied_def by (drule spec [of _ t], drule spec [of _ i]) auto

text \<open>
  The links of the copy: a copy of the tree at new addresses, indexed in the order of the walk, in a
  body without sensors and extra joints.
\<close>

lemma copy_links_spec:
  assumes r: "tree_at (mheap m) None T" and old: "set (addrs T) \<subseteq> {..<next_link (lstore m)}"
  obtains T' st b1 st1 where "Link_copy (lstore m) (lroot T) = Some (lroot T', st)"
    "setRootLink Z (m\<lparr>lstore := st\<rparr>) this ((Body_blank Z unset)\<lparr>body_name := n1, modelName := n2\<rparr>) (Some (lroot T')) =
       Some (b1, m\<lparr>lstore := st1\<rparr>)"
    "tree_at (lheap st1) None T'" "distinct (addrs T')" "set (addrs T') \<subseteq> {next_link (lstore m)..<next_link st1}"
    "same_forest (mheap m) [T] (lheap st1) [T']" "\<forall>a < next_link (lstore m). lheap st1 a = mheap m a"
    "\<forall>k < length (addrs T'). map_option lindex (lheap st1 (addrs T' ! k)) = Some (int k)"
    "rootLink_m b1 = Some (lroot T')" "linkTraverse_m b1 = \<lparr>links = addrs T', numUpwardConnections = 0\<rparr>"
    "allSensors b1 = replicate 9 []" "nameToSensorMap b1 = Map.empty" "extraJoints b1 = []"
proof -
  obtain T' st where cp: "Link_copy (lstore m) (lroot T) = Some (lroot T', st)" "tree_at (lheap st) None T'"
      "distinct (addrs T')" "set (addrs T') \<subseteq> {next_link (lstore m)..<next_link st}"
      "same_forest (mheap m) [T] (lheap st) [T']" "\<forall>a < next_link (lstore m). lheap st a = mheap m a"
    using Link_copy_spec [OF r old] by blast
  let ?as' = "addrs T'" and ?m0 = "m\<lparr>lstore := st\<rparr>"
  define b0 where "b0 = (Body_blank Z unset)\<lparr>body_name := n1, modelName := n2, rootLink_m := Some (lroot T')\<rparr>"
  have "rootLink_m b0 = Some (lroot T')" "tree_at (mheap ?m0) None T'" "set ?as' \<subseteq> {..<next_link (lstore ?m0)}"
    using cp(2,4) by (auto simp: b0_def)
  from updateLinkTree_spec [OF this(1,2) cp(3) this(3), of Z this]
  obtain b1 st1 where up: "updateLinkTree Z ?m0 this b0 = Some (b1, ?m0\<lparr>lstore := st1\<rparr>)" "next_link st \<le> next_link st1"
      "tables_of st ?as' this b1 (lheap st1)" "tree_indexed (lheap st) (lheap st1) this ?as'"
      "\<forall>a < next_link st. a \<notin> set ?as' \<longrightarrow> lheap st1 a = lheap st a"
      "\<exists>tr nm js ms stc. b1 = b0\<lparr>linkTraverse_m := tr, nameToLinkMap := nm, jointIdToLinkArray := js, totalMass_m := ms,
         isStaticModel_m := stc\<rparr>"
    by (simp, blast)
  have "lheap st1 a = mheap m a" if "a < next_link (lstore m)" for a
  proof -
    have "a \<notin> set ?as'" using cp(4) that by auto
    moreover have "a < next_link st" using that subsetD [OF cp(4) lroot_in_addrs] by simp
    ultimately show ?thesis using up(5) cp(6) that by simp
  qed
  moreover have kept: "map_option payload (lheap st1 a) = map_option payload (lheap st a) \<and> skel (lheap st1) a = skel (lheap st) a"
    if "a \<in> set ?as'" for a
    using tree_indexed_at [OF up(4) that] by (cases "lheap st a") (auto simp: payload_def skel_def)
  moreover have "map_option lindex (lheap st1 (?as' ! k)) = Some (int k)" if k: "k < length ?as'" for k
    using subsetD [OF tree_at_dom [OF cp(2)] nth_mem [OF k]] up(4) k by (auto simp: tree_indexed_def)
  moreover have "setRootLink Z ?m0 this ((Body_blank Z unset)\<lparr>body_name := n1, modelName := n2\<rparr>) (Some (lroot T')) =
      Some (b1, m\<lparr>lstore := st1\<rparr>)"
    using up(1) by (simp add: setRootLink_def delete_root_def b0_def Body_blank_def split: prod.splits)
  moreover have "rootLink_m b1 = Some (lroot T')" "allSensors b1 = replicate 9 []" "nameToSensorMap b1 = Map.empty"
      "extraJoints b1 = []"
    using up(6) by (auto simp: b0_def Body_blank_def split: prod.splits)
  moreover have "linkTraverse_m b1 = \<lparr>links = ?as', numUpwardConnections = 0\<rparr>" using up(3) by (simp add: tables_of_def)
  moreover have "tree_at (lheap st1) None T'" by (rule tree_at_cong [OF _ cp(2)]) (use kept in simp)
  moreover have "same_forest (mheap m) [T] (lheap st1) [T']" by (rule same_forest_cong [OF cp(5)]) (use kept in simp)
  moreover have "set ?as' \<subseteq> {next_link (lstore m)..<next_link st1}" using cp(4) up(2) by auto
  ultimately show thesis using that cp(1,3) by blast
qed

text \<open>The sensors of the copy, from what copying the slots one after the other leaves.\<close>

lemma sensors_copiedI:
  assumes T: "sensor_table m org"
    and "\<forall>t s x. (t, Some s) \<in> set (typed_slots org) \<longrightarrow> sensor_heap m s = Some x \<longrightarrow>
       (\<exists>c y. reg b' t (sensor_key (sensor_heap m) s) = Some c \<and> next_sensor m \<le> c \<and> sensor_heap m' c = Some y \<and>
          sensor_copied Z as as' t x y)"
    and "\<forall>t i. (t, i) \<notin> set (slot_keys (sensor_heap m) (typed_slots org)) \<longrightarrow> reg b' t i = None"
  shows "sensors_copied Z m org as m' b' as'"
  unfolding sensors_copied_def
proof (intro allI)
  fix t i
  show "case reg org t i of
      None \<Rightarrow> reg b' t i = None
    | Some s \<Rightarrow> \<exists>c x y. reg b' t i = Some c \<and> next_sensor m \<le> c \<and> sensor_heap m s = Some x \<and>
        sensor_heap m' c = Some y \<and> sensor_copied Z as as' t x y"
  proof (cases "reg org t i")
    case None
    then show ?thesis using assms(3) typed_slots_keys(2) [OF T] by simp
  next
    case (Some s)
    then obtain x where x: "sensor_heap m s = Some x" "sid x = int i" using T unfolding sensor_table_def by blast
    moreover have "(t, Some s) \<in> set (typed_slots org)" using Some typed_slots_mem by blast
    ultimately show ?thesis using assms(2) Some by (fastforce simp: sensor_key_def)
  qed
qed

lemma sensors_copied_link:
  assumes "sensors_copied Z m org as m' b' as'" and "length as' = length as" and "reg b' t i = Some a"
  shows "\<exists>y k. sensor_heap m' a = Some y \<and> k < length as' \<and> slink y = Some (as' ! k)"
proof -
  obtain x y where "sensor_heap m' a = Some y" "sensor_copied Z as as' t x y"
    using assms(1) [unfolded sensors_copied_def, rule_format, of t i] assms(3) by (auto split: option.splits)
  then show ?thesis using assms(2) unfolding sensor_copied_def by auto
qed

text \<open>The extra joints name links of the original, whose indices the copy has, too.\<close>

lemma copy_extra_joints_spec:
  assumes ok: "body_ok m org T" and old: "\<forall>a < next_link (lstore m). mheap m' a = mheap m a"
    and "links (linkTraverse_m b') = as'" and "length as' = length (addrs T)"
  shows "copy_extra_joints m' b' (extraJoints org) = Some ()"
proof (rule extra_joints_spec [of "addrs T"])
  show "\<forall>a \<in> set (addrs T). \<exists>n. mheap m' a = Some n \<and> 0 \<le> lindex n \<and> nat (lindex n) < numLinks (linkTraverse_m b')"
  proof
    fix a
    assume a: "a \<in> set (addrs T)"
    then obtain k where k: "k < length (addrs T)" "addrs T ! k = a" by (auto simp: in_set_conv_nth)
    then obtain n where n: "mheap m a = Some n" "lindex n = int k" using ok unfolding body_ok_def by blast
    have "a < next_link (lstore m)" using a ok by (auto simp: body_ok_def)
    then show "\<exists>n. mheap m' a = Some n \<and> 0 \<le> lindex n \<and> nat (lindex n) < numLinks (linkTraverse_m b')"
      using old n k(1) assms(3,4) by (simp add: numLinks_def)
  qed
  show "\<forall>j \<in> set (extraJoints org). \<exists>a \<in> set (addrs T). \<exists>c \<in> set (addrs T). ej_link j = (Some a, Some c)"
    using ok by (simp add: body_ok_def)
qed

text \<open>
  C38: The copy of a body whose tables are up to date is such a body: links, names, joints and sensors correspond one to one, at new addresses, and
  the original stays as it is; the sensors get the data of new ones, the extra joints are lost.
\<close>

theorem Body_copy_alike:
  assumes ok: "body_ok m org T"
  shows "\<exists>b' m' T'. Body_copy Z unset m this org = Some (b', m') \<and> body_ok m' b' T' \<and>
    set (addrs T') \<subseteq> {next_link (lstore m)..<next_link (lstore m')} \<and>
    same_forest (mheap m) [T] (mheap m') [T'] \<and> sensors_copied Z m org (addrs T) m' b' (addrs T') \<and>
    old_memory_kept m m' \<and> extraJoints b' = []"
proof -
  have o: "rootLink_m org = Some (lroot T)" "tree_at (mheap m) None T" "set (addrs T) \<subseteq> {..<next_link (lstore m)}"
      "distinct (addrs T)" "links (linkTraverse_m org) = addrs T" "sensor_table m org"
    using ok by (simp_all add: body_ok_def)
  obtain T' st b1 st1 where l: "Link_copy (lstore m) (lroot T) = Some (lroot T', st)"
      "setRootLink Z (m\<lparr>lstore := st\<rparr>) this ((Body_blank Z unset)\<lparr>body_name := body_name org, modelName := modelName org\<rparr>)
         (Some (lroot T')) = Some (b1, m\<lparr>lstore := st1\<rparr>)"
      "tree_at (lheap st1) None T'" "distinct (addrs T')" "set (addrs T') \<subseteq> {next_link (lstore m)..<next_link st1}"
      "same_forest (mheap m) [T] (lheap st1) [T']" "\<forall>a < next_link (lstore m). lheap st1 a = mheap m a"
      "\<forall>k < length (addrs T'). map_option lindex (lheap st1 (addrs T' ! k)) = Some (int k)"
      "rootLink_m b1 = Some (lroot T')" "linkTraverse_m b1 = \<lparr>links = addrs T', numUpwardConnections = 0\<rparr>"
      "allSensors b1 = replicate 9 []" "nameToSensorMap b1 = Map.empty" "extraJoints b1 = []"
    by (rule copy_links_spec [OF o(2,3)])
  let ?as = "addrs T" and ?as' = "addrs T'" and ?m1 = "m\<lparr>lstore := st1\<rparr>"
  define b2 where "b2 = b1\<lparr>defaultRootPosition := defaultRootPosition org, defaultRootAttitude := defaultRootAttitude org\<rparr>"
  have len: "length ?as' = length ?as" using same_forest_length [OF l(6)] by simp
  have reg2: "reg b2 t i = None" for t i using l(11) by (simp add: b2_def reg_def slot_def)
  have T2: "sensor_table ?m1 b2" using o(6) reg2 l(11,12) by (simp add: sensor_table_def b2_def)
  have a1: "\<forall>t s. (t, Some s) \<in> set (typed_slots org) \<longrightarrow> copyable (sensor_heap m) (next_sensor m) ?as t s"
    using body_ok_copyable [OF ok] by blast
  have a2: "\<forall>(t, i) \<in> set (slot_keys (sensor_heap m) (typed_slots org)). reg b2 t i = None" using reg2 by auto
  obtain b' m' where c: "copy_sensors Z ?as (typed_slots org) (b2, ?m1) = Some (b', m')" "sensor_table m' b'"
    "\<forall>t s x. (t, Some s) \<in> set (typed_slots org) \<longrightarrow> sensor_heap m s = Some x \<longrightarrow>
       (\<exists>c y. reg b' t (sensor_key (sensor_heap m) s) = Some c \<and> next_sensor m \<le> c \<and> sensor_heap m' c = Some y \<and>
          sensor_copied Z ?as ?as' t x y)"
    "\<forall>t i. (t, i) \<notin> set (slot_keys (sensor_heap m) (typed_slots org)) \<longrightarrow> reg b' t i = reg b2 t i"
    "\<forall>c < next_sensor m. sensor_heap m' c = sensor_heap m c" "next_sensor m \<le> next_sensor m'"
    "\<forall>a. map_option but_sensors (mheap m' a) = map_option but_sensors (lheap st1 a)"
    "\<forall>a. a \<notin> set ?as' \<longrightarrow> mheap m' a = lheap st1 a" "next_link (lstore m') = next_link st1"
    "b' = b2\<lparr>allSensors := allSensors b', nameToSensorMap := nameToSensorMap b'\<rparr>"
    using copy_sensors_spec [OF a1 a2 typed_slots_keys(1) [OF o(6)] _ _ T2 o(4), of ?as' Z] len tree_at_dom [OF l(3)] l(10)
    by (simp add: b2_def, blast)
  have b': "linkTraverse_m b' = \<lparr>links = ?as', numUpwardConnections = 0\<rparr>" "extraJoints b' = []" "rootLink_m b' = Some (lroot T')"
    using l(9,10,13) by (subst c(10), simp add: b2_def)+
  have sensors: "sensors_copied Z m org ?as m' b' ?as'"
    by (rule sensors_copiedI [OF o(6) c(3)]) (use c(4) reg2 in simp)
  have same: "map_option payload (mheap m' a) = map_option payload (lheap st1 a) \<and> skel (mheap m') a = skel (lheap st1) a" for a
    using but_sensors_eq [OF c(7) [rule_format, of a]] by (simp add: skel_def)
  have "\<exists>n. mheap m' (?as' ! k) = Some n \<and> lindex n = int k" if "k < length ?as'" for k
    using but_sensors_eq [OF c(7) [rule_format, of "?as' ! k"]] l(8) that by auto
  moreover have "tree_at (mheap m') None T'" by (rule tree_at_cong [OF _ l(3)]) (use same in simp)
  moreover have "set ?as' \<subseteq> {..<next_link (lstore m')}" using l(5) c(9) by auto
  ultimately have "body_ok m' b' T'"
    using sensors_copied_link [OF sensors len] b' l(4) c(2) unfolding body_ok_def by simp
  moreover have old: "\<forall>a < next_link (lstore m). mheap m' a = mheap m a"
    using c(8) l(5,7) by (metis atLeastLessThan_iff leD subsetD)
  moreover have "Body_copy Z unset m this org = Some (b', m')"
    using o(1,5) l(1,2) c(1) copy_extra_joints_spec [OF ok old, of b' ?as'] b'(1) len by (simp add: Body_copy_def b2_def)
  moreover have "same_forest (mheap m) [T] (mheap m') [T']" by (rule same_forest_cong [OF l(6)]) (use same in simp)
  ultimately show ?thesis using sensors b'(2) l(5) c(5,9) by (auto simp: old_memory_kept_def)
qed

end
