(* ===== verification/BodyDynamics.thy ===== *)
theory BodyDynamics
  imports BodyProofs
begin

text \<open>
  The loops of \<open>Body.cpp\<close> over all links (initial configuration, centre of mass, momentum) and its
  recursive inverse dynamics, over the arithmetic of \<open>eigen\<close> and \<open>eigen_more\<close>. What is shown of the
  inverse dynamics here is that it makes two passes: the velocities and accelerations from the
  root to the leaves, then the torque of every joint from the sum of the forces of its subtree.
  That these are the equations of motion is shown in \<open>NewtonEuler\<close>.
\<close>

section \<open>Loops over the links\<close>

definition zero_joint :: "('v, 'm) Link \<Rightarrow> ('v, 'm) Link" where
  "zero_joint n = n\<lparr>motion := (motion n)\<lparr>lu := Fin 0, lq := Fin 0, ldq := Fin 0, lddq := Fin 0\<rparr>\<rparr>"

definition zero_force :: "('v, 'm) eigen_more \<Rightarrow> ('v, 'm) Link \<Rightarrow> ('v, 'm) Link" where
  "zero_force Z n = n\<lparr>motion := (motion n)\<lparr>lfext := vzero Z, ltauext := vzero Z\<rparr>\<rparr>"

text \<open>A loop over links that changes each one by itself.\<close>

fun each_link :: "(('v, 'm) Link \<Rightarrow> ('v, 'm) Link) \<Rightarrow> ('v, 'm) link_heap \<Rightarrow> nat list \<Rightarrow> ('v, 'm) link_heap option" where
  "each_link f h [] = Some h"
| "each_link f h (a # as) = do { n \<leftarrow> h a; each_link f (h(a \<mapsto> f n)) as }"

definition clearExternalForces :: "('v, 'm) eigen_more \<Rightarrow> ('v, 'm) link_heap \<Rightarrow> ('v, 'm) Body \<Rightarrow> ('v, 'm) link_heap option" where
  "clearExternalForces Z h b = each_link (zero_force Z) h (links (linkTraverse_m b))"

definition setAttitude :: "('v, 'm) eigen \<Rightarrow> ('v, 'm) Link \<Rightarrow> 'm \<Rightarrow> ('v, 'm) Link" where
  "setAttitude E n A = n\<lparr>motion := (motion n)\<lparr>lR := mmul E A (transposed E (lRs (params n)))\<rparr>\<rparr>"

definition attitude :: "('v, 'm) eigen \<Rightarrow> ('v, 'm) Link \<Rightarrow> 'm" where
  "attitude E n = mmul E (lR (motion n)) (lRs (params n))"

definition initializeConfiguration ::
  "('v, 'm) eigen \<Rightarrow> ('v, 'm) eigen_more \<Rightarrow> ('v, 'm) link_heap \<Rightarrow> ('v, 'm) Body \<Rightarrow> ('v, 'm) link_heap option" where
  "initializeConfiguration E Z h b =
     do { r \<leftarrow> rootLink_m b;
          n \<leftarrow> h r;
          let n1 = setAttitude E (n\<lparr>motion := (motion n)\<lparr>lp := defaultRootPosition b\<rparr>\<rparr>) (defaultRootAttitude b);
              n2 = n1\<lparr>motion := (motion n1)\<lparr>lv := vzero Z, ldv := vzero Z, lw := vzero Z, ldw := vzero Z\<rparr>,
                      work := (work n1)\<lparr>lvo := vzero Z, ldvo := vzero Z\<rparr>\<rparr>
          in do { h1 \<leftarrow> each_link zero_joint (h(r \<mapsto> n2)) (links (linkTraverse_m b));
                  h2 \<leftarrow> calcForwardKinematics E True True h1 (linkTraverse_m b);
                  clearExternalForces Z h2 b } }"

fun sum_CM ::
  "('v, 'm) eigen \<Rightarrow> ('v, 'm) link_heap \<Rightarrow> nat list \<Rightarrow> 'v \<Rightarrow> double \<Rightarrow> (('v, 'm) link_heap \<times> 'v \<times> double) option" where
  "sum_CM E h [] mc mass = Some (h, mc, mass)"
| "sum_CM E h (a # as) mc mass =
     do { n \<leftarrow> h a;
          let c = vadd E (lp (motion n)) (mvec E (lR (motion n)) (lc (params n)))
          in sum_CM E (h(a \<mapsto> n\<lparr>work := (work n)\<lparr>lwc := c\<rparr>\<rparr>)) as (vadd E mc (vscale E (lm (params n)) c))
               (dadd mass (lm (params n))) }"

definition calcCM ::
  "('v, 'm) eigen \<Rightarrow> ('v, 'm) eigen_more \<Rightarrow> ('v, 'm) link_heap \<Rightarrow> ('v, 'm) Body \<Rightarrow>
     ('v \<times> ('v, 'm) Body \<times> ('v, 'm) link_heap) option" where
  "calcCM E Z h b =
     do { (h1, mc, mass) \<leftarrow> sum_CM E h (links (linkTraverse_m b)) (vzero Z) (Fin 0);
          Some (vdivide Z mc mass, b\<lparr>totalMass_m := mass\<rparr>, h1) }"

text \<open>The linear and the angular momentum of one link.\<close>

definition link_momentum :: "('v, 'm) eigen \<Rightarrow> ('v, 'm) Link \<Rightarrow> 'v \<times> 'v" where
  "link_momentum E n =
     (let M = motion n; R = lR M;
          dwc = vadd E (lv M) (vcross E (lw M) (mvec E R (lc (params n))));
          P = vscale E (lm (params n)) dwc;
          Llocal = mvec E (mmul E (lI (params n)) (transposed E R)) (lw M)
      in (P, vadd E (vcross E (lwc (work n)) P) (mvec E R Llocal)))"

fun sum_momentum :: "('v, 'm) eigen \<Rightarrow> ('v, 'm) link_heap \<Rightarrow> nat list \<Rightarrow> 'v \<times> 'v \<Rightarrow> ('v \<times> 'v) option" where
  "sum_momentum E h [] PL = Some PL"
| "sum_momentum E h (a # as) PL =
     do { n \<leftarrow> h a;
          let (P, L) = link_momentum E n
          in sum_momentum E h as (vadd E (fst PL) P, vadd E (snd PL) L) }"

definition calcTotalMomentum ::
  "('v, 'm) eigen \<Rightarrow> ('v, 'm) eigen_more \<Rightarrow> ('v, 'm) link_heap \<Rightarrow> ('v, 'm) Body \<Rightarrow> ('v \<times> 'v) option" where
  "calcTotalMomentum E Z h b = sum_momentum E h (links (linkTraverse_m b)) (vzero Z, vzero Z)"

section \<open>Inverse dynamics\<close>

text \<open>The first part of \<open>calcInverseDynamics\<close>: velocity and acceleration from those of the parent \<open>P\<close>.\<close>

definition id_motion :: "('v, 'm) eigen \<Rightarrow> ('v, 'm) eigen_more \<Rightarrow> ('v, 'm) Link \<Rightarrow> ('v, 'm) Link \<Rightarrow> ('v, 'm) Link" where
  "id_motion E Z P n =
     (let M = motion n; PM = motion P; PW = work P;
          sw = (if ljointType n \<noteq> FIXED_JOINT then mvec E (lR PM) (la (params n)) else vzero Z);
          sv = (if ljointType n \<noteq> FIXED_JOINT then vcross E (lp M) sw else vzero Z);
          dsv = vadd E (vcross E (lw PM) sv) (vcross E (lvo PW) sw);
          dsw = vcross E (lw PM) sw
      in n\<lparr>motion := M\<lparr>lw := vadd E (lw PM) (vscale E (ldq M) sw),
                       ldw := vadd E (vadd E (ldw PM) (vscale E (ldq M) dsw)) (vscale E (lddq M) sw)\<rparr>,
           work := (work n)\<lparr>lvo := vadd E (lvo PW) (vscale E (ldq M) sv),
                            ldvo := vadd E (vadd E (ldvo PW) (vscale E (ldq M) dsv)) (vscale E (lddq M) sv),
                            lsw := sw, lsv := sv\<rparr>\<rparr>)"

text \<open>The force and the moment that the motion of the link itself takes.\<close>

definition id_force :: "('v, 'm) eigen \<Rightarrow> ('v, 'm) eigen_more \<Rightarrow> ('v, 'm) Link \<Rightarrow> 'v \<times> 'v" where
  "id_force E Z n =
     (let M = motion n; W = work n; K = params n; R = lR M;
          c = vadd E (mvec E R (lc K)) (lp M);
          c_hat = hat Z c;
          I = madd Z (mmul E (mmul E R (lI K)) (transposed E R)) (mmul E (mscale Z (lm K) c_hat) (transposed E c_hat));
          P = vscale E (lm K) (vadd E (lvo W) (vcross E (lw M) c));
          L = vadd E (vscale E (lm K) (vcross E c (lvo W))) (mvec E I (lw M))
      in (vadd E (vscale E (lm K) (vadd E (ldvo W) (vcross E (ldw M) c))) (vcross E (lw M) P),
          vadd E (vadd E (vadd E (vscale E (lm K) (vcross E c (ldvo W))) (mvec E I (ldw M))) (vcross E (lvo W) P))
            (vcross E (lw M) L)))"

definition add_pair :: "('v, 'm) eigen \<Rightarrow> 'v \<times> 'v \<Rightarrow> 'v \<times> 'v \<Rightarrow> 'v \<times> 'v" where
  "add_pair E x y = (vadd E (fst x) (fst y), vadd E (snd x) (snd y))"

definition id_torque :: "('v, 'm) eigen_more \<Rightarrow> 'v \<times> 'v \<Rightarrow> ('v, 'm) Link \<Rightarrow> ('v, 'm) Link" where
  "id_torque Z ft n =
     n\<lparr>motion := (motion n)\<lparr>lu := dadd (vdot Z (lsv (work n)) (fst ft)) (vdot Z (lsw (work n)) (snd ft))\<rparr>\<rparr>"

partial_function (option) calcInverseDynamics ::
  "('v, 'm) eigen \<Rightarrow> ('v, 'm) eigen_more \<Rightarrow> ('v, 'm) link_heap \<Rightarrow> nat \<Rightarrow> (('v, 'm) link_heap \<times> 'v \<times> 'v) option" where
  "calcInverseDynamics E Z h a =
     do { n \<leftarrow> h a;
          n1 \<leftarrow> (case lparent n of None \<Rightarrow> Some n | Some p \<Rightarrow> do { P \<leftarrow> h p; Some (id_motion E Z P n) });
          let h1 = h(a \<mapsto> n1); own = id_force E Z n1
          in do { (h2, ft) \<leftarrow> (case lchild n1 of
                     None \<Rightarrow> Some (h1, own)
                   | Some c \<Rightarrow> do { (h', ftc) \<leftarrow> calcInverseDynamics E Z h1 c; Some (h', add_pair E own ftc) });
                  n2 \<leftarrow> h2 a;
                  let h3 = h2(a \<mapsto> id_torque Z ft n2)
                  in case lsibling n2 of
                       None \<Rightarrow> Some (h3, ft)
                     | Some s \<Rightarrow> do { (h', fts) \<leftarrow> calcInverseDynamics E Z h3 s; Some (h', add_pair E ft fts) } } }"

declare calcInverseDynamics.simps [code]

section \<open>The two passes of the Newton-Euler method\<close>

text \<open>The sum of the forces of a subtree and of a forest, from the motions in the store \<open>h\<close>.\<close>

definition own_force :: "('v, 'm) eigen \<Rightarrow> ('v, 'm) eigen_more \<Rightarrow> ('v, 'm) link_heap \<Rightarrow> nat \<Rightarrow> 'v \<times> 'v" where
  "own_force E Z h a = (case h a of Some n \<Rightarrow> id_force E Z n)"

definition add_some :: "('v, 'm) eigen \<Rightarrow> 'v \<times> 'v \<Rightarrow> ('v \<times> 'v) option \<Rightarrow> 'v \<times> 'v" where
  "add_some E x y = (case y of None \<Rightarrow> x | Some y \<Rightarrow> add_pair E x y)"

fun forest_force :: "('v, 'm) eigen \<Rightarrow> ('v, 'm) eigen_more \<Rightarrow> ('v, 'm) link_heap \<Rightarrow> ltree list \<Rightarrow> ('v \<times> 'v) option" where
  "forest_force E Z h [] = None"
| "forest_force E Z h (LTree a us # ts) =
     Some (add_some E (add_some E (own_force E Z h a) (forest_force E Z h us)) (forest_force E Z h ts))"

definition tree_force :: "('v, 'm) eigen \<Rightarrow> ('v, 'm) eigen_more \<Rightarrow> ('v, 'm) link_heap \<Rightarrow> ltree \<Rightarrow> 'v \<times> 'v" where
  "tree_force E Z h t = add_some E (own_force E Z h (lroot t)) (forest_force E Z h (lkids t))"

text \<open>
  The store \<open>h'\<close> holds, for the forest below \<open>r\<close>, the motions of the outward pass over the links of
  \<open>h\<close> and the torques of the inward pass.
\<close>

fun newton_euler ::
  "('v, 'm) eigen \<Rightarrow> ('v, 'm) eigen_more \<Rightarrow> ('v, 'm) link_heap \<Rightarrow> ('v, 'm) link_heap \<Rightarrow> nat \<Rightarrow> ltree list \<Rightarrow> bool" where
  "newton_euler E Z h h' r [] \<longleftrightarrow> True"
| "newton_euler E Z h h' r (LTree a us # ts) \<longleftrightarrow>
     (\<exists>n P. h a = Some n \<and> h' r = Some P \<and>
        h' a = Some (id_torque Z (tree_force E Z h' (LTree a us)) (id_motion E Z P n))) \<and>
     newton_euler E Z h h' a us \<and> newton_euler E Z h h' r ts"

section \<open>What the recursion does\<close>

definition but_u :: "('v, 'm) Link \<Rightarrow> ('v, 'm) Link" where
  "but_u n = n\<lparr>motion := (motion n)\<lparr>lu := Fin 0\<rparr>\<rparr>"

lemma but_u_sel [simp]:
  "lparent (but_u n) = lparent n" "lsibling (but_u n) = lsibling n" "lchild (but_u n) = lchild n"
  "id_force E Z (but_u n) = id_force E Z n" "id_motion E Z (but_u P) n = id_motion E Z P n"
  "but_u (id_torque Z ft n) = but_u n"
  by (simp_all add: but_u_def id_force_def id_motion_def id_torque_def Let_def)

lemma id_motion_sel [simp]:
  "lparent (id_motion E Z P n) = lparent n" "lsibling (id_motion E Z P n) = lsibling n" "lchild (id_motion E Z P n) = lchild n"
  by (simp_all add: id_motion_def Let_def)

lemma id_torque_sel [simp]:
  "lparent (id_torque Z ft n) = lparent n" "lsibling (id_torque Z ft n) = lsibling n" "lchild (id_torque Z ft n) = lchild n"
  "id_force E Z (id_torque Z ft n) = id_force E Z n" "id_motion E Z (id_torque Z ft P) n = id_motion E Z P n"
  by (simp_all add: id_torque_def id_force_def id_motion_def Let_def)

lemma but_uD: "map_option but_u x = map_option but_u y \<Longrightarrow> x = Some n \<Longrightarrow>
  \<exists>n'. y = Some n' \<and> id_force E Z n' = id_force E Z n \<and> id_motion E Z n' m = id_motion E Z n m"
  by (cases y) (auto, metis but_u_sel(4), metis but_u_sel(5))

lemma forest_force_cong:
  "\<forall>a \<in> set (faddrs ts). own_force E Z h a = own_force E Z h' a \<Longrightarrow> forest_force E Z h ts = forest_force E Z h' ts"
  by (induction ts rule: faddrs.induct) auto

lemma newton_euler_cong:
  "newton_euler E Z h h' r ts \<Longrightarrow> \<forall>a \<in> set (faddrs ts). h1 a = h a \<and> h1' a = h' a \<Longrightarrow>
     map_option but_u (h1' r) = map_option but_u (h' r) \<Longrightarrow> newton_euler E Z h1 h1' r ts"
proof (induction ts arbitrary: r rule: faddrs.induct)
  case (2 a us ts)
  obtain n P where n: "h a = Some n" "h' r = Some P"
      "h' a = Some (id_torque Z (tree_force E Z h' (LTree a us)) (id_motion E Z P n))"
    using "2.prems"(1) by auto
  obtain P' where P': "h1' r = Some P'" "id_motion E Z P' n = id_motion E Z P n"
    using but_uD [OF "2.prems"(3) [symmetric] n(2)] by blast
  have "tree_force E Z h1' (LTree a us) = tree_force E Z h' (LTree a us)"
    using "2.prems"(2) forest_force_cong [of us E Z h1' h'] by (simp add: tree_force_def own_force_def)
  then have "\<exists>n P. h1 a = Some n \<and> h1' r = Some P \<and>
      h1' a = Some (id_torque Z (tree_force E Z h1' (LTree a us)) (id_motion E Z P n))"
    using n P' "2.prems"(2) by auto
  moreover have "newton_euler E Z h1 h1' a us" using "2.IH"(1) [of a] "2.prems"(1,2) by simp
  moreover have "newton_euler E Z h1 h1' r ts" using "2.IH"(2) [of r] "2.prems" by simp
  ultimately show ?case by simp
qed simp

lemma skel_motion: "h a = Some n \<Longrightarrow> lparent n' = lparent n \<Longrightarrow> lsibling n' = lsibling n \<Longrightarrow> lchild n' = lchild n \<Longrightarrow>
  skel (h(a \<mapsto> n')) b = skel h b"
  by (simp add: skel_def)

lemma calcInverseDynamics_forest:
  "forest_seg h r (Some (lroot t)) (t # ts) None \<Longrightarrow> distinct (r # faddrs (t # ts)) \<Longrightarrow> h r = Some P \<Longrightarrow>
     \<exists>h' ft. calcInverseDynamics E Z h (lroot t) = Some (h', ft) \<and> forest_force E Z h' (t # ts) = Some ft \<and>
       newton_euler E Z h h' r (t # ts) \<and> (\<forall>a. a \<notin> set (faddrs (t # ts)) \<longrightarrow> h' a = h a) \<and> (\<forall>a. skel h' a = skel h a)"
proof (induction "t # ts" arbitrary: h r t ts P rule: faddrs.induct)
  case (2 a us ts)
  let ?t = "LTree a us"
  obtain n where n: "h a = Some n" "lparent n = Some r" "forest_seg h a (lchild n) us None" "forest_seg h r (lsibling n) ts None"
    using "2.prems"(1) by auto
  let ?n = "id_motion E Z P n"
  let ?h = "h(a \<mapsto> ?n)"
  have sk1: "skel ?h b = skel h b" for b using n(1) by (rule skel_motion) simp_all
  have s1: "forest_seg ?h a (lchild n) us None" by (rule forest_seg_cong [OF _ n(3)]) (simp add: sk1)
  have d: "distinct (a # faddrs us)" "distinct (r # faddrs ts)" "set (faddrs us) \<inter> set (faddrs ts) = {}" "a \<noteq> r"
      "a \<notin> set (faddrs ts)" "r \<notin> set (faddrs us)"
    using "2.prems"(2) by auto
  obtain h2 where h2: "(case lchild n of None \<Rightarrow> Some (?h, id_force E Z ?n)
        | Some c \<Rightarrow> do { (h', ftc) \<leftarrow> calcInverseDynamics E Z ?h c; Some (h', add_pair E (id_force E Z ?n) ftc) }) =
      Some (h2, add_some E (id_force E Z ?n) (forest_force E Z h2 us))"
      "newton_euler E Z ?h h2 a us" "\<forall>b. b \<notin> set (faddrs us) \<longrightarrow> h2 b = ?h b" "\<forall>b. skel h2 b = skel ?h b"
  proof (cases us)
    case Nil
    then show ?thesis using that [of ?h] s1 by (simp add: add_some_def)
  next
    case (Cons u vs)
    have c: "lchild n = Some (lroot u)" using s1 Cons by (cases u) simp
    have f: "forest_seg ?h a (Some (lroot u)) (u # vs) None" "distinct (a # faddrs (u # vs))" "?h a = Some ?n"
      using s1 d(1) c unfolding Cons by simp_all
    obtain h' ft where "calcInverseDynamics E Z ?h (lroot u) = Some (h', ft)" "forest_force E Z h' (u # vs) = Some ft"
        "newton_euler E Z ?h h' a (u # vs)" "\<forall>b. b \<notin> set (faddrs (u # vs)) \<longrightarrow> h' b = ?h b" "\<forall>b. skel h' b = skel ?h b"
      using "2.hyps"(1) [OF Cons f] by blast
    then show ?thesis using that [of h'] c unfolding Cons by (simp add: add_some_def)
  qed
  let ?ft = "add_some E (id_force E Z ?n) (forest_force E Z h2 us)"
  have h2a: "h2 a = Some ?n" using h2(3) d(1) by simp
  let ?h3 = "h2(a \<mapsto> id_torque Z ?ft ?n)"
  have sk3: "skel ?h3 b = skel h b" for b using skel_motion [of h2 a ?n "id_torque Z ?ft ?n" b] h2a h2(4) sk1 by simp
  have s3: "forest_seg ?h3 r (lsibling n) ts None" by (rule forest_seg_cong [OF _ n(4)]) (simp add: sk3)
  have r3: "?h3 r = Some P" using h2(3) d(4,6) "2.prems"(3) by simp
  obtain h4 where h4: "(case lsibling n of None \<Rightarrow> Some (?h3, ?ft)
        | Some s \<Rightarrow> do { (h', fts) \<leftarrow> calcInverseDynamics E Z ?h3 s; Some (h', add_pair E ?ft fts) }) =
      Some (h4, add_some E ?ft (forest_force E Z h4 ts))"
      "newton_euler E Z ?h3 h4 r ts" "\<forall>b. b \<notin> set (faddrs ts) \<longrightarrow> h4 b = ?h3 b" "\<forall>b. skel h4 b = skel ?h3 b"
  proof (cases ts)
    case Nil
    then show ?thesis using that [of ?h3] s3 by (simp add: add_some_def)
  next
    case (Cons u vs)
    have c: "lsibling n = Some (lroot u)" using s3 Cons by (cases u) simp
    have f: "forest_seg ?h3 r (Some (lroot u)) (u # vs) None" "distinct (r # faddrs (u # vs))"
      using s3 d(2) c unfolding Cons by simp_all
    obtain h' ft where "calcInverseDynamics E Z ?h3 (lroot u) = Some (h', ft)" "forest_force E Z h' (u # vs) = Some ft"
        "newton_euler E Z ?h3 h' r (u # vs)" "\<forall>b. b \<notin> set (faddrs (u # vs)) \<longrightarrow> h' b = ?h3 b" "\<forall>b. skel h' b = skel ?h3 b"
      using "2.hyps"(2) [OF Cons f r3] by blast
    then show ?thesis using that [of h'] c unfolding Cons by (simp add: add_some_def)
  qed
  have old: "h4 b = h2 b" if "b \<in> set (faddrs us)" for b using h4(3) d(1,3) that by auto
  have a4: "h4 a = Some (id_torque Z ?ft ?n)" using h4(3) d(5) by simp
  have us4: "forest_force E Z h4 us = forest_force E Z h2 us"
    by (rule forest_force_cong) (simp add: own_force_def old)
  have sub: "tree_force E Z h4 ?t = ?ft" using a4 us4 by (simp add: tree_force_def own_force_def)
  have "calcInverseDynamics E Z h a = Some (h4, add_some E ?ft (forest_force E Z h4 ts))"
    using n(1,2) "2.prems"(3) h2(1) h2a h4(1) by (subst calcInverseDynamics.simps) simp
  moreover have "forest_force E Z h4 (?t # ts) = Some (add_some E ?ft (forest_force E Z h4 ts))"
    using sub by (simp add: tree_force_def)
  moreover have "newton_euler E Z h h4 r (?t # ts)"
  proof -
    have "newton_euler E Z h h4 a us"
      by (rule newton_euler_cong [OF h2(2)]) (use old d(1) a4 h2a in auto)
    moreover have "newton_euler E Z h h4 r ts"
    proof (rule newton_euler_cong [OF h4(2)])
      have "h b = ?h3 b" if "b \<in> set (faddrs ts)" for b using that d(3,5) h2(3) by auto
      then show "\<forall>b \<in> set (faddrs ts). h b = ?h3 b \<and> h4 b = h4 b" by simp
    qed simp
    moreover have "h4 r = Some P" using h4(3) d(2) r3 by simp
    ultimately show ?thesis using n(1) a4 sub by simp
  qed
  moreover have "\<forall>b. b \<notin> set (faddrs (?t # ts)) \<longrightarrow> h4 b = h b" using h4(3) h2(3) by simp
  moreover have "\<forall>b. skel h4 b = skel h b" using h4(4) sk3 by simp
  ultimately show ?case by auto
qed

text \<open>
  From the root of a tree: the links below the root get the motions of the outward pass, the
  torque of every link is that of the sum of the forces of its subtree with the motions of the
  result, and the result is that sum for the whole tree. Everything else stays.
\<close>

lemma calcInverseDynamics_passes:
  assumes T: "tree_at h None T" and d: "distinct (addrs T)" and s: "map_option lsibling (h (lroot T)) = Some None"
  shows "\<exists>h'. calcInverseDynamics E Z h (lroot T) = Some (h', tree_force E Z h' T) \<and>
    h' (lroot T) = map_option (id_torque Z (tree_force E Z h' T)) (h (lroot T)) \<and>
    newton_euler E Z h h' (lroot T) (lkids T) \<and>
    (\<forall>a. a \<notin> set (addrs T) \<longrightarrow> h' a = h a) \<and> tree_at h' None T"
proof -
  let ?a = "lroot T"
  obtain n where n: "h ?a = Some n" "lparent n = None" "lsibling n = None" "forest_seg h ?a (lchild n) (lkids T) None"
    using T s by (auto simp: tree_at_def)
  have dk: "distinct (?a # faddrs (lkids T))" using d by (simp add: addrs_eq)
  obtain h2 where h2: "(case lchild n of None \<Rightarrow> Some (h, id_force E Z n)
        | Some c \<Rightarrow> do { (h', ftc) \<leftarrow> calcInverseDynamics E Z h c; Some (h', add_pair E (id_force E Z n) ftc) }) =
      Some (h2, add_some E (id_force E Z n) (forest_force E Z h2 (lkids T)))"
      "newton_euler E Z h h2 ?a (lkids T)" "\<forall>b. b \<notin> set (faddrs (lkids T)) \<longrightarrow> h2 b = h b" "\<forall>b. skel h2 b = skel h b"
  proof (cases "lkids T")
    case Nil
    then show ?thesis using that [of h] n(4) by (simp add: add_some_def)
  next
    case (Cons u vs)
    have c: "lchild n = Some (lroot u)" using n(4) Cons by (cases u) simp
    have f: "forest_seg h ?a (Some (lroot u)) (u # vs) None" "distinct (?a # faddrs (u # vs))"
      using n(4) dk c unfolding Cons by simp_all
    obtain h' ft where "calcInverseDynamics E Z h (lroot u) = Some (h', ft)" "forest_force E Z h' (u # vs) = Some ft"
        "newton_euler E Z h h' ?a (u # vs)" "\<forall>b. b \<notin> set (faddrs (u # vs)) \<longrightarrow> h' b = h b" "\<forall>b. skel h' b = skel h b"
      using calcInverseDynamics_forest [OF f n(1)] by blast
    then show ?thesis using that [of h'] c unfolding Cons by (simp add: add_some_def)
  qed
  have h2a: "h2 ?a = Some n" using h2(3) dk n(1) by simp
  let ?ft = "add_some E (id_force E Z n) (forest_force E Z h2 (lkids T))"
  let ?h = "h2(?a \<mapsto> id_torque Z ?ft n)"
  have keep: "forest_force E Z ?h (lkids T) = forest_force E Z h2 (lkids T)"
    by (rule forest_force_cong) (use dk in \<open>auto simp: own_force_def\<close>)
  then have tf: "tree_force E Z ?h T = ?ft" by (simp add: tree_force_def own_force_def)
  have "h(?a \<mapsto> n) = h" using n(1) by (simp add: fun_upd_idem)
  then have "calcInverseDynamics E Z h ?a = Some (?h, ?ft)"
    using n(1-3) h2(1) h2a by (subst calcInverseDynamics.simps) (simp, simp add: Let_def)
  moreover have "newton_euler E Z h ?h ?a (lkids T)"
    by (rule newton_euler_cong [OF h2(2)]) (use dk h2a in auto)
  moreover have "\<forall>b. b \<notin> set (addrs T) \<longrightarrow> ?h b = h b" using h2(3) by (simp add: addrs_eq)
  moreover have "tree_at ?h None T"
    by (rule tree_at_cong [OF _ T]) (use h2(4) skel_motion [of h2 ?a n "id_torque Z ?ft n"] h2a in simp)
  ultimately show ?thesis using tf n(1) by (intro exI [of _ ?h]) simp
qed

section \<open>The initial configuration\<close>

definition each :: "(('v, 'm) Link \<Rightarrow> ('v, 'm) Link) \<Rightarrow> ('v, 'm) link_heap \<Rightarrow> nat set \<Rightarrow> ('v, 'm) link_heap" where
  "each f h A = (\<lambda>a. if a \<in> A then map_option f (h a) else h a)"

lemma each_link_spec:
  "distinct as \<Longrightarrow> set as \<subseteq> dom h \<Longrightarrow> each_link f h as = Some (each f h (set as))"
proof (induction as arbitrary: h)
  case (Cons a as)
  then obtain n where n: "h a = Some n" by auto
  have "each_link f (h(a \<mapsto> f n)) as = Some (each f (h(a \<mapsto> f n)) (set as))"
    by (rule Cons.IH) (use Cons.prems in auto)
  moreover have "each f (h(a \<mapsto> f n)) (set as) = each f h (set (a # as))"
    using n Cons.prems(1) by (intro ext) (simp add: each_def)
  ultimately show ?case using n by simp
qed (simp add: each_def)

lemma zero_sel [simp]:
  "lparent (zero_joint n) = lparent n" "lsibling (zero_joint n) = lsibling n" "lchild (zero_joint n) = lchild n"
  "lparent (zero_force Z n) = lparent n" "lsibling (zero_force Z n) = lsibling n" "lchild (zero_force Z n) = lchild n"
  "lfext (motion (zero_force Z n)) = vzero Z" "ltauext (motion (zero_force Z n)) = vzero Z"
  by (simp_all add: zero_joint_def zero_force_def)

lemma fk_down_parent_force [simp]:
  "fk_down E vel acc (motion (zero_force Z P)) l = fk_down E vel acc (motion P) l"
proof -
  have "down_arm E (motion (zero_force Z P)) = down_arm E (motion P)" "down_pose E (motion (zero_force Z P)) = down_pose E (motion P)"
    by (intro ext; simp add: down_arm_def down_pose_def zero_force_def split: JointType.split)+
  moreover have "down_velocity E (motion (zero_force Z P)) = down_velocity E (motion P)"
    by (intro ext; simp add: down_velocity_def zero_force_def split: JointType.split)
  moreover have "down_acceleration E (motion (zero_force Z P)) = down_acceleration E (motion P)"
    by (intro ext; simp add: down_acceleration_def zero_force_def Let_def split: JointType.split)
  ultimately show ?thesis by (simp only: fk_down_def)
qed

lemma walk_ok_preorder: "tree_at h p T \<Longrightarrow> distinct (addrs T) \<Longrightarrow> walk_ok h 0 (addrs T)"
  using fed_forest [of h "lroot T" _ "lkids T" None "{lroot T}"] by (auto simp: walk_ok_def addrs_eq tree_at_def)

lemma each_skel: "(\<And>n. (lparent (f n), lsibling (f n), lchild (f n)) = (lparent n, lsibling n, lchild n)) \<Longrightarrow> skel (each f h A) a = skel h a"
  by (cases "h a") (auto simp: skel_def each_def)

lemma fk_down_joint [simp]:
  "lq (motion (fk_down E vel acc P l)) = lq (motion l)" "ldq (motion (fk_down E vel acc P l)) = ldq (motion l)"
  "lddq (motion (fk_down E vel acc P l)) = lddq (motion l)" "lu (motion (fk_down E vel acc P l)) = lu (motion l)"
  by (simp_all add: fk_down_def down_pose_def down_velocity_def down_acceleration_def Let_def split: JointType.split)

definition at_rest :: "('v, 'm) Link \<Rightarrow> bool" where
  "at_rest n \<longleftrightarrow> lq (motion n) = Fin 0 \<and> ldq (motion n) = Fin 0 \<and> lddq (motion n) = Fin 0 \<and> lu (motion n) = Fin 0"

lemma at_rest_motion: "motion n = motion n' \<Longrightarrow> at_rest n = at_rest n'"
  by (simp add: at_rest_def)

lemma at_rest_simps [simp]:
  "at_rest (zero_joint n)" "at_rest (zero_force Z n) = at_rest n" "at_rest (fk_down E vel acc P l) = at_rest l"
  by (simp_all add: at_rest_def zero_joint_def zero_force_def)

text \<open>
  C40: \<open>initializeConfiguration\<close> of a body with an up-to-date walk returns: the root has the default pose
  and no velocity or acceleration, every joint is at zero and at rest, no link has an external
  force, and every link below the root has the pose, velocity and acceleration that one step of the
  forward kinematics gives from its parent's. Links outside the body and all pointers stay.
\<close>

theorem initializeConfiguration_pose:
  assumes r: "rootLink_m b = Some (lroot T)" and T: "tree_at h None T" and d: "distinct (addrs T)"
    and tr: "linkTraverse_m b = \<lparr>links = addrs T, numUpwardConnections = 0\<rparr>"
  shows "\<exists>h'. initializeConfiguration E Z h b = Some h' \<and> tree_at h' None T \<and> (\<forall>a. a \<notin> set (addrs T) \<longrightarrow> h' a = h a) \<and>
    (\<exists>n n'. h (lroot T) = Some n \<and> h' (lroot T) = Some n' \<and> lp (motion n') = defaultRootPosition b \<and>
       lR (motion n') = mmul E (defaultRootAttitude b) (transposed E (lRs (params n))) \<and>
       lv (motion n') = vzero Z \<and> lw (motion n') = vzero Z \<and> ldv (motion n') = vzero Z \<and> ldw (motion n') = vzero Z) \<and>
    (\<forall>a \<in> set (addrs T). \<exists>n'. h' a = Some n' \<and> at_rest n' \<and> lfext (motion n') = vzero Z \<and> ltauext (motion n') = vzero Z) \<and>
    (\<forall>a \<in> set (faddrs (lkids T)). \<exists>l p P. h a = Some l \<and> lparent l = Some p \<and> h' p = Some P \<and>
       map_option motion (h' a) = Some (motion (zero_force Z (fk_down E True True (motion P) (zero_joint l)))))"
proof -
  let ?as = "addrs T" and ?r = "lroot T"
  obtain n where n: "h ?r = Some n" using T by (auto simp: tree_at_def)
  define n1 where "n1 = setAttitude E (n\<lparr>motion := (motion n)\<lparr>lp := defaultRootPosition b\<rparr>\<rparr>) (defaultRootAttitude b)"
  define n2 where "n2 = n1\<lparr>motion := (motion n1)\<lparr>lv := vzero Z, ldv := vzero Z, lw := vzero Z, ldw := vzero Z\<rparr>,
                      work := (work n1)\<lparr>lvo := vzero Z, ldvo := vzero Z\<rparr>\<rparr>"
  have n2: "lparent n2 = lparent n" "lsibling n2 = lsibling n" "lchild n2 = lchild n" "params n2 = params n"
      "lp (motion n2) = defaultRootPosition b" "lR (motion n2) = mmul E (defaultRootAttitude b) (transposed E (lRs (params n)))"
      "lv (motion n2) = vzero Z" "lw (motion n2) = vzero Z" "ldv (motion n2) = vzero Z" "ldw (motion n2) = vzero Z"
    by (simp_all add: n2_def n1_def setAttitude_def)
  have dom: "set ?as \<subseteq> dom h" using tree_at_dom [OF T] .
  let ?h0 = "h(?r \<mapsto> n2)"
  define h1 where "h1 = each zero_joint ?h0 (set ?as)"
  have z: "each_link zero_joint ?h0 ?as = Some h1" unfolding h1_def by (rule each_link_spec [OF d]) (use dom in auto)
  have sk1: "skel h1 a = skel h a" for a
    using each_skel [of zero_joint ?h0 "set ?as" a] skel_motion [of h ?r n n2 a] n n2(1-3) unfolding h1_def by simp
  have T1: "tree_at h1 None T" by (rule tree_at_cong [OF _ T]) (simp add: sk1)
  obtain h2 where h2: "calcForwardKinematics E True True h1 \<lparr>links = ?as, numUpwardConnections = int 0\<rparr> = Some h2"
      "\<forall>a. a \<notin> set ?as \<longrightarrow> h2 a = h1 a" "\<forall>a. skel h2 a = skel h1 a" "map_option motion (h2 (hd ?as)) = map_option motion (h1 (hd ?as))"
      "\<forall>a \<in> set (drop (Suc 0) ?as). fk_from_parent E True True h1 h2 a"
    using calcForwardKinematics_walk [OF walk_ok_preorder [OF T1 d] tree_at_dom [OF T1], of E True True] by blast
  have T2: "tree_at h2 None T" by (rule tree_at_cong [OF _ T1]) (simp add: h2(3))
  define h3 where "h3 = each (zero_force Z) h2 (set ?as)"
  have c: "each_link (zero_force Z) h2 ?as = Some h3" unfolding h3_def by (rule each_link_spec [OF d tree_at_dom [OF T2]])
  have run: "initializeConfiguration E Z h b = Some h3"
    using r n z h2(1) c tr by (simp add: initializeConfiguration_def clearExternalForces_def Let_def n2_def n1_def)
  have sk3: "skel h3 a = skel h2 a" for a unfolding h3_def by (rule each_skel) simp
  have T3: "tree_at h3 None T" by (rule tree_at_cong [OF _ T2]) (simp add: sk3)
  have out: "\<forall>a. a \<notin> set ?as \<longrightarrow> h3 a = h a" using h2(2) by (simp add: h3_def h1_def each_def)
  have root: "h1 ?r = Some (zero_joint n2)" by (simp add: h1_def each_def)
  then obtain m where m: "h2 ?r = Some m" "motion m = motion (zero_joint n2)" using h2(4) by (auto simp: addrs_eq)
  have r3: "h3 ?r = Some (zero_force Z m)" using m by (simp add: h3_def each_def)
  have below: "\<exists>l p P. h a = Some l \<and> lparent l = Some p \<and> h3 p = Some P \<and>
       map_option motion (h3 a) = Some (motion (zero_force Z (fk_down E True True (motion P) (zero_joint l))))"
    if a: "a \<in> set (faddrs (lkids T))" for a
  proof -
    have ne: "a \<noteq> ?r" "a \<in> set ?as" using a d by (auto simp: addrs_eq)
    obtain l where l: "h a = Some l" using ne(2) dom by blast
    then have l1: "h1 a = Some (zero_joint l)" using ne by (simp add: h1_def each_def)
    obtain p P where P: "lparent l = Some p" "h2 p = Some P"
        "map_option motion (h2 a) = Some (motion (fk_down E True True (motion P) (zero_joint l)))"
      using h2(5) a l1 by (fastforce simp: fk_from_parent_def addrs_eq)
    obtain P3 where P3: "h3 p = Some P3" "\<And>l. fk_down E True True (motion P3) l = fk_down E True True (motion P) l"
      using P(2) by (cases "p \<in> set ?as") (auto simp: h3_def each_def)
    have "map_option motion (h3 a) = Some (motion (zero_force Z (fk_down E True True (motion P) (zero_joint l))))"
      using P(3) ne(2) by (cases "h2 a") (auto simp: h3_def each_def zero_force_def)
    then show ?thesis using l P(1) P3 by auto
  qed
  have rest: "\<exists>n'. h3 a = Some n' \<and> at_rest n' \<and> lfext (motion n') = vzero Z \<and> ltauext (motion n') = vzero Z" if a: "a \<in> set ?as" for a
  proof (cases "a = ?r")
    case True
    then show ?thesis using r3 at_rest_motion [OF m(2)] by simp
  next
    case False
    then have "a \<in> set (faddrs (lkids T))" using a by (simp add: addrs_eq)
    from below [OF this] obtain l p P n' where n': "h3 a = Some n'"
        "motion n' = motion (zero_force Z (fk_down E True True (motion P) (zero_joint l)))"
      "h a = Some l" "h3 p = Some P" by auto
    then show ?thesis using at_rest_motion [OF n'(2)] by simp
  qed
  have "\<exists>n n'. h ?r = Some n \<and> h3 ?r = Some n' \<and> lp (motion n') = defaultRootPosition b \<and>
       lR (motion n') = mmul E (defaultRootAttitude b) (transposed E (lRs (params n))) \<and>
       lv (motion n') = vzero Z \<and> lw (motion n') = vzero Z \<and> ldv (motion n') = vzero Z \<and> ldw (motion n') = vzero Z"
    using n r3 m(2) n2(5-10) by (intro exI [of _ n] exI [of _ "zero_force Z m"]) (simp add: zero_force_def zero_joint_def)
  then show ?thesis using run T3 out rest below by blast
qed

end
