(* ===== verification/NewtonEuler.thy ===== *)
theory NewtonEuler
  imports BodyDynamics
begin

text \<open>
  What \<open>Body::calcInverseDynamics\<close> computes, stated by the equations of motion of rigid bodies
  instead of the program's formulas: which velocities and accelerations a joint transmits, and
  the force and moment a body's motion takes, about its centre of mass. The program works with
  the velocity of the body point at the origin and with moments about the origin, so the two agree
  by the laws of vectors only, which floating point numbers satisfy up to rounding; they are
  supposed to hold exactly here.
\<close>

section \<open>Exact arithmetic\<close>

text \<open>
  The laws of vectors in space and of matrices applied to them: \<open>+\<close> is an addition, scaling and
  application are linear, the cross product is bilinear and alternating and satisfies the Jacobi
  identity, \<open>hat c\<close> is the matrix of the cross product with \<open>c\<close> and its transpose its negative.
\<close>

definition exact_arithmetic :: "('v::ab_group_add, 'm) eigen \<Rightarrow> ('v, 'm) eigen_more \<Rightarrow> bool" where
  "exact_arithmetic E Z \<longleftrightarrow>
     (\<forall>x y. vadd E x y = x + y) \<and> vzero Z = 0 \<and>
     (\<forall>k x y. vscale E k (x + y) = vscale E k x + vscale E k y) \<and>
     (\<forall>x y z. vcross E (x + y) z = vcross E x z + vcross E y z) \<and>
     (\<forall>x y z. vcross E x (y + z) = vcross E x y + vcross E x z) \<and>
     (\<forall>k x y. vcross E (vscale E k x) y = vscale E k (vcross E x y)) \<and>
     (\<forall>k x y. vcross E x (vscale E k y) = vscale E k (vcross E x y)) \<and>
     (\<forall>x. vcross E x x = 0) \<and>
     (\<forall>x y z. vcross E x (vcross E y z) + vcross E y (vcross E z x) + vcross E z (vcross E x y) = 0) \<and>
     (\<forall>A B x. mvec E (madd Z A B) x = mvec E A x + mvec E B x) \<and>
     (\<forall>A B x. mvec E (mmul E A B) x = mvec E A (mvec E B x)) \<and>
     (\<forall>k A x. mvec E (mscale Z k A) x = vscale E k (mvec E A x)) \<and>
     (\<forall>c x. mvec E (hat Z c) x = vcross E c x) \<and>
     (\<forall>c x. mvec E (transposed E (hat Z c)) x = vcross E x c)"

text \<open>The laws for fixed \<open>E\<close> and \<open>Z\<close>, and what follows from them.\<close>

locale exact_vectors =
  fixes E :: "('v::ab_group_add, 'm) eigen" and Z :: "('v, 'm) eigen_more"
  assumes exact: "exact_arithmetic E Z"
begin

lemma add: "vadd E x y = x + y" and zero: "vzero Z = 0"
  and scale_add: "vscale E k (x + y) = vscale E k x + vscale E k y"
  and cross_add_left: "vcross E (x + y) z = vcross E x z + vcross E y z"
  and cross_add_right: "vcross E x (y + z) = vcross E x y + vcross E x z"
  and cross_scale_left: "vcross E (vscale E k x) y = vscale E k (vcross E x y)"
  and cross_scale_right: "vcross E x (vscale E k y) = vscale E k (vcross E x y)"
  and cross_self: "vcross E x x = 0"
  and jacobi: "vcross E x (vcross E y z) + vcross E y (vcross E z x) + vcross E z (vcross E x y) = 0"
  using exact by (simp_all add: exact_arithmetic_def)

lemma matrix:
  "mvec E (madd Z A B) x = mvec E A x + mvec E B x"
  "mvec E (mmul E A B) x = mvec E A (mvec E B x)"
  "mvec E (mscale Z k A) x = vscale E k (mvec E A x)"
  "mvec E (hat Z c) x = vcross E c x"
  "mvec E (transposed E (hat Z c)) x = vcross E x c"
  using exact by (simp_all add: exact_arithmetic_def)

lemmas linear = add zero scale_add cross_add_left cross_add_right cross_scale_left cross_scale_right

lemma cross_zero: "vcross E x 0 = 0" "vcross E 0 x = 0"
  using cross_add_right [of x 0 0] cross_add_left [of 0 0 x] by simp_all

lemma scale_zero: "vscale E k 0 = 0"
  using scale_add [of k 0 0] by simp

lemma cross_minus: "vcross E y x = - vcross E x y"
proof -
  have "vcross E (x + y) (x + y) = vcross E x x + vcross E y x + (vcross E x y + vcross E y y)"
    by (simp only: cross_add_left cross_add_right)
  then have "vcross E y x + vcross E x y = 0" by (simp only: cross_self add_0_left add_0_right)
  then show ?thesis by (simp add: eq_neg_iff_add_eq_0)
qed

lemma scale_minus: "vscale E k (- x) = - vscale E k x"
proof -
  have "vscale E k x + vscale E k (- x) = 0" by (simp only: scale_add [symmetric] right_minus scale_zero)
  then show ?thesis by (simp add: eq_neg_iff_add_eq_0 add.commute)
qed

lemma cross_uminus: "vcross E (- x) y = - vcross E x y" "vcross E x (- y) = - vcross E x y"
proof -
  have "vcross E x y + vcross E (- x) y = 0" by (simp only: cross_add_left [symmetric] right_minus cross_zero)
  then show "vcross E (- x) y = - vcross E x y" by (simp add: eq_neg_iff_add_eq_0 add.commute)
  have "vcross E x y + vcross E x (- y) = 0" by (simp only: cross_add_right [symmetric] right_minus cross_zero)
  then show "vcross E x (- y) = - vcross E x y" by (simp add: eq_neg_iff_add_eq_0 add.commute)
qed

text \<open>The Jacobi identity as a rule for a cross product of cross products.\<close>

lemma cross_cross: "vcross E (vcross E x y) z = vcross E x (vcross E y z) - vcross E y (vcross E x z)"
proof -
  have "vcross E x (vcross E y z) = - vcross E y (vcross E z x) - vcross E z (vcross E x y)"
    using jacobi [of x y z] by (simp add: algebra_simps eq_neg_iff_add_eq_0)
  then show ?thesis
    using cross_minus [of x z] cross_minus [of "vcross E x y" z] by (simp add: cross_uminus)
qed

end

section \<open>The equations of motion\<close>

text \<open>Velocity and acceleration of the point of a body that is at \<open>x\<close> now.\<close>

definition point_velocity :: "('v::ab_group_add, 'm) eigen \<Rightarrow> ('v, 'm) Link \<Rightarrow> 'v \<Rightarrow> 'v" where
  "point_velocity E n x = lvo (work n) + vcross E (lw (motion n)) x"

definition point_acceleration :: "('v::ab_group_add, 'm) eigen \<Rightarrow> ('v, 'm) Link \<Rightarrow> 'v \<Rightarrow> 'v" where
  "point_acceleration E n x =
     ldvo (work n) + vcross E (ldw (motion n)) x + vcross E (lw (motion n)) (point_velocity E n x)"

text \<open>
  The force is the mass times the acceleration of the centre of mass \<open>c\<close>; the moment about \<open>c\<close> is
  the rate of the angular momentum, Euler's \<open>J dw + w \<times> J w\<close> for the moment of inertia \<open>J\<close> in the
  world frame; moved to the origin it gains \<open>c \<times> f\<close>.
\<close>

definition body_wrench :: "('v::ab_group_add, 'm) eigen \<Rightarrow> ('v, 'm) Link \<Rightarrow> 'v \<times> 'v" where
  "body_wrench E n =
     (let R = lR (motion n); w = lw (motion n);
          c = mvec E R (lc (params n)) + lp (motion n);
          J = (\<lambda>x. mvec E R (mvec E (lI (params n)) (mvec E (transposed E R) x)));
          f = vscale E (lm (params n)) (point_acceleration E n c)
      in (f, vcross E c f + (J (ldw (motion n)) + vcross E w (J w))))"

definition total_wrench :: "('v::ab_group_add, 'm) eigen \<Rightarrow> ('v, 'm) link_heap \<Rightarrow> nat list \<Rightarrow> 'v \<times> 'v" where
  "total_wrench E h as =
     (sum_list (map (\<lambda>a. fst (body_wrench E (the (h a)))) as), sum_list (map (\<lambda>a. snd (body_wrench E (the (h a)))) as))"

text \<open>
  What a joint transmits from the parent \<open>P\<close> to the link, \<open>n\<close> before and \<open>m\<close> after: a rotational
  joint adds the rotation about its axis \<open>s\<close> and keeps velocity and acceleration of the joint's
  own point; a fixed joint keeps everything. Nothing is claimed of other joints.
\<close>

definition joint_axis :: "('v, 'm) eigen \<Rightarrow> ('v, 'm) Link \<Rightarrow> ('v, 'm) Link \<Rightarrow> 'v" where
  "joint_axis E P n = mvec E (lR (motion P)) (la (params n))"

definition joint_motion :: "('v::ab_group_add, 'm) eigen \<Rightarrow> ('v, 'm) Link \<Rightarrow> ('v, 'm) Link \<Rightarrow> ('v, 'm) Link \<Rightarrow> bool" where
  "joint_motion E P n m =
     (case ljointType n of
        ROTATIONAL_JOINT \<Rightarrow>
          lw (motion m) = lw (motion P) + vscale E (ldq (motion n)) (joint_axis E P n) \<and>
          ldw (motion m) = ldw (motion P) + vscale E (lddq (motion n)) (joint_axis E P n)
            + vscale E (ldq (motion n)) (vcross E (lw (motion P)) (joint_axis E P n)) \<and>
          point_velocity E m (lp (motion n)) = point_velocity E P (lp (motion n)) \<and>
          point_acceleration E m (lp (motion n)) = point_acceleration E P (lp (motion n))
      | FIXED_JOINT \<Rightarrow>
          lw (motion m) = lw (motion P) \<and> ldw (motion m) = ldw (motion P) \<and>
          (\<forall>x. point_velocity E m x = point_velocity E P x \<and> point_acceleration E m x = point_acceleration E P x)
      | _ \<Rightarrow> True)"

text \<open>
  The torque is the power that the force and the moment of everything that hangs on the joint
  have at unit speed of the joint.
\<close>

definition joint_torque ::
  "('v::ab_group_add, 'm) eigen \<Rightarrow> ('v, 'm) eigen_more \<Rightarrow> ('v, 'm) Link \<Rightarrow> ('v, 'm) Link \<Rightarrow> 'v \<times> 'v \<Rightarrow> double \<Rightarrow> bool" where
  "joint_torque E Z P n ft u =
     (case ljointType n of
        ROTATIONAL_JOINT \<Rightarrow>
          u = dadd (vdot Z (vcross E (lp (motion n)) (joint_axis E P n)) (fst ft)) (vdot Z (joint_axis E P n) (snd ft))
      | FIXED_JOINT \<Rightarrow> u = dadd (vdot Z 0 (fst ft)) (vdot Z 0 (snd ft))
      | _ \<Rightarrow> True)"

text \<open>Only velocities, accelerations and the torque of a link change.\<close>

definition same_link :: "('v, 'm) Link \<Rightarrow> ('v, 'm) Link \<Rightarrow> bool" where
  "same_link n m \<longleftrightarrow> m = n\<lparr>
     motion := (motion n)\<lparr>lw := lw (motion m), ldw := ldw (motion m), lu := lu (motion m)\<rparr>,
     work := (work n)\<lparr>lvo := lvo (work m), ldvo := ldvo (work m), lsw := lsw (work m), lsv := lsv (work m)\<rparr>\<rparr>"

fun equations_hold ::
  "('v::ab_group_add, 'm) eigen \<Rightarrow> ('v, 'm) eigen_more \<Rightarrow> ('v, 'm) link_heap \<Rightarrow> ('v, 'm) link_heap \<Rightarrow> nat \<Rightarrow> ltree list \<Rightarrow> bool" where
  "equations_hold E Z h h' r [] \<longleftrightarrow> True"
| "equations_hold E Z h h' r (LTree a us # ts) \<longleftrightarrow>
     (\<exists>n P m. h a = Some n \<and> h' r = Some P \<and> h' a = Some m \<and> same_link n m \<and> joint_motion E P n m \<and>
        joint_torque E Z P n (total_wrench E h' (a # faddrs us)) (lu (motion m))) \<and>
     equations_hold E Z h h' a us \<and> equations_hold E Z h h' r ts"

section \<open>The program satisfies them\<close>

lemma id_sel [simp]:
  "ljointType (id_torque Z ft m) = ljointType m" "lp (motion (id_torque Z ft m)) = lp (motion m)"
  "lw (motion (id_torque Z ft m)) = lw (motion m)" "ldw (motion (id_torque Z ft m)) = ldw (motion m)"
  "work (id_torque Z ft m) = work m"
  "lu (motion (id_torque Z ft m)) = dadd (vdot Z (lsv (work m)) (fst ft)) (vdot Z (lsw (work m)) (snd ft))"
  by (simp_all add: id_torque_def)

lemma same_link_motion: "same_link n (id_torque Z ft (id_motion E Z P n))"
  by (simp add: same_link_def id_torque_def id_motion_def Let_def)

context exact_vectors begin

lemma id_motion_fixed:
  assumes "ljointType n = FIXED_JOINT"
  shows "lw (motion (id_motion E Z P n)) = lw (motion P)" "ldw (motion (id_motion E Z P n)) = ldw (motion P)"
    "lvo (work (id_motion E Z P n)) = lvo (work P)" "ldvo (work (id_motion E Z P n)) = ldvo (work P)"
    "lsw (work (id_motion E Z P n)) = 0" "lsv (work (id_motion E Z P n)) = 0"
  using assms by (simp_all add: id_motion_def Let_def linear cross_zero scale_zero)

lemma id_motion_turning:
  assumes "ljointType n = ROTATIONAL_JOINT"
  shows "lw (motion (id_motion E Z P n)) = lw (motion P) + vscale E (ldq (motion n)) (joint_axis E P n)"
    "ldw (motion (id_motion E Z P n)) = ldw (motion P)
       + vscale E (ldq (motion n)) (vcross E (lw (motion P)) (joint_axis E P n)) + vscale E (lddq (motion n)) (joint_axis E P n)"
    "lvo (work (id_motion E Z P n)) = lvo (work P) + vscale E (ldq (motion n)) (vcross E (lp (motion n)) (joint_axis E P n))"
    "ldvo (work (id_motion E Z P n)) = ldvo (work P)
       + vscale E (ldq (motion n)) (vcross E (lw (motion P)) (vcross E (lp (motion n)) (joint_axis E P n))
           + vcross E (lvo (work P)) (joint_axis E P n))
       + vscale E (lddq (motion n)) (vcross E (lp (motion n)) (joint_axis E P n))"
    "lsw (work (id_motion E Z P n)) = joint_axis E P n" "lsv (work (id_motion E Z P n)) = vcross E (lp (motion n)) (joint_axis E P n)"
  using assms by (simp_all add: id_motion_def Let_def add joint_axis_def)

lemma joint_velocity:
  assumes "ljointType n = ROTATIONAL_JOINT"
  shows "point_velocity E (id_motion E Z P n) (lp (motion n)) = point_velocity E P (lp (motion n))"
  using cross_minus [of "joint_axis E P n" "lp (motion n)"]
  by (simp add: point_velocity_def id_motion_turning [OF assms] cross_add_left cross_scale_left scale_minus)

lemma joint_acceleration:
  assumes "ljointType n = ROTATIONAL_JOINT"
  shows "point_acceleration E (id_motion E Z P n) (lp (motion n)) = point_acceleration E P (lp (motion n))"
proof -
  let ?p = "lp (motion n)" and ?s = "joint_axis E P n" and ?w = "lw (motion P)" and ?v = "lvo (work P)"
  have "vcross E ?w (vcross E ?p ?s) + vcross E ?v ?s + vcross E (vcross E ?w ?s) ?p
      + vcross E ?s (?v + vcross E ?w ?p) = 0"
    using cross_minus [of ?s ?p] cross_minus [of ?s ?v]
    by (simp add: cross_cross cross_add_right cross_uminus)
  then have "vscale E (ldq (motion n)) (vcross E ?w (vcross E ?p ?s) + vcross E ?v ?s)
      + vscale E (ldq (motion n)) (vcross E (vcross E ?w ?s) ?p)
      + vscale E (ldq (motion n)) (vcross E ?s (?v + vcross E ?w ?p)) = 0"
    by (simp only: scale_add [symmetric] scale_zero)
  moreover have "vscale E (lddq (motion n)) (vcross E ?p ?s) + vscale E (lddq (motion n)) (vcross E ?s ?p) = 0"
    using cross_minus [of ?s ?p] by (simp add: scale_minus)
  ultimately show ?thesis
    unfolding point_acceleration_def joint_velocity [OF assms]
    by (simp add: id_motion_turning [OF assms] point_velocity_def cross_add_left cross_scale_left algebra_simps)
qed

lemma joint_motion_holds: "joint_motion E P n (id_torque Z ft (id_motion E Z P n))"
proof -
  have pv: "point_velocity E (id_torque Z ft m) = point_velocity E m" for m
    by (intro ext) (simp add: point_velocity_def)
  have pa: "point_acceleration E (id_torque Z ft m) = point_acceleration E m" for m
    by (intro ext) (simp add: point_acceleration_def pv)
  show ?thesis
  proof (cases "ljointType n")
    case FIXED_JOINT
    then show ?thesis
      by (simp add: joint_motion_def pv pa id_motion_fixed point_velocity_def point_acceleration_def)
  next
    case ROTATIONAL_JOINT
    then show ?thesis
      by (simp add: joint_motion_def pv pa joint_velocity joint_acceleration id_motion_turning algebra_simps)
  qed (simp_all add: joint_motion_def)
qed

lemma joint_torque_holds:
  "joint_torque E Z P n ft (lu (motion (id_torque Z ft (id_motion E Z P n))))"
  by (cases "ljointType n") (simp_all add: joint_torque_def id_motion_fixed id_motion_turning)

text \<open>The program's force and moment about the origin are those of the body.\<close>

lemma body_wrench_holds: "id_force E Z n = body_wrench E n"
proof -
  let ?K = "params n" and ?w = "lw (motion n)" and ?dw = "ldw (motion n)" and ?v = "lvo (work n)" and ?dv = "ldvo (work n)"
    and ?R = "lR (motion n)"
  let ?m = "lm ?K"
  define c where "c = mvec E ?R (lc ?K) + lp (motion n)"
  define J where "J = (\<lambda>x. mvec E ?R (mvec E (lI ?K) (mvec E (transposed E ?R) x)))"
  have I: "mvec E (madd Z (mmul E (mmul E ?R (lI ?K)) (transposed E ?R))
      (mmul E (mscale Z ?m (hat Z c)) (transposed E (hat Z c)))) x = J x + vscale E ?m (vcross E c (vcross E x c))" for x
    by (simp add: matrix J_def)
  have force: "vscale E ?m (?dv + vcross E ?dw c) + vcross E ?w (vscale E ?m (?v + vcross E ?w c)) =
      vscale E ?m (point_acceleration E n c)"
    by (simp only: point_acceleration_def point_velocity_def linear)
  have rest: "vcross E c (vcross E ?w (?v + vcross E ?w c)) =
      vcross E ?v (?v + vcross E ?w c) + vcross E ?w (vcross E c ?v + vcross E c (vcross E ?w c))"
  proof -
    have flip: "vcross E c (vcross E ?v ?w) = - vcross E c (vcross E ?w ?v)"
      using cross_minus [of ?v ?w] by (simp add: cross_uminus)
    have "vcross E ?v (vcross E ?w c) + vcross E ?w (vcross E c ?v) = - vcross E c (vcross E ?v ?w)"
      using jacobi [of ?v ?w c] by (simp only: eq_neg_iff_add_eq_0)
    then have "vcross E ?v (vcross E ?w c) + vcross E ?w (vcross E c ?v) = vcross E c (vcross E ?w ?v)"
      by (simp only: flip minus_minus)
    moreover have "vcross E ?w (vcross E c (vcross E ?w c)) = vcross E c (vcross E ?w (vcross E ?w c))"
      using cross_self [of "vcross E ?w c"] cross_cross [of ?w c "vcross E ?w c"] by simp
    ultimately show ?thesis by (simp add: cross_add_right cross_self add.assoc [symmetric])
  qed
  have moment: "vscale E ?m (vcross E c ?dv) + (J ?dw + vscale E ?m (vcross E c (vcross E ?dw c)))
      + vcross E ?v (vscale E ?m (?v + vcross E ?w c))
      + vcross E ?w (vscale E ?m (vcross E c ?v) + (J ?w + vscale E ?m (vcross E c (vcross E ?w c)))) =
    vcross E c (vscale E ?m (point_acceleration E n c)) + (J ?dw + vcross E ?w (J ?w))"
  proof -
    have "vscale E ?m (vcross E c ?dv) + (J ?dw + vscale E ?m (vcross E c (vcross E ?dw c)))
        + vcross E ?v (vscale E ?m (?v + vcross E ?w c))
        + vcross E ?w (vscale E ?m (vcross E c ?v) + (J ?w + vscale E ?m (vcross E c (vcross E ?w c)))) =
      vscale E ?m (vcross E c (?dv + vcross E ?dw c)
        + (vcross E ?v (?v + vcross E ?w c) + vcross E ?w (vcross E c ?v + vcross E c (vcross E ?w c))))
      + (J ?dw + vcross E ?w (J ?w))"
      by (simp only: cross_add_right cross_scale_right scale_add add.assoc add.commute add.left_commute)
    also have "\<dots> = vscale E ?m (vcross E c (?dv + vcross E ?dw c) + vcross E c (vcross E ?w (?v + vcross E ?w c)))
        + (J ?dw + vcross E ?w (J ?w))"
      by (simp only: rest)
    also have "\<dots> = vcross E c (vscale E ?m (point_acceleration E n c)) + (J ?dw + vcross E ?w (J ?w))"
      by (simp only: point_acceleration_def point_velocity_def cross_scale_right cross_add_right)
    finally show ?thesis .
  qed
  show ?thesis
    unfolding id_force_def body_wrench_def Let_def add c_def [symmetric] J_def [symmetric] I force moment
    by (simp add: J_def)
qed

lemma add_pair_sum: "add_pair E x y = (fst x + fst y, snd x + snd y)"
  by (simp add: add_pair_def add)

lemma total_wrench_append: "total_wrench E h (as @ bs) = add_pair E (total_wrench E h as) (total_wrench E h bs)"
  by (simp add: total_wrench_def add_pair_sum)

lemma total_wrench_Cons: "h a \<noteq> None \<Longrightarrow> total_wrench E h (a # as) = add_pair E (own_force E Z h a) (total_wrench E h as)"
  by (auto simp: total_wrench_def add_pair_sum own_force_def body_wrench_holds)

lemma add_pair_nil: "add_pair E x (total_wrench E h []) = x"
  by (simp add: total_wrench_def add_pair_sum)

lemma add_pair_assoc: "add_pair E (add_pair E x y) z = add_pair E x (add_pair E y z)"
  by (simp add: add_pair_sum add.assoc)

lemma forest_force_total:
  "\<forall>a \<in> set (faddrs ts). h a \<noteq> None \<Longrightarrow> forest_force E Z h ts = (if ts = [] then None else Some (total_wrench E h (faddrs ts)))"
proof (induction ts rule: faddrs.induct)
  case (2 a us ts)
  show ?case
    using 2 by (cases us; cases ts)
      (auto simp: add_some_def total_wrench_Cons total_wrench_append add_pair_nil add_pair_assoc)
qed simp

lemma tree_force_total:
  assumes "\<forall>a \<in> set (addrs t). h a \<noteq> None"
  shows "tree_force E Z h t = total_wrench E h (addrs t)"
proof (cases t)
  case (LTree a us)
  show ?thesis
    using assms forest_force_total [of us h] unfolding LTree
    by (simp add: tree_force_def add_some_def total_wrench_Cons add_pair_nil)
qed

lemma equations_hold_passes:
  "newton_euler E Z h h' r ts \<Longrightarrow> \<forall>a \<in> set (faddrs ts). h' a \<noteq> None \<Longrightarrow> equations_hold E Z h h' r ts"
proof (induction ts arbitrary: r rule: faddrs.induct)
  case (2 a us ts)
  obtain n P where n: "h a = Some n" "h' r = Some P"
      "h' a = Some (id_torque Z (tree_force E Z h' (LTree a us)) (id_motion E Z P n))"
    using "2.prems"(1) by auto
  have sum: "tree_force E Z h' (LTree a us) = total_wrench E h' (a # faddrs us)"
    using tree_force_total [of "LTree a us" h'] "2.prems"(2) by simp
  have "\<exists>n P m. h a = Some n \<and> h' r = Some P \<and> h' a = Some m \<and> same_link n m \<and> joint_motion E P n m \<and>
      joint_torque E Z P n (total_wrench E h' (a # faddrs us)) (lu (motion m))"
    using n joint_torque_holds [of P n "total_wrench E h' (a # faddrs us)"] same_link_motion joint_motion_holds
    unfolding sum by blast
  moreover have "equations_hold E Z h h' a us" using "2.IH"(1) [of a] "2.prems" by simp
  moreover have "equations_hold E Z h h' r ts" using "2.IH"(2) [of r] "2.prems" by simp
  ultimately show ?case by simp
qed simp

end

section \<open>Rational vectors satisfy the laws\<close>

text \<open>
  Eigen's operations without rounding: vectors and matrices over the rationals. A number that is
  not finite scales by 0. \<open>rodrigues\<close> has irrational entries and is not needed here.
\<close>

datatype rvec = RV rat rat rat

datatype rmat = RM rvec rvec rvec

instantiation rvec :: ab_group_add
begin

definition zero_rvec :: rvec where "zero_rvec = RV 0 0 0"

fun plus_rvec :: "rvec \<Rightarrow> rvec \<Rightarrow> rvec" where
  "plus_rvec (RV a b c) (RV x y z) = RV (a + x) (b + y) (c + z)"

fun uminus_rvec :: "rvec \<Rightarrow> rvec" where
  "uminus_rvec (RV a b c) = RV (- a) (- b) (- c)"

fun minus_rvec :: "rvec \<Rightarrow> rvec \<Rightarrow> rvec" where
  "minus_rvec (RV a b c) (RV x y z) = RV (a - x) (b - y) (c - z)"

instance
proof
  fix u v w :: rvec
  show "u + v + w = u + (v + w)" by (cases u; cases v; cases w) simp
  show "u + v = v + u" by (cases u; cases v) simp
  show "0 + u = u" by (cases u) (simp add: zero_rvec_def)
  show "- u + u = 0" by (cases u) (simp add: zero_rvec_def)
  show "u - v = u + - v" by (cases u; cases v) simp
qed

end

fun rval :: "double \<Rightarrow> rat" where
  "rval (Fin q) = q"
| "rval _ = 0"

fun rscale :: "rat \<Rightarrow> rvec \<Rightarrow> rvec" where
  "rscale k (RV x y z) = RV (k * x) (k * y) (k * z)"

fun rdot :: "rvec \<Rightarrow> rvec \<Rightarrow> rat" where
  "rdot (RV a b c) (RV x y z) = a * x + b * y + c * z"

fun rcross :: "rvec \<Rightarrow> rvec \<Rightarrow> rvec" where
  "rcross (RV a b c) (RV x y z) = RV (b * z - c * y) (c * x - a * z) (a * y - b * x)"

fun rapply :: "rmat \<Rightarrow> rvec \<Rightarrow> rvec" where
  "rapply (RM a b c) v = RV (rdot a v) (rdot b v) (rdot c v)"

fun rtranspose :: "rmat \<Rightarrow> rmat" where
  "rtranspose (RM (RV a b c) (RV d e f) (RV g h i)) = RM (RV a d g) (RV b e h) (RV c f i)"

fun rmul :: "rmat \<Rightarrow> rmat \<Rightarrow> rmat" where
  "rmul (RM a b c) B = (let T = rtranspose B in RM (rapply T a) (rapply T b) (rapply T c))"

fun rmadd :: "rmat \<Rightarrow> rmat \<Rightarrow> rmat" where
  "rmadd (RM a b c) (RM x y z) = RM (a + x) (b + y) (c + z)"

fun rmscale :: "rat \<Rightarrow> rmat \<Rightarrow> rmat" where
  "rmscale k (RM a b c) = RM (rscale k a) (rscale k b) (rscale k c)"

fun rhat :: "rvec \<Rightarrow> rmat" where
  "rhat (RV x y z) = RM (RV 0 (- z) y) (RV z 0 (- x)) (RV (- y) x 0)"

definition rone :: rmat where
  "rone = RM (RV 1 0 0) (RV 0 1 0) (RV 0 0 1)"

definition rat_eigen :: "(rvec, rmat) eigen" where
  "rat_eigen = \<lparr>mmul = rmul, mvec = rapply, transposed = rtranspose, vadd = (+), vsub = (-),
     vscale = (\<lambda>k. rscale (rval k)), vcross = rcross, rodrigues = (\<lambda>_ _. rone)\<rparr>"

definition rat_more :: "(rvec, rmat) eigen_more" where
  "rat_more = \<lparr>vzero = 0, vec3 = (\<lambda>x y z. RV (rval x) (rval y) (rval z)), vdivide = (\<lambda>v k. rscale (1 / rval k) v),
     vdot = (\<lambda>u v. Fin (rdot u v)), mzero = RM 0 0 0, midentity = rone, madd = rmadd, mscale = (\<lambda>k. rmscale (rval k)),
     hat = rhat\<rparr>"

lemma rvec_laws:
  "rscale k (u + v) = rscale k u + rscale k v"
  "rcross (u + v) w = rcross u w + rcross v w" "rcross u (v + w) = rcross u v + rcross u w"
  "rcross (rscale k u) v = rscale k (rcross u v)" "rcross u (rscale k v) = rscale k (rcross u v)"
  "rcross u u = 0" "rcross u (rcross v w) + rcross v (rcross w u) + rcross w (rcross u v) = 0"
  by (cases u; cases v; cases w; simp add: zero_rvec_def algebra_simps)+

lemma rmat_laws:
  "rapply (rmadd A B) u = rapply A u + rapply B u" "rapply (rmscale k A) u = rscale k (rapply A u)"
  "rapply (rhat u) v = rcross u v" "rapply (rtranspose (rhat u)) v = rcross v u"
proof -
  have dot: "rdot (x + y) u = rdot x u + rdot y u" "rdot (rscale k x) u = k * rdot x u" for x y
    by (cases x; cases y; cases u; simp add: algebra_simps)+
  show "rapply (rmadd A B) u = rapply A u + rapply B u" "rapply (rmscale k A) u = rscale k (rapply A u)"
    by (cases A; cases B; simp add: dot)+
  show "rapply (rhat u) v = rcross u v" "rapply (rtranspose (rhat u)) v = rcross v u"
    by (cases u; cases v; simp)+
qed

lemma rmul_apply: "rapply (rmul A B) u = rapply A (rapply B u)"
proof -
  have "rdot (rapply (rtranspose B) r) u = rdot r (rapply B u)" for r
  proof -
    obtain b1 b2 b3 where B: "B = RM b1 b2 b3" by (cases B)
    show ?thesis unfolding B by (cases b1; cases b2; cases b3; cases r; cases u) (simp add: algebra_simps)
  qed
  then show ?thesis by (cases A) (simp add: Let_def)
qed

interpretation rational: exact_vectors rat_eigen rat_more
  by unfold_locales (simp add: exact_arithmetic_def rat_eigen_def rat_more_def rvec_laws rmat_laws rmul_apply)

section \<open>Inverse dynamics is the Newton-Euler method\<close>

text \<open>
  C39: \<open>calcInverseDynamics\<close> from the root of a tree returns, and in exact arithmetic the links
  below the root satisfy the equations of motion. Outwards, a rotational joint adds its rotation
  to that of the parent's final motion and both links move alike at the joint's point, in velocity
  and acceleration; a fixed joint transmits the motion as it is. Inwards, the torque of such a
  joint is that of the sum, over all links that hang on it, of the forces and the moments about the
  origin that their motions take by the equations of Newton (mass times the acceleration of the
  centre of mass) and Euler (with the gyroscopic moment); the returned pair is the sum over the
  whole tree. Nothing but velocities, accelerations and torques changes, and nothing outside the
  tree. Of sliding joints nothing is claimed: the program takes them for rotational ones. The two
  scalar products of a torque are added as \<open>double\<close>s. The laws of vectors are a hypothesis, which
  rational vectors satisfy and floating point vectors satisfy up to rounding.
\<close>

theorem calcInverseDynamics_newton_euler:
  assumes T: "tree_at h None T" and d: "distinct (addrs T)" and s: "map_option lsibling (h (lroot T)) = Some None"
    and exact: "exact_arithmetic E Z"
  shows "\<exists>h' n ft. calcInverseDynamics E Z h (lroot T) = Some (h', ft) \<and> ft = total_wrench E h' (addrs T) \<and>
    h (lroot T) = Some n \<and>
    h' (lroot T) = Some (n\<lparr>motion := (motion n)\<lparr>lu :=
       dadd (vdot Z (lsv (work n)) (fst ft)) (vdot Z (lsw (work n)) (snd ft))\<rparr>\<rparr>) \<and>
    equations_hold E Z h h' (lroot T) (lkids T) \<and>
    (\<forall>a. a \<notin> set (addrs T) \<longrightarrow> h' a = h a) \<and> tree_at h' None T"
proof -
  have V: "exact_vectors E Z" using exact by unfold_locales
  obtain h' where h': "calcInverseDynamics E Z h (lroot T) = Some (h', tree_force E Z h' T)"
      "h' (lroot T) = map_option (id_torque Z (tree_force E Z h' T)) (h (lroot T))"
      "newton_euler E Z h h' (lroot T) (lkids T)" "\<forall>a. a \<notin> set (addrs T) \<longrightarrow> h' a = h a" "tree_at h' None T"
    using calcInverseDynamics_passes [OF T d s] by blast
  obtain n where n: "h (lroot T) = Some n" using T by (auto simp: tree_at_def)
  have dom: "\<forall>a \<in> set (faddrs (lkids T)). h' a \<noteq> None"
    using h'(5) forest_seg_dom [of h' "lroot T" _ "lkids T" None] by (auto simp: tree_at_def)
  then have all: "\<forall>a \<in> set (addrs T). h' a \<noteq> None" using h'(2) n by (simp add: addrs_eq)
  show ?thesis
    using h' n exact_vectors.tree_force_total [OF V all] exact_vectors.equations_hold_passes [OF V h'(3) dom]
    by (intro exI [of _ h'] exI [of _ n] exI [of _ "tree_force E Z h' T"]) (simp add: id_torque_def)
qed

end
