(* ===== verification/BodyWitnesses.thy ===== *)
theory BodyWitnesses
  imports BodyCopy NewtonEuler LinkWitnesses
begin

text \<open>
  The robot of \<open>LinkWitnesses\<close> as a body with one range sensor, on which the theorems about bodies
  apply.
\<close>

definition unit_more :: "(unit, unit) eigen_more" where
  "unit_more = \<lparr>vzero = (), vec3 = (\<lambda>_ _ _. ()), vdivide = (\<lambda>_ _. ()), vdot = (\<lambda>_ _. Fin 0), mzero = (), midentity = (),
     madd = (\<lambda>_ _. ()), mscale = (\<lambda>_ _. ()), hat = (\<lambda>_. ())\<rparr>"

definition far_range :: RangeData where
  "far_range = \<lparr>scanAngle = M_PI, scanStep = rnd (1 / 10), scanRate = Fin 10, maxDistance = Fin 20, distances = [],
     range_nextUpdateTime = Fin 0, range_isUpdated = False, range_isEnabled = False\<rparr>"

definition demo_sensor :: "(unit, unit) Sensor" where
  "demo_sensor = \<lparr>sname = ''eye'', stype = 8, sid = 0, slink = Some 3, slocalR = (), slocalPos = (), sdata = RangeSensor far_range\<rparr>"

definition demo_mem :: "(unit, unit) body_mem" where
  "demo_mem = \<lparr>lstore = demo_store\<lparr>lheap := demo_heap(
       1 \<mapsto> (demo_link (Some 0) (Some 2) None ROTATIONAL_JOINT 0)\<lparr>lindex := 1\<rparr>,
       2 \<mapsto> (demo_link (Some 0) None (Some 3) ROTATIONAL_JOINT 1)\<lparr>lindex := 2\<rparr>,
       3 \<mapsto> (demo_link (Some 2) (Some 4) None ROTATIONAL_JOINT 2)\<lparr>lindex := 3\<rparr>,
       4 \<mapsto> (demo_link (Some 2) None None ROTATIONAL_JOINT 5)\<lparr>lindex := 4\<rparr>)\<rparr>,
     sensor_heap = Map.empty(0 \<mapsto> demo_sensor), next_sensor = 1, sensor_garbage = (\<lambda>_. (demo_sensor, (), (), Fin 0)),
     light_heap = Map.empty, next_light = 0, nextId = 0\<rparr>"

definition demo_body :: "(unit, unit) Body" where
  "demo_body = (Body_blank unit_more (0, Fin 0, False))\<lparr>rootLink_m := Some 0,
     linkTraverse_m := \<lparr>links = [0, 1, 2, 3, 4], numUpwardConnections = 0\<rparr>,
     allSensors := replicate 8 [] @ [[Some 0]], nameToSensorMap := Map.empty(''eye'' \<mapsto> 0)\<rparr>"

lemma demo_mem_tree: "tree_at (mheap demo_mem) None demo_tree" "set (addrs demo_tree) \<subseteq> {..<next_link (lstore demo_mem)}"
  by (simp_all add: tree_at_def demo_mem_def demo_heap_def demo_tree_def demo_store_def)

lemma demo_reg: "reg demo_body t i = (if t = 8 \<and> i = 0 then Some 0 else None)"
  by (auto simp: reg_def slot_def demo_body_def Body_blank_def nth_append)

lemma demo_sensor_table: "sensor_table demo_mem demo_body"
  by (auto simp: sensor_table_def demo_reg, auto simp: demo_mem_def demo_sensor_def demo_body_def Body_blank_def split: if_splits)

lemma demo_body_ok: "body_ok demo_mem demo_body demo_tree"
proof -
  have "\<exists>n. mheap demo_mem (addrs demo_tree ! k) = Some n \<and> lindex n = int k" if "k < length (addrs demo_tree)" for k
  proof -
    have "k \<in> {0, 1, 2, 3, 4}" using that by (auto simp: demo_tree_def)
    then show ?thesis by (auto simp: demo_mem_def demo_heap_def demo_tree_def demo_link_def)
  qed
  moreover have "\<exists>x k. sensor_heap demo_mem a = Some x \<and> k < length (addrs demo_tree) \<and> slink x = Some (addrs demo_tree ! k)"
    if "reg demo_body t i = Some a" for t i a
    using that by (intro exI [of _ demo_sensor] exI [of _ 3])
      (auto simp: demo_reg demo_mem_def demo_sensor_def demo_tree_def split: if_splits)
  ultimately show ?thesis
    using demo_mem_tree demo_distinct(1) demo_sensor_table unfolding body_ok_def
    by (simp add: demo_body_def Body_blank_def demo_tree_def)
qed

text \<open>The greatest joint id is 5, so there are six joints, two of them dummies.\<close>

lemma updateLinkTree_tables_witness:
  "\<exists>b' st. updateLinkTree unit_more demo_mem 7 demo_body = Some (b', demo_mem\<lparr>lstore := st\<rparr>) \<and> numJoints b' = 6 \<and>
     Body_joint b' 5 = Some (Some 4) \<and> \<not> isStaticModel_m b'"
proof -
  have r: "rootLink_m demo_body = Some (lroot demo_tree)" by (simp add: demo_body_def demo_tree_def)
  have ids: "map (joint_id (mheap demo_mem)) (addrs demo_tree) = [-1, 0, 1, 2, 5]"
    by (simp add: joint_id_def demo_mem_def demo_heap_def demo_tree_def demo_link_def)
  then have set: "joint_id (mheap demo_mem) ` set (addrs demo_tree) = {-1, 0, 1, 2, 5}"
    using list.set_map [of "joint_id (mheap demo_mem)" "addrs demo_tree"] by simp
  obtain b' st where u: "updateLinkTree unit_more demo_mem 7 demo_body = Some (b', demo_mem\<lparr>lstore := st\<rparr>)"
      "tables_of (lstore demo_mem) (addrs demo_tree) 7 b' (lheap st)"
      "isStaticModel_m b' \<longleftrightarrow> map_option ljointType (mheap demo_mem (lroot demo_tree)) = Some FIXED_JOINT \<and> numJoints b' = 0"
    using updateLinkTree_tables [OF r demo_mem_tree(1) demo_distinct(1) demo_mem_tree(2), of unit_more 7] by blast
  have "int (numJoints b') = 6" using u(2) set by (simp add: tables_of_def)
  then have n: "numJoints b' = 6" by simp
  moreover have "last_with (joint_id (mheap demo_mem)) 5 (addrs demo_tree) = Some 4"
    by (simp add: last_with_def joint_id_def demo_mem_def demo_heap_def demo_tree_def demo_link_def)
  ultimately have "Body_joint b' 5 = Some (Some 4)" using tables_of_joint [OF u(2), of 5 4] by simp
  then show ?thesis using u(1,3) n by auto
qed

lemma createSensor_keeps_table_witness:
  "\<exists>a b' m'. createSensor unit_more demo_mem demo_body 2 1 3 ''force'' = Some (Some a, b', m') \<and> sensor_table m' b' \<and>
     reg b' 1 3 = Some a \<and> reg b' 8 0 = Some 0 \<and>
     createSensor unit_more demo_mem demo_body 2 (-1) 3 ''force'' = None"
proof -
  have "2 \<in> dom (mheap demo_mem)" by (simp add: demo_mem_def)
  then show ?thesis
    using createSensor_keeps_table [OF demo_sensor_table, of 2 1 3 unit_more "''force''"]
      createSensor_keeps_table [OF demo_sensor_table, of 2 "-1" 3 unit_more "''force''"] by (auto simp: demo_reg)
qed

text \<open>The range of the sensor is 20 in the original and 10 in the copy.\<close>

lemma Body_copy_alike_witness:
  "\<exists>b' m' c y r. Body_copy unit_more (0, Fin 0, False) demo_mem 8 demo_body = Some (b', m') \<and> reg b' 8 0 = Some c \<and>
     sensor_heap m' c = Some y \<and> sname y = ''eye'' \<and> sdata y = RangeSensor r \<and> maxDistance r = Fin 10"
proof -
  obtain b' m' T' where c: "Body_copy unit_more (0, Fin 0, False) demo_mem 8 demo_body = Some (b', m')"
      "sensors_copied unit_more demo_mem demo_body (addrs demo_tree) m' b' (addrs T')"
    using Body_copy_alike [OF demo_body_ok] by blast
  obtain c x y where y: "reg b' 8 0 = Some c" "sensor_heap demo_mem 0 = Some x" "sensor_heap m' c = Some y"
      "sensor_copied unit_more (addrs demo_tree) (addrs T') 8 x y"
    using sensors_copiedD [OF c(2), of 8 0 0] by (auto simp: demo_reg)
  obtain g z where "Sensor_create unit_more g 8 = Some z" "sdata y = sdata z" "sname y = sname x"
    using y(4) by (auto simp: sensor_copied_def)
  moreover have "sname x = ''eye''" using y(2) by (auto simp: demo_mem_def demo_sensor_def)
  ultimately show ?thesis using c(1) y(1,3) by (cases g) (auto simp: Sensor_create_def Let_def)
qed

text \<open>
  A link of mass 2 turns at unit speed about the vertical axis through the origin, with its centre
  of mass at distance 1, and carries a fixed link of mass 1 there: the force is the centripetal one.
\<close>

definition arm_link :: "nat option \<Rightarrow> nat option \<Rightarrow> JointType \<Rightarrow> double \<Rightarrow> double \<Rightarrow> rvec \<Rightarrow> (rvec, rmat) Link" where
  "arm_link p c ty speed mass com =
     \<lparr>lbody = Some 7, lindex = 0, ljointId = -1, lname = ''link'', ljointType = ty,
      lparent = p, lsibling = None, lchild = c,
      motion = \<lparr>lp = 0, lR = rone, lv = 0, lw = 0, ldv = 0, ldw = 0, lq = Fin 0, ldq = speed, lddq = Fin 0,
                lu = Fin 0, lfext = 0, ltauext = 0\<rparr>,
      params = \<lparr>la = RV 0 0 1, ld = 0, lb = 0, lRs = rone, lm = mass, lI = rone, lc = com, lJm2 = Fin 0, lulimit = Fin 0,
                lllimit = Fin 0, luvlimit = Fin 0, llvlimit = Fin 0, ldefaultJointValue = Fin 0, ltorqueConst = Fin 0,
                lencoderPulse = Fin 0, lIr = Fin 0, lgearRatio = Fin 1, lgearEfficiency = Fin 1, lrotorResistor = Fin 0,
                lisHighGainMode = False, lisCrawler = False\<rparr>,
      work = \<lparr>lwc = 0, lvo = 0, ldvo = 0, lsw = 0, lsv = 0, lsubm = Fin 0, lsubmwc = 0, lclimit = Fin 0\<rparr>,
      lsensors = [], llights = []\<rparr>"

definition arm_heap :: "(rvec, rmat) link_heap" where
  "arm_heap = Map.empty(0 \<mapsto> arm_link None (Some 1) FREE_JOINT (Fin 0) (Fin 5) 0,
                    1 \<mapsto> arm_link (Some 0) (Some 2) ROTATIONAL_JOINT (Fin 1) (Fin 2) (RV 1 0 0),
                    2 \<mapsto> arm_link (Some 1) None FIXED_JOINT (Fin 1) (Fin 1) (RV 1 0 0))"

lemma arm_force: "map_option snd (calcInverseDynamics rat_eigen rat_more arm_heap 0) = Some (RV (-3) 0 0, RV 0 0 0)"
  by code_simp

lemma calcInverseDynamics_newton_euler_witness:
  "\<exists>h'. calcInverseDynamics rat_eigen rat_more arm_heap 0 = Some (h', RV (-3) 0 0, RV 0 0 0) \<and>
     total_wrench rat_eigen h' [0, 1, 2] = (RV (-3) 0 0, RV 0 0 0) \<and>
     equations_hold rat_eigen rat_more arm_heap h' 0 [LTree 1 [LTree 2 []]]"
proof -
  let ?T = "LTree 0 [LTree 1 [LTree 2 []]]"
  have T: "tree_at arm_heap None ?T" "map_option lsibling (arm_heap (lroot ?T)) = Some None" "distinct (addrs ?T)"
    by (simp_all add: tree_at_def arm_heap_def arm_link_def)
  obtain h' ft where "calcInverseDynamics rat_eigen rat_more arm_heap (lroot ?T) = Some (h', ft)"
      "ft = total_wrench rat_eigen h' (addrs ?T)" "equations_hold rat_eigen rat_more arm_heap h' (lroot ?T) (lkids ?T)"
    using calcInverseDynamics_newton_euler [OF T(1,3,2) rational.exact] by blast
  then show ?thesis using arm_force by (cases ft) simp
qed

lemma initializeConfiguration_pose_witness:
  "\<exists>h' n. initializeConfiguration unit_eigen unit_more (mheap demo_mem) demo_body = Some h' \<and> h' 4 = Some n \<and> at_rest n"
proof -
  have b: "rootLink_m demo_body = Some (lroot demo_tree)"
      "linkTraverse_m demo_body = \<lparr>links = addrs demo_tree, numUpwardConnections = 0\<rparr>"
    by (simp_all add: demo_body_def demo_tree_def)
  obtain h' where "initializeConfiguration unit_eigen unit_more (mheap demo_mem) demo_body = Some h'"
      "\<forall>a \<in> set (addrs demo_tree). \<exists>n'. h' a = Some n' \<and> at_rest n' \<and> lfext (motion n') = vzero unit_more \<and>
         ltauext (motion n') = vzero unit_more"
    using initializeConfiguration_pose [OF b(1) demo_mem_tree(1) demo_distinct(1) b(2), of unit_eigen unit_more] by blast
  moreover have "4 \<in> set (addrs demo_tree)" by (simp add: demo_distinct(2))
  ultimately show ?thesis by blast
qed

end
