(* ===== verification/TriangulatorModel.thy ===== *)
theory TriangulatorModel
  imports Binary64
begin

text \<open>
  \<open>hrplib/hrpUtil/Triangulator.{h,cpp}\<close>: a polygon of a mesh is cut into triangles by clipping ears.
  The vectors are Eigen's, the operations on them a parameter. What is shown is about the indices:
  that the clipping ends, and that the triangles fit together to the polygon.
\<close>

section \<open>The program\<close>

record 'v tri_ops =
  tzero :: 'v
  tadd :: "'v \<Rightarrow> 'v \<Rightarrow> 'v"
  tsub :: "'v \<Rightarrow> 'v \<Rightarrow> 'v"
  tcross :: "'v \<Rightarrow> 'v \<Rightarrow> 'v"
  tdot :: "'v \<Rightarrow> 'v \<Rightarrow> double"
  tnorm :: "'v \<Rightarrow> double"

datatype Convexity = FLAT | CONVEX | CONCAVE

text \<open>The vertices and the polygon are held by pointers, which are set before they are followed.\<close>

record 'v Triangulator =
  tvertices :: "'v list"
  orgPolygon :: "int list"
  triangles_m :: "nat list"
  workPolygon :: "nat list"
  ccs_m :: 'v
  earMask :: "bool list"

definition setVertices :: "'v Triangulator \<Rightarrow> 'v list \<Rightarrow> 'v Triangulator" where
  "setVertices t vs = t\<lparr>tvertices := vs\<rparr>"

definition vertex :: "'v Triangulator \<Rightarrow> nat \<Rightarrow> 'v option" where
  "vertex t i = do { k \<leftarrow> elem_at (orgPolygon t) i; if k < 0 then None else elem_at (tvertices t) (nat k) }"

definition workVertex :: "'v Triangulator \<Rightarrow> nat \<Rightarrow> 'v option" where
  "workVertex t i = do { k \<leftarrow> elem_at (workPolygon t) i; vertex t k }"

definition calcConvexity :: "'v tri_ops \<Rightarrow> 'v Triangulator \<Rightarrow> nat \<Rightarrow> Convexity option" where
  "calcConvexity V t ear =
     (let n = length (workPolygon t)
      in do { p0 \<leftarrow> workVertex t ((ear + n - 1) mod n);
              e \<leftarrow> workVertex t ear;
              f \<leftarrow> workVertex t ((ear + 1) mod n);
              let a = tsub V e p0; b = tsub V f p0; c = tcross V a b
              in Some (if dlt (dadd (ddiv (tnorm V c) (tnorm V a)) (tnorm V b)) (rnd (1 / 10000)) then FLAT
                       else if dlt (Fin 0) (tdot V (ccs_m t) c) then CONVEX else CONCAVE) })"

text \<open>The loop over the vertices that are not those of the ear.\<close>

fun contains_loop :: "'v tri_ops \<Rightarrow> 'v Triangulator \<Rightarrow> bool list \<Rightarrow> 'v \<Rightarrow> 'v \<Rightarrow> 'v \<Rightarrow> nat list \<Rightarrow> bool option" where
  "contains_loop V t msk a b c [] = Some False"
| "contains_loop V t msk a b c (i # is) =
     do { masked \<leftarrow> elem_at msk i;
          if masked then contains_loop V t msk a b c is
          else do {
            p \<leftarrow> workVertex t i;
            if dle (tdot V (tcross V (tsub V a p) (tsub V b p)) (ccs_m t)) (Fin 0) then contains_loop V t msk a b c is
            else if dle (tdot V (tcross V (tsub V b p) (tsub V c p)) (ccs_m t)) (Fin 0) then contains_loop V t msk a b c is
            else if dle (tdot V (tcross V (tsub V c p) (tsub V a p)) (ccs_m t)) (Fin 0) then contains_loop V t msk a b c is
            else Some True } }"

definition mark :: "bool list \<Rightarrow> nat \<Rightarrow> nat \<Rightarrow> nat \<Rightarrow> bool \<Rightarrow> bool list option" where
  "mark msk i j k v = do { m1 \<leftarrow> put msk k v; m2 \<leftarrow> put m1 j v; put m2 i v }"

definition checkIfEarContainsOtherVertices :: "'v tri_ops \<Rightarrow> 'v Triangulator \<Rightarrow> nat \<Rightarrow> (bool \<times> 'v Triangulator) option" where
  "checkIfEarContainsOtherVertices V t ear =
     (let n = length (workPolygon t)
      in if 3 < n then
           let prv = (ear + n - 1) mod n; nxt = (ear + 1) mod n
           in do { a \<leftarrow> workVertex t prv;
                   b \<leftarrow> workVertex t ear;
                   c \<leftarrow> workVertex t nxt;
                   msk \<leftarrow> mark (earMask t) prv ear nxt True;
                   r \<leftarrow> contains_loop V t msk a b c [0..<n];
                   msk' \<leftarrow> mark msk prv ear nxt False;
                   Some (r, t\<lparr>earMask := msk'\<rparr>) }
         else Some (False, t))"

text \<open>The search for an ear; the target comes with whether it was cut off as a triangle.\<close>

fun find_ear :: "'v tri_ops \<Rightarrow> 'v Triangulator \<Rightarrow> nat list \<Rightarrow> ((nat \<times> bool) option \<times> 'v Triangulator) option" where
  "find_ear V t [] = Some (None, t)"
| "find_ear V t (i # is) =
     do { cv \<leftarrow> calcConvexity V t i;
          case cv of
            FLAT \<Rightarrow> Some (Some (i, False), t)
          | CONVEX \<Rightarrow>
              do { (contains, t1) \<leftarrow> checkIfEarContainsOtherVertices V t i;
                   if contains then find_ear V t1 is
                   else do {
                     x \<leftarrow> elem_at (workPolygon t1) ((i + length (workPolygon t1) - 1) mod length (workPolygon t1));
                     y \<leftarrow> elem_at (workPolygon t1) i;
                     z \<leftarrow> elem_at (workPolygon t1) ((i + 1) mod length (workPolygon t1));
                     Some (Some (i, True), t1\<lparr>triangles_m := triangles_m t1 @ [x, y, z]\<rparr>) } }
          | CONCAVE \<Rightarrow> find_ear V t is }"

text \<open>The loop that moves the elements after the target one place to the front.\<close>

fun shift_loop :: "nat list \<Rightarrow> nat \<Rightarrow> nat list \<Rightarrow> nat list option" where
  "shift_loop xs target [] = Some xs"
| "shift_loop xs target (i # is) =
     do { x \<leftarrow> elem_at xs i; ys \<leftarrow> put xs target x; shift_loop ys (target + 1) is }"

partial_function (option) clip_loop :: "'v tri_ops \<Rightarrow> 'v Triangulator \<Rightarrow> nat \<Rightarrow> (nat \<times> 'v Triangulator) option" where
  "clip_loop V t numTriangles =
     (let n = length (workPolygon t)
      in if n < 3 then Some (numTriangles, t)
         else do {
           (target, t1) \<leftarrow> find_ear V t [0..<n];
           case target of
             None \<Rightarrow> Some (numTriangles, t1)
           | Some (i, off) \<Rightarrow>
               do { ws \<leftarrow> shift_loop (workPolygon t1) i [i + 1..<n];
                    clip_loop V (t1\<lparr>workPolygon := butlast ws\<rparr>) (if off then numTriangles + 1 else numTriangles) } })"

declare clip_loop.simps [code]

text \<open>The cyclic sum of the cross products.\<close>

fun cross_sum :: "'v tri_ops \<Rightarrow> 'v Triangulator \<Rightarrow> 'v \<Rightarrow> nat list \<Rightarrow> 'v \<Rightarrow> 'v option" where
  "cross_sum V t org [] acc = Some acc"
| "cross_sum V t org (i # is) acc =
     do { x \<leftarrow> vertex t i;
          y \<leftarrow> vertex t ((i + 1) mod length (orgPolygon t));
          cross_sum V t org is (tadd V acc (tcross V (tsub V x org) (tsub V y org))) }"

definition Triangulator_apply :: "'v tri_ops \<Rightarrow> 'v Triangulator \<Rightarrow> int list \<Rightarrow> (nat \<times> 'v Triangulator) option" where
  "Triangulator_apply V t polygon =
     (let n = length polygon;
          t1 = t\<lparr>triangles_m := [],
                 earMask := (if length (earMask t) < n then earMask t @ replicate (n - length (earMask t)) False else earMask t)\<rparr>
      in if n < 3 then Some (0, t1)
         else if n = 3 then Some (1, t1\<lparr>triangles_m := [0, 1, 2]\<rparr>)
         else let t2 = t1\<lparr>orgPolygon := polygon, workPolygon := [0..<n]\<rparr>
              in do { org \<leftarrow> vertex t2 0;
                      ccs \<leftarrow> cross_sum V t2 org [1..<n - 1] (tzero V);
                      clip_loop V (t2\<lparr>ccs_m := ccs\<rparr>) 0 })"

section \<open>Boundaries\<close>

text \<open>
  The edges of a closed chain of indices, and how often an edge is run through, counted negative
  against its direction. Two chains with the same boundary have the same outline.
\<close>

definition edges :: "nat list \<Rightarrow> (nat \<times> nat) list" where
  "edges ws = zip ws (rotate1 ws)"

definition sign :: "nat \<times> nat \<Rightarrow> nat \<Rightarrow> nat \<Rightarrow> int" where
  "sign e u v = (if e = (u, v) then 1 else 0) - (if e = (v, u) then 1 else 0)"

definition tally :: "(nat \<times> nat) list \<Rightarrow> nat \<Rightarrow> nat \<Rightarrow> int" where
  "tally es u v = sum_list (map (\<lambda>e. sign e u v) es)"

definition boundary :: "nat list \<Rightarrow> nat \<Rightarrow> nat \<Rightarrow> int" where
  "boundary ws = tally (edges ws)"

fun triples :: "nat list \<Rightarrow> (nat \<times> nat \<times> nat) list" where
  "triples (x # y # z # ws) = (x, y, z) # triples ws"
| "triples ws = []"

definition outline :: "(nat \<times> nat \<times> nat) list \<Rightarrow> nat \<Rightarrow> nat \<Rightarrow> int" where
  "outline ts u v = sum_list (map (\<lambda>(x, y, z). boundary [x, y, z] u v) ts)"

lemma zip_rotate1: "length xs = length ys \<Longrightarrow> zip (rotate1 xs) (rotate1 ys) = rotate1 (zip xs ys)"
  by (cases xs; cases ys) auto

lemma zip_rotate: "length xs = length ys \<Longrightarrow> zip (rotate k xs) (rotate k ys) = rotate k (zip xs ys)"
  by (induction k) (simp_all add: zip_rotate1)

lemma tally_simps [simp]: "tally [] u v = 0" "tally (e # es) u v = sign e u v + tally es u v" "tally (es @ fs) u v = tally es u v + tally fs u v"
  by (simp_all add: tally_def)

lemma tally_rotate [simp]: "tally (rotate k es) u v = tally es u v"
proof (induction k)
  case (Suc k)
  have "tally (rotate1 fs) u v = tally fs u v" for fs by (cases fs) simp_all
  then show ?case using Suc by simp
qed simp

lemma sign_back: "sign (a, b) u v = - sign (b, a) u v"
proof -
  have "(b, a) = (u, v) \<longleftrightarrow> (a, b) = (v, u)" "(b, a) = (v, u) \<longleftrightarrow> (a, b) = (u, v)" by auto
  then show ?thesis by (simp only: sign_def minus_diff_eq)
qed

lemma edges_rotate: "edges (rotate k ws) = rotate k (edges ws)"
  unfolding edges_def by (subst rotate1_rotate_swap, rule zip_rotate) simp

lemma boundary_rotate: "boundary (xs @ ys) = boundary (ys @ xs)"
proof (intro ext)
  fix u v
  have "edges (ys @ xs) = rotate (length xs) (edges (xs @ ys))"
    using edges_rotate [of "length xs" "xs @ ys"] by (simp add: rotate_append)
  then show "boundary (xs @ ys) u v = boundary (ys @ xs) u v" by (simp add: boundary_def)
qed

lemma boundary_clip_front: "boundary (p # x # q # zs) u v = boundary (p # q # zs) u v + boundary [p, x, q] u v"
proof -
  define E where "E = zip (q # zs) (zs @ [p])"
  have "edges (p # x # q # zs) = (p, x) # (x, q) # E" "edges (p # q # zs) = (p, q) # E"
      "edges [p, x, q] = [(p, x), (x, q), (q, p)]"
    by (simp_all add: edges_def E_def)
  then show ?thesis
    using sign_back [of p q u v] by (simp add: boundary_def)
qed

lemma boundary_two [simp]:
  assumes "length ws < 3"
  shows "boundary ws u v = 0"
proof -
  consider "ws = []" | a where "ws = [a]" | a b where "ws = [a, b]"
    using assms by (cases ws; cases "tl ws"; cases "tl (tl ws)") auto
  then show ?thesis
  proof cases
    case (2 a)
    then show ?thesis using sign_back [of a a u v] by (simp add: boundary_def edges_def)
  next
    case (3 a b)
    then show ?thesis using sign_back [of a b u v] by (simp add: boundary_def edges_def)
  qed (simp add: boundary_def edges_def)
qed

text \<open>Taking out one corner takes away the boundary of its triangle.\<close>

lemma boundary_clip:
  assumes "i < length ws" and "3 \<le> length ws"
  shows "boundary ws u v = boundary (take i ws @ drop (i + 1) ws) u v +
    boundary [ws ! ((i + length ws - 1) mod length ws), ws ! i, ws ! ((i + 1) mod length ws)] u v"
proof (cases i)
  case 0
  obtain x q r rs where ws: "ws = x # q # r # rs" using assms(2) by (metis One_nat_def Suc_le_length_iff numeral_3_eq_3)
  obtain B p where B: "r # rs = B @ [p]" by (metis list.distinct(1) rev_exhaust)
  have p: "ws ! (length ws - 1) = p" using B by (simp add: ws last_conv_nth [symmetric])
  have "boundary ws = boundary (p # x # q # B)" using boundary_rotate [of "x # q # B" "[p]"] by (simp add: ws B)
  moreover have "boundary (q # r # rs) = boundary (p # q # B)" using boundary_rotate [of "q # B" "[p]"] by (simp add: B)
  ultimately show ?thesis using boundary_clip_front [of p x q B u v] 0 p by (simp add: ws)
next
  case (Suc k)
  let ?A = "take k ws" and ?p = "ws ! k" and ?x = "ws ! i" and ?B = "drop (i + 1) ws"
  have ws: "ws = ?A @ ?p # ?x # ?B"
    using Suc assms(1) id_take_nth_drop [of k ws] Cons_nth_drop_Suc [of i ws] by simp
  have len: "length (?B @ ?A) = length ws - 2" using Suc assms(1) by simp
  then obtain q zs where q: "?B @ ?A = q # zs" using assms(2) by (cases "?B @ ?A") auto
  have "ws ! ((i + 1) mod length ws) = q"
  proof (cases "i + 1 < length ws")
    case True
    then have "?B = ws ! (i + 1) # drop (i + 2) ws" by (simp add: Cons_nth_drop_Suc)
    then show ?thesis using True q by simp
  next
    case False
    then have "i + 1 = length ws" "?B = []" using assms(1) by simp_all
    then show ?thesis using q Suc assms(2) by (cases ws) (auto simp: take_Cons split: nat.splits)
  qed
  moreover have "ws ! ((i + length ws - 1) mod length ws) = ?p"
  proof -
    have "(i + length ws - 1) mod length ws = k" using Suc assms(1) by simp
    then show ?thesis by simp
  qed
  moreover have "boundary ws = boundary (?p # ?x # q # zs)"
    using boundary_rotate [of ?A "?p # ?x # ?B"] q by (subst ws) simp
  moreover have "boundary (take i ws @ ?B) = boundary (?p # q # zs)"
  proof -
    have "take i ws @ ?B = ?A @ (?p # ?B)" using Suc assms(1) by (simp add: take_Suc_conv_app_nth)
    then show ?thesis using boundary_rotate [of ?A "?p # ?B"] q by simp
  qed
  ultimately show ?thesis using boundary_clip_front [of ?p ?x q zs u v] by simp
qed

end
