(* ===== verification/TriangulatorProofs.thy ===== *)
theory TriangulatorProofs
  imports TriangulatorModel
begin

text \<open>
  The clipping of ears always ends, stays inside its buffers, and cuts the polygon into triangles
  whose boundaries add up to the boundary of the polygon.
\<close>

section \<open>The state between two cuts\<close>

definition tri_ok :: "'v Triangulator \<Rightarrow> bool" where
  "tri_ok t \<longleftrightarrow>
     (\<forall>k \<in> set (orgPolygon t). 0 \<le> k \<and> nat k < length (tvertices t)) \<and>
     set (workPolygon t) \<subseteq> {..<length (orgPolygon t)} \<and> distinct (workPolygon t) \<and>
     length (workPolygon t) \<le> length (earMask t) \<and> True \<notin> set (earMask t)"

lemma mod_below: "(i::nat) < n \<Longrightarrow> k mod n < n"
  by (rule mod_less_divisor) linarith

lemma workVertex_some: "tri_ok t \<Longrightarrow> i < length (workPolygon t) \<Longrightarrow> \<exists>x. workVertex t i = Some x"
proof -
  assume t: "tri_ok t" "i < length (workPolygon t)"
  let ?k = "workPolygon t ! i"
  have k: "?k < length (orgPolygon t)" using t(1) nth_mem [OF t(2)] unfolding tri_ok_def by blast
  then have "0 \<le> orgPolygon t ! ?k \<and> nat (orgPolygon t ! ?k) < length (tvertices t)"
    using t(1) nth_mem [OF k] unfolding tri_ok_def by blast
  then show ?thesis using t(2) k by (simp add: workVertex_def vertex_def)
qed

lemma ear_vertices:
  assumes "tri_ok t" and "i < length (workPolygon t)"
  obtains x y z where "workVertex t ((i + length (workPolygon t) - 1) mod length (workPolygon t)) = Some x"
    and "workVertex t i = Some y" and "workVertex t ((i + 1) mod length (workPolygon t)) = Some z"
proof -
  obtain x where x: "workVertex t ((i + length (workPolygon t) - 1) mod length (workPolygon t)) = Some x"
    using workVertex_some [OF assms(1) mod_below [OF assms(2)]] by metis
  obtain y where y: "workVertex t i = Some y" using workVertex_some [OF assms] by metis
  obtain z where "workVertex t ((i + 1) mod length (workPolygon t)) = Some z"
    using workVertex_some [OF assms(1) mod_below [OF assms(2)]] by metis
  then show thesis by (rule that [OF x y])
qed

lemma calcConvexity_some: "tri_ok t \<Longrightarrow> i < length (workPolygon t) \<Longrightarrow> \<exists>c. calcConvexity V t i = Some c"
proof -
  assume t: "tri_ok t" "i < length (workPolygon t)"
  let ?n = "length (workPolygon t)"
  obtain x y z where "workVertex t ((i + ?n - 1) mod ?n) = Some x" "workVertex t i = Some y" "workVertex t ((i + 1) mod ?n) = Some z"
    by (rule ear_vertices [OF t])
  then show ?thesis by (simp only: calcConvexity_def Let_def Option.bind_lunit option.inject) blast
qed

lemma contains_loop_some:
  "tri_ok t \<Longrightarrow> \<forall>i \<in> set is. i < length (workPolygon t) \<and> i < length msk \<Longrightarrow> contains_loop V t msk a b c is \<noteq> None"
proof (induction "is")
  case (Cons i "is")
  obtain p where "workVertex t i = Some p" using workVertex_some [OF Cons.prems(1)] Cons.prems(2) by auto
  moreover have "contains_loop V t msk a b c is \<noteq> None" using Cons by auto
  ultimately show ?case using Cons.prems(2) by (simp add: ex_bool_eq)
qed simp

lemma mark_some [simp]:
  "i < length m \<Longrightarrow> j < length m \<Longrightarrow> k < length m \<Longrightarrow> mark m i j k v = Some (m[k := v, j := v, i := v])"
  by (simp add: mark_def)

lemma unmark: "True \<notin> set m \<Longrightarrow> m[k := True, j := True, i := True, k := False, j := False, i := False] = m"
proof (rule nth_equalityI)
  fix l
  assume m: "True \<notin> set m" and "l < length (m[k := True, j := True, i := True, k := False, j := False, i := False])"
  then have l: "l < length m" "m ! l = False" using nth_mem [of l m] by (auto simp del: nth_mem)
  then show "m[k := True, j := True, i := True, k := False, j := False, i := False] ! l = m ! l"
    by (cases "l = i"; cases "l = j"; cases "l = k") simp_all
qed simp

text \<open>The test of an ear leaves the masks as they were.\<close>

lemma checkIfEar_some:
  assumes t: "tri_ok t" "i < length (workPolygon t)"
  shows "\<exists>r. checkIfEarContainsOtherVertices V t i = Some (r, t)"
proof (cases "3 < length (workPolygon t)")
  case True
  let ?n = "length (workPolygon t)" and ?p = "(i + length (workPolygon t) - 1) mod length (workPolygon t)"
    and ?q = "(i + 1) mod length (workPolygon t)"
  have lt: "?p < ?n" "?q < ?n" using mod_below [OF t(2)] by blast+
  obtain x y z where v: "workVertex t ?p = Some x" "workVertex t i = Some y" "workVertex t ?q = Some z"
    by (rule ear_vertices [OF t])
  have m: "?n \<le> length (earMask t)" "True \<notin> set (earMask t)" using t(1) by (simp_all add: tri_ok_def)
  let ?m = "(earMask t)[?q := True, i := True, ?p := True]"
  have "\<forall>j \<in> set [0..<?n]. j < ?n \<and> j < length ?m" using m(1) by auto
  then obtain r where r: "contains_loop V t ?m x y z [0..<?n] = Some r" using contains_loop_some [OF t(1)] by blast
  have lm: "?p < length (earMask t)" "i < length (earMask t)" "?q < length (earMask t)" 
    using less_le_trans [OF lt(1) m(1)] less_le_trans [OF t(2) m(1)] less_le_trans [OF lt(2) m(1)] by blast+
  have "mark (earMask t) ?p i ?q True = Some ?m" using lm by (rule mark_some)
  moreover have "mark ?m ?p i ?q False = Some (?m[?q := False, i := False, ?p := False])"
    by (rule mark_some) (simp_all only: length_list_update lm)
  moreover have "?m[?q := False, i := False, ?p := False] = earMask t" using m(2) by (rule unmark)
  ultimately show ?thesis
    using True v r by (simp add: checkIfEarContainsOtherVertices_def Let_def)
qed (simp add: checkIfEarContainsOtherVertices_def ex_bool_eq)

definition corner :: "nat list \<Rightarrow> nat \<Rightarrow> nat \<times> nat \<times> nat" where
  "corner ws i = (ws ! ((i + length ws - 1) mod length ws), ws ! i, ws ! ((i + 1) mod length ws))"

section \<open>The method\<close>

text \<open>
  The clipping of ears as a relation, with the classification of corners and the test of ears
  written out. \<open>t\<close> holds the vertices and the sum of the cross products, \<open>ws\<close> is the polygon that
  is left: corner \<open>i\<close> is flat, or it is an ear, that is, convex with no other corner of a polygon
  of more than three strictly inside its triangle, or it stays for now.
\<close>

definition in_triangle :: "'v tri_ops \<Rightarrow> 'v Triangulator \<Rightarrow> 'v \<Rightarrow> 'v \<Rightarrow> 'v \<Rightarrow> 'v \<Rightarrow> bool" where
  "in_triangle V t a b c p \<longleftrightarrow>
     (\<forall>(x, y) \<in> {(a, b), (b, c), (c, a)}. \<not> dle (tdot V (tcross V (tsub V x p) (tsub V y p)) (ccs_m t)) (Fin 0))"

definition cprev :: "nat list \<Rightarrow> nat \<Rightarrow> nat" where "cprev ws i = (i + length ws - 1) mod length ws"

definition cnext :: "nat list \<Rightarrow> nat \<Rightarrow> nat" where "cnext ws i = (i + 1) mod length ws"

definition flat :: "'v tri_ops \<Rightarrow> 'v Triangulator \<Rightarrow> nat list \<Rightarrow> nat \<Rightarrow> bool" where
  "flat V t ws i \<longleftrightarrow> calcConvexity V (t\<lparr>workPolygon := ws\<rparr>) i = Some FLAT"

definition ear :: "'v tri_ops \<Rightarrow> 'v Triangulator \<Rightarrow> nat list \<Rightarrow> nat \<Rightarrow> bool" where
  "ear V t ws i \<longleftrightarrow> calcConvexity V (t\<lparr>workPolygon := ws\<rparr>) i = Some CONVEX \<and>
     (\<exists>a b c. vertex t (ws ! cprev ws i) = Some a \<and> vertex t (ws ! i) = Some b \<and> vertex t (ws ! cnext ws i) = Some c \<and>
        (3 < length ws \<longrightarrow> (\<forall>j < length ws. j \<notin> {cprev ws i, i, cnext ws i} \<longrightarrow>
           (\<exists>p. vertex t (ws ! j) = Some p \<and> \<not> in_triangle V t a b c p))))"

text \<open>The first corner that is flat or an ear is taken out; the triangles of ears are kept.\<close>

inductive cuts ::
  "'v tri_ops \<Rightarrow> 'v Triangulator \<Rightarrow> nat list \<Rightarrow> (nat \<times> nat \<times> nat) list \<Rightarrow> (nat \<times> nat \<times> nat) list \<Rightarrow> nat list \<Rightarrow> bool"
  for V t where
  done_small: "length ws < 3 \<Longrightarrow> cuts V t ws [] [] ws"
| done_stuck: "\<forall>j < length ws. \<not> flat V t ws j \<and> \<not> ear V t ws j \<Longrightarrow> cuts V t ws [] [] ws"
| cut_ear: "3 \<le> length ws \<Longrightarrow> i < length ws \<Longrightarrow> \<forall>j < i. \<not> flat V t ws j \<and> \<not> ear V t ws j \<Longrightarrow> ear V t ws i \<Longrightarrow>
    cuts V t (take i ws @ drop (i + 1) ws) ts fs rest \<Longrightarrow> cuts V t ws (corner ws i # ts) fs rest"
| cut_flat: "3 \<le> length ws \<Longrightarrow> i < length ws \<Longrightarrow> \<forall>j < i. \<not> flat V t ws j \<and> \<not> ear V t ws j \<Longrightarrow> flat V t ws i \<Longrightarrow>
    cuts V t (take i ws @ drop (i + 1) ws) ts fs rest \<Longrightarrow> cuts V t ws ts (corner ws i # fs) rest"

text \<open>Only the vertices, the polygon and the sum count.\<close>

definition same_shape :: "'v Triangulator \<Rightarrow> 'v Triangulator \<Rightarrow> bool" where
  "same_shape t t' \<longleftrightarrow> tvertices t' = tvertices t \<and> orgPolygon t' = orgPolygon t \<and> ccs_m t' = ccs_m t"

lemma same_shape_vertex: "same_shape t t' \<Longrightarrow> vertex t' = vertex t"
  unfolding same_shape_def by (intro ext) (simp only: vertex_def)

lemma same_shape_convexity:
  assumes "same_shape t t'" and "workPolygon t' = workPolygon t"
  shows "calcConvexity V t' = calcConvexity V t"
proof -
  have "workVertex t' = workVertex t"
    using assms same_shape_vertex [OF assms(1)] by (intro ext) (simp add: workVertex_def)
  moreover have "ccs_m t' = ccs_m t" using assms(1) by (simp add: same_shape_def)
  ultimately show ?thesis using assms(2) by (intro ext) (simp only: calcConvexity_def)
qed

lemma same_shape_corners:
  assumes "same_shape t t'"
  shows "flat V t' = flat V t" "ear V t' = ear V t"
proof -
  have c: "calcConvexity V (t'\<lparr>workPolygon := ws\<rparr>) = calcConvexity V (t\<lparr>workPolygon := ws\<rparr>)" for ws
    by (rule same_shape_convexity) (use assms in \<open>simp_all add: same_shape_def\<close>)
  then show "flat V t' = flat V t" by (intro ext) (simp add: flat_def)
  have "in_triangle V t' = in_triangle V t" using assms by (intro ext) (simp add: in_triangle_def same_shape_def)
  then show "ear V t' = ear V t" using c same_shape_vertex [OF assms] by (intro ext) (simp add: ear_def)
qed

lemma same_shape_cuts: "same_shape t t' \<Longrightarrow> cuts V t' ws ts fs rest \<Longrightarrow> cuts V t ws ts fs rest"
proof -
  assume s: "same_shape t t'" and c: "cuts V t' ws ts fs rest"
  show ?thesis
    using c
    by (induction rule: cuts.induct)
      (auto simp: same_shape_corners [OF s] intro: cuts.intros)
qed

lemma contains_loop_iff:
  assumes "tri_ok t"
  shows "\<forall>i \<in> set is. i < length (workPolygon t) \<and> i < length msk \<Longrightarrow>
    contains_loop V t msk a b c is =
      Some (\<exists>i \<in> set is. \<not> msk ! i \<and> (\<exists>p. vertex t (workPolygon t ! i) = Some p \<and> in_triangle V t a b c p))"
proof (induction "is")
  case (Cons i "is")
  then have i: "i < length (workPolygon t)" "i < length msk" by simp_all
  obtain p where p: "workVertex t i = Some p" using workVertex_some [OF assms i(1)] by blast
  have v: "vertex t (workPolygon t ! i) = Some p" using p i(1) by (simp add: workVertex_def)
  have IH: "contains_loop V t msk a b c is =
      Some (\<exists>i \<in> set is. \<not> msk ! i \<and> (\<exists>p. vertex t (workPolygon t ! i) = Some p \<and> in_triangle V t a b c p))"
    using Cons by simp
  show ?case
  proof (cases "msk ! i")
    case True
    then show ?thesis using i IH by simp
  next
    case False
    have "contains_loop V t msk a b c (i # is) =
        (if in_triangle V t a b c p then Some True else contains_loop V t msk a b c is)"
      using False i p by (simp add: in_triangle_def)
    then show ?thesis using False v IH by (cases "in_triangle V t a b c p") simp_all
  qed
qed simp

text \<open>The test of an ear, which leaves the masks as they were.\<close>

lemma mask_at:
  assumes "True \<notin> set m" and "j < length m" and "p < length m" "i < length m" "q < length m"
  shows "m[q := True, i := True, p := True] ! j \<longleftrightarrow> j \<in> {p, i, q}"
proof -
  have "m ! j = False" using assms(1,2) nth_mem [of j m] by (auto simp del: nth_mem)
  then show ?thesis using assms(2-5) by (cases "j = p"; cases "j = i"; cases "j = q") simp_all
qed

lemma ear_iff:
  assumes t: "tri_ok t" "i < length (workPolygon t)" and run: "checkIfEarContainsOtherVertices V t i = Some (r, t1)"
  shows "t1 = t \<and> (ear V t (workPolygon t) i \<longleftrightarrow> calcConvexity V t i = Some CONVEX \<and> \<not> r)"
proof -
  let ?n = "length (workPolygon t)" and ?ws = "workPolygon t"
  have t1: "t1 = t" using checkIfEar_some [OF t, of V] run by auto
  have lt: "cprev ?ws i < ?n" "cnext ?ws i < ?n" unfolding cprev_def cnext_def using mod_below [OF t(2)] by blast+
  obtain x y z where v: "workVertex t (cprev ?ws i) = Some x" "workVertex t i = Some y" "workVertex t (cnext ?ws i) = Some z"
    unfolding cprev_def cnext_def by (rule ear_vertices [OF t])
  then have vv: "vertex t (?ws ! cprev ?ws i) = Some x" "vertex t (?ws ! i) = Some y" "vertex t (?ws ! cnext ?ws i) = Some z"
    using lt t(2) by (simp_all add: workVertex_def)
  have same: "t\<lparr>workPolygon := ?ws\<rparr> = t" by simp
  have some: "\<exists>p. vertex t (?ws ! j) = Some p" if "j < ?n" for j
    using workVertex_some [OF t(1) that] that by (simp add: workVertex_def)
  show ?thesis
  proof (cases "3 < ?n")
    case False
    then have "\<not> r" using run by (simp add: checkIfEarContainsOtherVertices_def)
    then show ?thesis using False t1 vv by (simp add: ear_def)
  next
    case True
    have m: "?n \<le> length (earMask t)" "True \<notin> set (earMask t)" using t(1) by (simp_all add: tri_ok_def)
    let ?m = "(earMask t)[cnext ?ws i := True, i := True, cprev ?ws i := True]"
    have lm: "cprev ?ws i < length (earMask t)" "i < length (earMask t)" "cnext ?ws i < length (earMask t)"
      using less_le_trans [OF lt(1) m(1)] less_le_trans [OF t(2) m(1)] less_le_trans [OF lt(2) m(1)] by blast+
    have "mark (earMask t) (cprev ?ws i) i (cnext ?ws i) True = Some ?m" using lm by (rule mark_some)
    then have loop: "contains_loop V t ?m x y z [0..<?n] = Some r"
      using run True v by (auto simp: checkIfEarContainsOtherVertices_def Let_def bind_Some_iff cprev_def cnext_def)
    have "\<forall>j \<in> set [0..<?n]. j < ?n \<and> j < length ?m" using m(1) by auto
    then have "r \<longleftrightarrow> (\<exists>j < ?n. \<not> ?m ! j \<and> (\<exists>p. vertex t (?ws ! j) = Some p \<and> in_triangle V t x y z p))"
      using loop contains_loop_iff [OF t(1), of "[0..<?n]" ?m V x y z] by auto
    also have "\<dots> \<longleftrightarrow> (\<exists>j < ?n. j \<notin> {cprev ?ws i, i, cnext ?ws i} \<and> (\<exists>p. vertex t (?ws ! j) = Some p \<and> in_triangle V t x y z p))"
      using mask_at [OF m(2) _ lm] m(1) by (meson less_le_trans)
    finally have r: "r \<longleftrightarrow> (\<exists>j < ?n. j \<notin> {cprev ?ws i, i, cnext ?ws i} \<and>
        (\<exists>p. vertex t (?ws ! j) = Some p \<and> in_triangle V t x y z p))" .
    have "ear V t ?ws i \<longleftrightarrow> calcConvexity V t i = Some CONVEX \<and>
        (\<forall>j < ?n. j \<notin> {cprev ?ws i, i, cnext ?ws i} \<longrightarrow> (\<exists>p. vertex t (?ws ! j) = Some p \<and> \<not> in_triangle V t x y z p))"
      using True vv unfolding ear_def same by simp
    also have "\<dots> \<longleftrightarrow> calcConvexity V t i = Some CONVEX \<and> \<not> r"
      unfolding r using some by fastforce
    finally show ?thesis using t1 by blast
  qed
qed

lemma find_ear_some:
  assumes t: "tri_ok t"
  shows "\<forall>i \<in> set is. i < length (workPolygon t) \<Longrightarrow>
    \<exists>r t'. find_ear V t is = Some (r, t') \<and>
      (case r of
         None \<Rightarrow> t' = t \<and> (\<forall>j \<in> set is. \<not> flat V t (workPolygon t) j \<and> \<not> ear V t (workPolygon t) j)
       | Some (i, off) \<Rightarrow> (\<exists>pre post. is = pre @ i # post \<and>
             (\<forall>j \<in> set pre. \<not> flat V t (workPolygon t) j \<and> \<not> ear V t (workPolygon t) j)) \<and>
           (if off then ear V t (workPolygon t) i \<and>
              (case corner (workPolygon t) i of (x, y, z) \<Rightarrow> t' = t\<lparr>triangles_m := triangles_m t @ [x, y, z]\<rparr>)
            else flat V t (workPolygon t) i \<and> t' = t))"
proof (induction "is")
  case (Cons i "is")
  let ?n = "length (workPolygon t)" and ?ws = "workPolygon t"
  have i: "i < ?n" using Cons.prems by simp
  have lt: "(i + ?n - 1) mod ?n < ?n" "(i + 1) mod ?n < ?n" using mod_below [OF i] by blast+
  obtain c where c: "calcConvexity V t i = Some c" using calcConvexity_some [OF t i] by blast
  obtain r where r: "checkIfEarContainsOtherVertices V t i = Some (r, t)" using checkIfEar_some [OF t i] by blast
  have kind: "flat V t ?ws i \<longleftrightarrow> c = FLAT" "ear V t ?ws i \<longleftrightarrow> c = CONVEX \<and> \<not> r"
    using c ear_iff [OF t i r] by (simp_all add: flat_def)
  obtain q t' where q: "find_ear V t is = Some (q, t')"
      "case q of
         None \<Rightarrow> t' = t \<and> (\<forall>j \<in> set is. \<not> flat V t ?ws j \<and> \<not> ear V t ?ws j)
       | Some (i, off) \<Rightarrow> (\<exists>pre post. is = pre @ i # post \<and> (\<forall>j \<in> set pre. \<not> flat V t ?ws j \<and> \<not> ear V t ?ws j)) \<and>
           (if off then ear V t ?ws i \<and> (case corner ?ws i of (x, y, z) \<Rightarrow> t' = t\<lparr>triangles_m := triangles_m t @ [x, y, z]\<rparr>)
            else flat V t ?ws i \<and> t' = t)"
    using Cons by auto
  have step: "find_ear V t (i # is) =
      (if c = FLAT then Some (Some (i, False), t)
       else if c = CONVEX \<and> \<not> r then
         Some (Some (i, True), t\<lparr>triangles_m := triangles_m t @ [?ws ! ((i + ?n - 1) mod ?n), ?ws ! i, ?ws ! ((i + 1) mod ?n)]\<rparr>)
       else find_ear V t is)"
    using c r i lt by (cases c) simp_all
  show ?case
  proof (cases "c = FLAT \<or> c = CONVEX \<and> \<not> r")
    case True
    have first: "\<exists>pre post. i # is = pre @ i # post \<and> (\<forall>j \<in> set pre. \<not> flat V t ?ws j \<and> \<not> ear V t ?ws j)"
      by (rule exI [of _ "[]"], rule exI [of _ "is"]) simp
    show ?thesis
    proof (cases "c = FLAT")
      case flat: True
      show ?thesis unfolding step using flat first kind by simp
    next
      case False
      then show ?thesis unfolding step using True first kind by (simp add: corner_def)
    qed
  next
    case False
    then have skip: "\<not> flat V t ?ws i \<and> \<not> ear V t ?ws i" using kind by blast
    have run: "find_ear V t (i # is) = Some (q, t')" using step q(1) False by auto
    show ?thesis
    proof (cases q)
      case None
      then show ?thesis using run q(2) skip by simp
    next
      case (Some found)
      obtain k off where k: "found = (k, off)" by fastforce
      obtain pre post where pre: "is = pre @ k # post" "\<forall>j \<in> set pre. \<not> flat V t ?ws j \<and> \<not> ear V t ?ws j"
        using q(2) Some k by auto
      have "\<exists>pre post. i # is = pre @ k # post \<and> (\<forall>j \<in> set pre. \<not> flat V t ?ws j \<and> \<not> ear V t ?ws j)"
        by (rule exI [of _ "i # pre"], rule exI [of _ post]) (use pre skip in simp)
      then show ?thesis using run q(2) Some k by simp
    qed
  qed
qed simp

text \<open>The search goes through the corners in order.\<close>

lemma upt_split: "[0..<n] = pre @ i # post \<Longrightarrow> set pre = {..<i} \<and> i < n"
proof -
  assume eq: "[0..<n] = pre @ i # post"
  have len: "length pre < n" using arg_cong [OF eq, of length] by simp
  then have i: "i = length pre" using arg_cong [OF eq, of "\<lambda>xs. xs ! length pre"] by simp
  have "pre = take (length pre) [0..<n]" using eq by simp
  then have "pre = [0..<length pre]" using len by (simp add: take_upt)
  then have "set pre = {..<length pre}" by (metis atLeast_upt)
  then show ?thesis using i len by simp
qed

lemma shift_loop_spec:
  "k < length xs \<Longrightarrow> \<exists>ys. shift_loop xs k [k + 1..<length xs] = Some ys \<and> butlast ys = take k xs @ drop (k + 1) xs"
proof (induction "length xs - k" arbitrary: xs k)
  case (Suc m)
  show ?case
  proof (cases "k + 1 < length xs")
    case True
    let ?ys = "xs[k := xs ! (k + 1)]"
    have "m = length ?ys - (k + 1)" "k + 1 < length ?ys" using Suc.hyps(2) True by auto
    then obtain ys where ys: "shift_loop ?ys (k + 1) [k + 1 + 1..<length ?ys] = Some ys"
        "butlast ys = take (k + 1) ?ys @ drop (k + 1 + 1) ?ys"
      using Suc.hyps(1) [of ?ys "k + 1"] by blast
    have "shift_loop xs k [k + 1..<length xs] = Some ys"
      using True ys(1) by (simp add: upt_conv_Cons)
    moreover have "take (k + 1) ?ys = take k xs @ [xs ! (k + 1)]"
      using True by (simp add: take_Suc_conv_app_nth)
    moreover have "xs ! (k + 1) # drop (k + 1 + 1) xs = drop (k + 1) xs" using True by (simp add: Cons_nth_drop_Suc)
    ultimately show ?thesis using ys(2) by simp
  next
    case False
    then have k: "k = length xs - 1" "Suc k = length xs" using Suc.prems by simp_all
    then have "butlast xs = take k xs" by (simp only: butlast_conv_take)
    then show ?thesis using k(2) by (intro exI [of _ xs]) simp
  qed
qed simp

section \<open>The clipping loop\<close>

lemma triples_append: "length xs mod 3 = 0 \<Longrightarrow> triples (xs @ ys) = triples xs @ triples ys"
  by (induction xs rule: triples.induct) auto

lemma outline_append [simp]: "outline (ts @ us) u v = outline ts u v + outline us u v"
  by (simp add: outline_def)

lemma outline_one [simp]: "outline [(x, y, z)] u v = boundary [x, y, z] u v" "outline [] u v = 0"
  by (simp_all add: outline_def)

definition proper :: "nat set \<Rightarrow> nat \<times> nat \<times> nat \<Rightarrow> bool" where
  "proper A = (\<lambda>(x, y, z). x \<noteq> y \<and> y \<noteq> z \<and> x \<noteq> z \<and> {x, y, z} \<subseteq> A)"

lemma proper_mono: "A \<subseteq> B \<Longrightarrow> proper A t \<Longrightarrow> proper B t"
  by (auto simp: proper_def split: prod.splits)

lemma corner_indices:
  assumes "(i::nat) < n" and "3 \<le> n"
  shows "(i + n - 1) mod n \<noteq> i" "(i + 1) mod n \<noteq> i" "(i + n - 1) mod n \<noteq> (i + 1) mod n"
proof -
  have p: "(i + n - 1) mod n = (if i = 0 then n - 1 else i - 1)"
  proof (cases i)
    case (Suc k)
    then have "i + n - 1 = k + n" "k < n" using assms(1) by simp_all
    then show ?thesis using Suc by simp
  qed (use assms in simp)
  have q: "(i + 1) mod n = (if i + 1 = n then 0 else i + 1)" using assms by simp
  show "(i + n - 1) mod n \<noteq> i" "(i + 1) mod n \<noteq> i" "(i + n - 1) mod n \<noteq> (i + 1) mod n"
    unfolding p q using assms by (auto split: if_splits)
qed

lemma corner_proper:
  assumes "distinct ws" and "i < length ws" and "3 \<le> length ws"
  shows "proper (set ws) (corner ws i)"
proof -
  let ?n = "length ws"
  have "(i + ?n - 1) mod ?n < ?n" "(i + 1) mod ?n < ?n" using mod_below [OF assms(2)] by blast+
  then show ?thesis
    using corner_indices [OF assms(2,3)] nth_eq_iff_index_eq [OF assms(1)] assms(2)
    by (simp add: corner_def proper_def)
qed

lemma length_triples: "length xs = 3 * k \<Longrightarrow> length (triples xs) = k"
proof (induction k arbitrary: xs)
  case (Suc k)
  obtain a b c ys where "xs = a # b # c # ys"
    using Suc.prems by (cases xs; cases "tl xs"; cases "tl (tl xs)") auto
  then show ?case using Suc by simp
qed simp

text \<open>The loop carries out the method.\<close>

lemma clip_loop_spec:
  "tri_ok t \<Longrightarrow> \<exists>k t' new flats. clip_loop V t c = Some (c + k, t') \<and> tri_ok t' \<and>
     t' = t\<lparr>triangles_m := triangles_m t @ new, workPolygon := workPolygon t'\<rparr> \<and> length new = 3 * k \<and>
     cuts V t (workPolygon t) (triples new) flats (workPolygon t')"
proof (induction "length (workPolygon t)" arbitrary: t c rule: less_induct)
  case less
  let ?ws = "workPolygon t"
  let ?n = "length ?ws"
  have stop: ?case if "clip_loop V t c = Some (c, t)" "cuts V t ?ws [] [] ?ws"
    using that less.prems by (intro exI [of _ 0] exI [of _ t] exI [of _ "[]"]) simp
  show ?case
  proof (cases "?n < 3")
    case True
    then have "clip_loop V t c = Some (c, t)" by (subst clip_loop.simps) simp
    then show ?thesis using True by (intro stop done_small)
  next
    case False
    obtain r t1 where r: "find_ear V t [0..<?n] = Some (r, t1)"
        "case r of
           None \<Rightarrow> t1 = t \<and> (\<forall>j \<in> set [0..<?n]. \<not> flat V t ?ws j \<and> \<not> ear V t ?ws j)
         | Some (i, off) \<Rightarrow> (\<exists>pre post. [0..<?n] = pre @ i # post \<and> (\<forall>j \<in> set pre. \<not> flat V t ?ws j \<and> \<not> ear V t ?ws j)) \<and>
             (if off then ear V t ?ws i \<and> (case corner ?ws i of (x, y, z) \<Rightarrow> t1 = t\<lparr>triangles_m := triangles_m t @ [x, y, z]\<rparr>)
              else flat V t ?ws i \<and> t1 = t)"
      using find_ear_some [OF less.prems, of "[0..<?n]" V] by auto
    show ?thesis
    proof (cases r)
      case None
      then have "clip_loop V t c = Some (c, t)" using r False by (subst clip_loop.simps) simp
      then show ?thesis using r(2) None by (intro stop done_stuck) auto
    next
      case (Some target)
      obtain i off where io: "r = Some (i, off)" using Some by (cases target) simp
      obtain x y z where xyz: "corner ?ws i = (x, y, z)" by (cases "corner ?ws i")
      obtain pre post where "[0..<?n] = pre @ i # post" "\<forall>j \<in> set pre. \<not> flat V t ?ws j \<and> \<not> ear V t ?ws j"
        using r(2) io by auto
      then have i: "i < ?n" and first: "\<forall>j < i. \<not> flat V t ?ws j \<and> \<not> ear V t ?ws j"
        using upt_split [of ?n pre i post] by auto
      have t1: "t1 = t\<lparr>triangles_m := triangles_m t @ (if off then [x, y, z] else [])\<rparr>" using r(2) io xyz by auto
      have kind: "if off then ear V t ?ws i else flat V t ?ws i" using r(2) io by auto
      obtain ys where ys: "shift_loop ?ws i [i + 1..<?n] = Some ys" "butlast ys = take i ?ws @ drop (i + 1) ?ws"
        using shift_loop_spec [OF i] by blast
      let ?t = "t1\<lparr>workPolygon := butlast ys\<rparr>" and ?c = "if off then c + 1 else c"
      have step: "clip_loop V t c = clip_loop V ?t ?c"
        using False r(1) io ys(1) t1 by (subst clip_loop.simps) simp
      have sub: "set (take i ?ws @ drop (i + 1) ?ws) \<subseteq> set ?ws" by (auto dest: in_set_takeD in_set_dropD)
      have dist: "distinct (take i ?ws @ drop (i + 1) ?ws)"
        using less.prems set_take_disj_set_drop_if_distinct [of ?ws i "i + 1"] by (simp add: tri_ok_def)
      have len: "length (butlast ys) = ?n - 1" using i ys(2) by simp
      have ok: "tri_ok ?t" using less.prems sub dist len t1 unfolding tri_ok_def ys(2) by auto
      have shorter: "length (workPolygon ?t) < ?n" using len i by simp
      obtain k t' new flats where IH: "clip_loop V ?t ?c = Some (?c + k, t')" "tri_ok t'"
          "t' = ?t\<lparr>triangles_m := triangles_m ?t @ new, workPolygon := workPolygon t'\<rparr>" "length new = 3 * k"
          "cuts V ?t (workPolygon ?t) (triples new) flats (workPolygon t')"
        using less.hyps [OF shorter ok, of ?c] by blast
      let ?k = "if off then k + 1 else k" and ?new = "(if off then [x, y, z] else []) @ new"
        and ?flats = "if off then flats else (x, y, z) # flats"
      have "same_shape t ?t" by (simp add: same_shape_def t1)
      then have rest: "cuts V t (take i ?ws @ drop (i + 1) ?ws) (triples new) flats (workPolygon t')"
        using same_shape_cuts IH(5) ys(2) by fastforce
      have "clip_loop V t c = Some (c + ?k, t')" using step IH(1) by simp
      moreover have "t' = t\<lparr>triangles_m := triangles_m t @ ?new, workPolygon := workPolygon t'\<rparr>"
        using IH(3) t1 by simp
      moreover have "length ?new = 3 * ?k" using IH(4) by simp
      moreover have "cuts V t ?ws (triples ?new) ?flats (workPolygon t')"
        using cut_ear [OF _ i first _ rest] cut_flat [OF _ i first _ rest] kind xyz False by (cases off) simp_all
      ultimately show ?thesis using IH(2) by (intro exI [of _ ?k] exI [of _ t'] exI [of _ ?new] exI [of _ ?flats]) blast
    qed
  qed
qed

lemma without_corner:
  assumes "distinct ws"
  shows "distinct (take i ws @ drop (i + 1) ws)" "set (take i ws @ drop (i + 1) ws) \<subseteq> set ws"
proof -
  show "distinct (take i ws @ drop (i + 1) ws)"
    using assms set_take_disj_set_drop_if_distinct [of ws i "i + 1"] by simp
  show "set (take i ws @ drop (i + 1) ws) \<subseteq> set ws" by (auto dest: in_set_takeD in_set_dropD)
qed

text \<open>What the method gives: nothing of the outline is lost.\<close>

lemma cuts_outline:
  "cuts V t ws ts fs rest \<Longrightarrow> distinct ws \<Longrightarrow>
     length ts + length fs + length rest = length ws \<and> (2 \<le> length ws \<longrightarrow> 2 \<le> length rest) \<and>
     (\<forall>s \<in> set (ts @ fs). proper (set ws) s) \<and>
     (\<forall>u v. boundary ws u v = outline ts u v + outline fs u v + boundary rest u v)"
proof (induction rule: cuts.induct)
  case (cut_ear ws i ts fs rest)
  let ?ws = "take i ws @ drop (i + 1) ws"
  note w = without_corner [OF cut_ear.prems, of i]
  have len: "length ?ws = length ws - 1" using cut_ear.hyps(2) by simp
  have IH: "length ts + length fs + length rest = length ?ws" "2 \<le> length ?ws \<longrightarrow> 2 \<le> length rest"
      "\<forall>s \<in> set (ts @ fs). proper (set ?ws) s"
      "\<And>u v. boundary ?ws u v = outline ts u v + outline fs u v + boundary rest u v"
    using cut_ear.IH [OF w(1)] by blast+
  obtain x y z where c: "corner ws i = (x, y, z)" by (cases "corner ws i")
  then have "boundary ws u v = boundary ?ws u v + boundary [x, y, z] u v" for u v
    using boundary_clip [OF cut_ear.hyps(2,1)] by (simp add: corner_def)
  moreover have "outline ((x, y, z) # xs) u v = boundary [x, y, z] u v + outline xs u v" for xs u v
    by (simp add: outline_def)
  moreover have "\<forall>s \<in> set (ts @ fs). proper (set ws) s" using IH(3) proper_mono [OF w(2)] by blast
  moreover have "proper (set ws) (corner ws i)" by (rule corner_proper [OF cut_ear.prems cut_ear.hyps(2,1)])
  ultimately show ?case using IH(1,2,4) len cut_ear.hyps(1) unfolding c by simp
next
  case (cut_flat ws i ts fs rest)
  let ?ws = "take i ws @ drop (i + 1) ws"
  note w = without_corner [OF cut_flat.prems, of i]
  have len: "length ?ws = length ws - 1" using cut_flat.hyps(2) by simp
  have IH: "length ts + length fs + length rest = length ?ws" "2 \<le> length ?ws \<longrightarrow> 2 \<le> length rest"
      "\<forall>s \<in> set (ts @ fs). proper (set ?ws) s"
      "\<And>u v. boundary ?ws u v = outline ts u v + outline fs u v + boundary rest u v"
    using cut_flat.IH [OF w(1)] by blast+
  obtain x y z where c: "corner ws i = (x, y, z)" by (cases "corner ws i")
  then have "boundary ws u v = boundary ?ws u v + boundary [x, y, z] u v" for u v
    using boundary_clip [OF cut_flat.hyps(2,1)] by (simp add: corner_def)
  moreover have "outline ((x, y, z) # xs) u v = boundary [x, y, z] u v + outline xs u v" for xs u v
    by (simp add: outline_def)
  moreover have "\<forall>s \<in> set (ts @ fs). proper (set ws) s" using IH(3) proper_mono [OF w(2)] by blast
  moreover have "proper (set ws) (corner ws i)" by (rule corner_proper [OF cut_flat.prems cut_flat.hyps(2,1)])
  ultimately show ?case using IH(1,2,4) len cut_flat.hyps(1) unfolding c by simp
qed simp_all

section \<open>The triangles of a polygon\<close>

lemma vertex_some:
  assumes "\<forall>k \<in> set (orgPolygon t). 0 \<le> k \<and> nat k < length (tvertices t)" and "i < length (orgPolygon t)"
  shows "\<exists>x. vertex t i = Some x"
proof -
  have "0 \<le> orgPolygon t ! i \<and> nat (orgPolygon t ! i) < length (tvertices t)"
    using assms nth_mem [of i "orgPolygon t"] by blast
  then show ?thesis using assms(2) by (simp add: vertex_def)
qed

lemma cross_sum_some:
  assumes "\<forall>k \<in> set (orgPolygon t). 0 \<le> k \<and> nat k < length (tvertices t)"
  shows "\<forall>i \<in> set is. i < length (orgPolygon t) \<Longrightarrow> \<exists>c. cross_sum V t org is acc = Some c"
proof (induction "is" arbitrary: acc)
  case (Cons i "is")
  then have i: "i < length (orgPolygon t)" by simp
  obtain x where "vertex t i = Some x" using vertex_some [OF assms i] by blast
  moreover obtain y where "vertex t ((i + 1) mod length (orgPolygon t)) = Some y"
    using vertex_some [OF assms mod_below [OF i]] by blast
  ultimately show ?case using Cons by simp
qed simp

text \<open>
  The result of \<open>apply\<close> on a polygon of more than three corners: the method, for the vertices of
  the polygon and the sum of the cross products seen from the first of them.
\<close>

definition clipped ::
  "'v tri_ops \<Rightarrow> 'v Triangulator \<Rightarrow> int list \<Rightarrow> (nat \<times> nat \<times> nat) list \<Rightarrow> (nat \<times> nat \<times> nat) list \<Rightarrow> nat list \<Rightarrow> bool" where
  "clipped V t polygon ts fs rest \<longleftrightarrow> orgPolygon t = polygon \<and>
     (\<exists>org. vertex t 0 = Some org \<and> cross_sum V t org [1..<length polygon - 1] (tzero V) = Some (ccs_m t)) \<and>
     cuts V t [0..<length polygon] ts fs rest"

lemma cross_sum_same:
  "vertex t' = vertex t \<Longrightarrow> orgPolygon t' = orgPolygon t \<Longrightarrow> cross_sum V t' org is acc = cross_sum V t org is acc"
  by (induction "is" arbitrary: acc) simp_all

lemma vertex_ccs: "vertex (t\<lparr>ccs_m := c\<rparr>) = vertex t"
  by (intro ext) (cases t; simp only: vertex_def Triangulator.simps)

lemma Triangulator_apply_clipped:
  assumes ok: "\<forall>k \<in> set polygon. 0 \<le> k \<and> nat k < length (tvertices t)" and masks: "True \<notin> set (earMask t)"
    and big: "3 < length polygon"
  shows "\<exists>k t' flats. Triangulator_apply V t polygon = Some (k, t') \<and> tri_ok t' \<and> tvertices t' = tvertices t \<and>
    length (triangles_m t') = 3 * k \<and> clipped V t' polygon (triples (triangles_m t')) flats (workPolygon t')"
proof -
  let ?n = "length polygon"
  let ?m = "if length (earMask t) < ?n then earMask t @ replicate (?n - length (earMask t)) False else earMask t"
  let ?t = "t\<lparr>triangles_m := [], earMask := ?m, orgPolygon := polygon, workPolygon := [0..<?n]\<rparr>"
  have m: "True \<notin> set ?m" "?n \<le> length ?m" using masks by auto
  have v: "\<forall>k \<in> set (orgPolygon ?t). 0 \<le> k \<and> nat k < length (tvertices ?t)" using ok by simp
  have "0 < length (orgPolygon ?t)" using big by (cases polygon) simp_all
  then obtain org where org: "vertex ?t 0 = Some org" using vertex_some [OF v] by blast
  have "\<forall>i \<in> set [1..<?n - 1]. i < length (orgPolygon ?t)" by auto
  then obtain c where c: "cross_sum V ?t org [1..<?n - 1] (tzero V) = Some c"
    using cross_sum_some [OF v] by blast
  let ?t' = "?t\<lparr>ccs_m := c\<rparr>"
  have "tri_ok ?t'" using ok m by (auto simp: tri_ok_def)
  then obtain k t' new flats where cl: "clip_loop V ?t' 0 = Some (0 + k, t')" "tri_ok t'"
      "t' = ?t'\<lparr>triangles_m := triangles_m ?t' @ new, workPolygon := workPolygon t'\<rparr>" "length new = 3 * k"
      "cuts V ?t' (workPolygon ?t') (triples new) flats (workPolygon t')"
    using clip_loop_spec [of ?t' V 0] by blast
  have tr: "triangles_m t' = new" "tvertices t' = tvertices t" "orgPolygon t' = polygon" "ccs_m t' = c"
    by (subst cl(3), simp)+
  have same: "same_shape ?t' t'" "same_shape t' ?t'" by (simp_all add: same_shape_def tr)
  have run: "Triangulator_apply V t polygon = Some (k, t')"
    using big org c cl(1) by (simp add: Triangulator_apply_def Let_def)
  have vt: "vertex t' = vertex ?t" using same_shape_vertex [OF same(1)] by (simp only: vertex_ccs)
  have "vertex t' 0 = Some org" using org vt by simp
  moreover have "cross_sum V t' org [1..<?n - 1] (tzero V) = Some (ccs_m t')"
    using c cross_sum_same [OF vt] tr(3,4) by simp
  moreover have "cuts V t' [0..<?n] (triples (triangles_m t')) flats (workPolygon t')"
    using same_shape_cuts [OF same(2)] cl(5) tr(1) by simp
  ultimately have "clipped V t' polygon (triples (triangles_m t')) flats (workPolygon t')"
    using tr(3) unfolding clipped_def by blast
  then show ?thesis using run cl(2,4) tr(1,2) by blast
qed

text \<open>All cases together.\<close>

lemma Triangulator_apply_spec:
  assumes ok: "\<forall>k \<in> set polygon. 0 \<le> k \<and> nat k < length (tvertices t)" and masks: "True \<notin> set (earMask t)"
  shows "\<exists>k t' flats rest. Triangulator_apply V t polygon = Some (k, t') \<and> True \<notin> set (earMask t') \<and> tvertices t' = tvertices t \<and>
    length (triangles_m t') = 3 * k \<and>
    (if length polygon < 3 then k = 0
     else (if length polygon = 3 then triangles_m t' = [0, 1, 2]
           else rest = workPolygon t' \<and> clipped V t' polygon (triples (triangles_m t')) flats rest) \<and>
       k + length flats + length rest = length polygon \<and> 2 \<le> length rest \<and>
       (\<forall>s \<in> set (triples (triangles_m t') @ flats). proper {..<length polygon} s) \<and>
       (\<forall>u v. boundary [0..<length polygon] u v =
          outline (triples (triangles_m t')) u v + outline flats u v + boundary rest u v) \<and>
       (k + 2 = length polygon \<longrightarrow> boundary [0..<length polygon] = outline (triples (triangles_m t'))))"
proof -
  let ?n = "length polygon"
  let ?m = "if length (earMask t) < ?n then earMask t @ replicate (?n - length (earMask t)) False else earMask t"
  have m: "True \<notin> set ?m" "?n \<le> length ?m" using masks by auto
  consider "?n < 3" | "?n = 3" | "3 < ?n" by linarith
  then show ?thesis
  proof cases
    case 1
    then have "Triangulator_apply V t polygon = Some (0, t\<lparr>triangles_m := [], earMask := ?m\<rparr>)"
      by (simp add: Triangulator_apply_def Let_def)
    then show ?thesis using 1 m(1) by (intro exI [of _ 0] exI [of _ "t\<lparr>triangles_m := [], earMask := ?m\<rparr>"]) simp
  next
    case 2
    let ?t = "t\<lparr>triangles_m := [0, 1, 2], earMask := ?m\<rparr>"
    have "Triangulator_apply V t polygon = Some (1, ?t)" using 2 by (simp add: Triangulator_apply_def Let_def)
    moreover have "boundary [0..<?n] u v = outline (triples [0, 1, 2]) u v" for u v
      using 2 by (simp add: upt_rec numeral_3_eq_3 numeral_2_eq_2)
    moreover have "proper {..<?n} (0, 1, 2)" using 2 by (simp add: proper_def)
    ultimately show ?thesis
      using 2 m(1) by (intro exI [of _ 1] exI [of _ ?t] exI [of _ "[]"] exI [of _ "[0, 1]"]) (auto simp: fun_eq_iff)
  next
    case 3
    obtain k t' flats where t': "Triangulator_apply V t polygon = Some (k, t')" "tri_ok t'" "tvertices t' = tvertices t"
        "length (triangles_m t') = 3 * k" "clipped V t' polygon (triples (triangles_m t')) flats (workPolygon t')"
      using Triangulator_apply_clipped [OF assms 3, of V] by blast
    have cut: "cuts V t' [0..<?n] (triples (triangles_m t')) flats (workPolygon t')"
      using t'(5) by (simp add: clipped_def)
    note shape = cuts_outline [OF cut]
    have len: "k + length flats + length (workPolygon t') = ?n" "2 \<le> length (workPolygon t')"
      using shape 3 length_triples [OF t'(4)] by simp_all
    have bd: "boundary [0..<?n] u v =
        outline (triples (triangles_m t')) u v + outline flats u v + boundary (workPolygon t') u v" for u v
      using shape by simp
    have "boundary [0..<?n] = outline (triples (triangles_m t'))" if k: "k + 2 = ?n"
    proof (intro ext)
      fix u v
      have "length flats = 0 \<and> length (workPolygon t') = 2" using len k by linarith
      then show "boundary [0..<?n] u v = outline (triples (triangles_m t')) u v" using bd by simp
    qed
    moreover have "{..<?n} = set [0..<?n]" by auto
    moreover have "True \<notin> set (earMask t')" using t'(2) by (simp add: tri_ok_def)
    ultimately show ?thesis
      using 3 t' len bd shape by (intro exI [of _ k] exI [of _ t'] exI [of _ flats] exI [of _ "workPolygon t'"]) simp
  qed
qed

text \<open>What the callers need: the triangles are corners of the polygon.\<close>

lemma set_triples: "length xs = 3 * k \<Longrightarrow> x \<in> set xs \<Longrightarrow> \<exists>a b c. (a, b, c) \<in> set (triples xs) \<and> x \<in> {a, b, c}"
proof (induction xs arbitrary: k rule: triples.induct)
  case (1 a b c xs)
  then show ?case by (cases k) auto
qed (simp_all, presburger+)

lemma Triangulator_apply_total:
  assumes "\<forall>k \<in> set polygon. 0 \<le> k \<and> nat k < length (tvertices t)" and "True \<notin> set (earMask t)"
  shows "\<exists>k t'. Triangulator_apply V t polygon = Some (k, t') \<and> True \<notin> set (earMask t') \<and> tvertices t' = tvertices t \<and>
    length (triangles_m t') = 3 * k \<and> (\<forall>x \<in> set (triangles_m t'). x < length polygon)"
proof -
  obtain k t' flats where *: "Triangulator_apply V t polygon = Some (k, t')" "True \<notin> set (earMask t')" "tvertices t' = tvertices t"
      "length (triangles_m t') = 3 * k"
      "length polygon < 3 \<longrightarrow> k = 0"
      "\<not> length polygon < 3 \<longrightarrow> (\<forall>s \<in> set (triples (triangles_m t') @ flats). proper {..<length polygon} s)"
    using Triangulator_apply_spec [OF assms, of V] by (metis (no_types, lifting))
  have "x < length polygon" if x: "x \<in> set (triangles_m t')" for x
  proof (cases "length polygon < 3")
    case True
    then show ?thesis using *(4,5) x by simp
  next
    case False
    obtain a b c where abc: "(a, b, c) \<in> set (triples (triangles_m t'))" "x \<in> {a, b, c}"
      using set_triples [OF *(4) x] by blast
    then have "proper {..<length polygon} (a, b, c)" using *(6) False by auto
    then show ?thesis using abc(2) by (auto simp: proper_def)
  qed
  then show ?thesis using *(1-4) by blast
qed

text \<open>
  C36: For a polygon of existing vertices \<open>apply\<close> returns, and the count is the number of triangles
  stored. Fewer than three corners give none and three give one. For more the triangles are those
  of the method \<open>cuts\<close> on the polygon, in that order: again and again the first corner that is
  flat or a convex ear without another corner strictly inside is taken out, the ears as
  triangles, the flat corners without, until two corners are left or, in the rest the object is
  left with, no corner is flat or an ear. Every triangle has three different corners of the
  polygon; triangles, flat corners and the rest are as many as the corners; and the boundaries of
  the triangles, of the flat corners and of the rest add up to that of the polygon. So if there
  are two triangles fewer than corners they cover the outline exactly.
\<close>

theorem Triangulator_apply_outline:
  assumes ok: "\<forall>k \<in> set polygon. 0 \<le> k \<and> nat k < length (tvertices t)" and masks: "True \<notin> set (earMask t)"
  shows "\<exists>k t' flats rest. Triangulator_apply V t polygon = Some (k, t') \<and> True \<notin> set (earMask t') \<and> tvertices t' = tvertices t \<and>
    length (triangles_m t') = 3 * k \<and>
    (if length polygon < 3 then k = 0
     else (if length polygon = 3 then triangles_m t' = [0, 1, 2]
           else rest = workPolygon t' \<and> clipped V t' polygon (triples (triangles_m t')) flats rest) \<and>
       k + length flats + length rest = length polygon \<and> 2 \<le> length rest \<and>
       (\<forall>s \<in> set (triples (triangles_m t') @ flats). proper {..<length polygon} s) \<and>
       (\<forall>u v. boundary [0..<length polygon] u v =
          outline (triples (triangles_m t')) u v + outline flats u v + boundary rest u v) \<and>
       (k + 2 = length polygon \<longrightarrow> boundary [0..<length polygon] = outline (triples (triangles_m t'))))"
  by (rule Triangulator_apply_spec [OF assms])

end
