(* ===== verification/TriangulatorWitnesses.thy ===== *)
theory TriangulatorWitnesses
  imports TriangulatorProofs
begin

text \<open>A square of points in the plane, on which the theorem about the triangulation applies.\<close>

definition d3_ops :: "(double \<times> double \<times> double) tri_ops" where
  "d3_ops = \<lparr>tzero = (Fin 0, Fin 0, Fin 0),
     tadd = (\<lambda>(a, b, c) (x, y, z). (dadd a x, dadd b y, dadd c z)),
     tsub = (\<lambda>(a, b, c) (x, y, z). (dsub a x, dsub b y, dsub c z)),
     tcross = (\<lambda>(a, b, c) (x, y, z). (dsub (dmul b z) (dmul c y), dsub (dmul c x) (dmul a z), dsub (dmul a y) (dmul b x))),
     tdot = (\<lambda>(a, b, c) (x, y, z). dadd (dadd (dmul a x) (dmul b y)) (dmul c z)),
     tnorm = (\<lambda>(a, b, c). dsqrt (dadd (dadd (dmul a a) (dmul b b)) (dmul c c)))\<rparr>"

definition square :: "(double \<times> double \<times> double) Triangulator" where
  "square = setVertices \<lparr>tvertices = [], orgPolygon = [], triangles_m = [], workPolygon = [], ccs_m = (Fin 0, Fin 0, Fin 0), earMask = []\<rparr>
     [(Fin 0, Fin 0, Fin 0), (Fin 1, Fin 0, Fin 0), (Fin 1, Fin 1, Fin 0), (Fin 0, Fin 1, Fin 0)]"

lemma square_cut:
  "map_option (\<lambda>(k, t). (k, triangles_m t)) (Triangulator_apply d3_ops square [0, 1, 2, 3]) = Some (2, [3, 0, 1, 3, 1, 2])"
  by code_simp

theorem Triangulator_apply_outline_witness:
  "map_option (\<lambda>(k, t). (k, triangles_m t)) (Triangulator_apply d3_ops square [0, 1, 2, 3]) = Some (2, [3, 0, 1, 3, 1, 2]) \<and>
   boundary [0, 1, 2, 3] = outline [(3, 0, 1), (3, 1, 2)]"
proof -
  have "\<forall>k \<in> set [0, 1, 2, 3]. 0 \<le> k \<and> nat k < length (tvertices square)" "True \<notin> set (earMask square)"
    by (simp_all add: square_def setVertices_def)
  from Triangulator_apply_outline [OF this, of d3_ops] obtain k t' where
    t': "Triangulator_apply d3_ops square [0, 1, 2, 3] = Some (k, t')"
      "k + 2 = length [0, 1, 2, 3 :: int] \<longrightarrow> boundary [0..<length [0, 1, 2, 3 :: int]] = outline (triples (triangles_m t'))"
    by auto
  have "k = 2" "triangles_m t' = [3, 0, 1, 3, 1, 2]" using square_cut t'(1) by simp_all
  then have "boundary [0, 1, 2, 3] = outline [(3, 0, 1), (3, 1, 2)]"
    using t'(2) by (simp add: numeral_2_eq_2 numeral_3_eq_3)
  then show ?thesis using square_cut by simp
qed

end
