(* ===== verification/Spec2Isabelle.thy ===== *)
theory Spec2Isabelle
  imports Witnesses ScannerWitnesses LinkWitnesses BodyWitnesses TriangulatorWitnesses
begin

text \<open>
  A verification library for the openhrp3 robot simulator: its path planner
  (\<open>src/hrplib/hrpPlanner\<close>), the world, the link trees and the bodies of its model library
  (\<open>src/hrplib/hrpModel\<close>: \<open>World\<close>, \<open>Link\<close>, \<open>LinkTraverse\<close>, \<open>LinkPath\<close>, \<open>JointPath\<close>, \<open>Body\<close>,
  \<open>Sensor\<close>), and of its utilities the lexical scanner under the model files and the triangulation
  of polygons (\<open>src/hrplib/hrpUtil\<close>: \<open>EasyScanner\<close>, \<open>Triangulator\<close>).

  The planner. A \<open>PathPlanner\<close> (\<open>PathPlannerModel\<close>) owns a robot, a \<open>ConfigurationSpace\<close>
  (\<open>ConfigSpace\<close>), a \<open>Mobility\<close> (\<open>MobilityModel\<close>: how the robot gets from one posture to
  another), an \<open>Algorithm\<close> (\<open>AlgorithmModel\<close>, with its subclasses in \<open>RRTModel\<close> and \<open>PRMModel\<close>)
  and \<open>Optimizer\<close>s (\<open>OptimizerModel\<close>), each created by name from a table of constructors. An
  algorithm grows a \<open>Roadmap\<close> of \<open>RoadmapNode\<close>s (\<open>RoadmapModel\<close>): it draws postures from the
  space, asks the mobility whether one is reachable from another, and the mobility asks the
  planner to check the interpolated path for collisions (\<open>CollisionCheck\<close>). \<open>calcPath\<close> prepares
  the algorithm, tries the direct connection, runs the algorithm and keeps its way points;
  \<open>getPath\<close> interpolates between them. The bodies and link pairs are kept by \<open>World\<close>
  (\<open>WorldModel\<close>).

  The scanner. \<open>EasyScanner\<close> (\<open>ScannerModel\<close>) walks through a text buffer that ends with a NUL
  character, skips blanks, comments and line ends, counts lines, and reads tokens, numbers,
  words, quoted strings and symbols.

  The links. A \<open>Link\<close> (\<open>LinkModel\<close>) holds pointers to its parent, its first child and its next
  sibling; \<open>addChild\<close>, \<open>detachChild\<close>, the copy constructor and the destructor change them.
  \<open>LinkTree\<close> says when links in the store form a tree (\<open>tree_at\<close>, with the abstract value \<open>ltree\<close>)
  and relates each operation to the same operation on that value. \<open>LinkPathModel\<close> holds the walk
  over a tree from any of its links (\<open>LinkTraverse\<close>), the way between two links (\<open>LinkPath\<close>) and
  the joints on it (\<open>JointPath\<close>), \<open>LinkPathProofs\<close> what they find, and \<open>KinematicsModel\<close> the
  forward kinematics along a walk and the sums of masses over subtrees. The arithmetic of
  vectors and matrices comes from Eigen, which is not under src/: it is the record \<open>eigen\<close> of
  operations (with \<open>eigen_more\<close> for the bodies), of which no law is assumed, since the equations
  shown hold for any arithmetic; the only exception is \<open>NewtonEuler\<close>, see below. Members the
  constructors leave unset have the value \<open>garbage\<close>.

  The bodies. A \<open>Body\<close> (\<open>BodyModel\<close>) owns a tree of links and keeps tables over it: the links in
  the order of a walk, the joints by their id, the links, sensors and lights by name, the sensors
  by type and id. Bodies, sensors and links live in a memory (\<open>body_mem\<close>: the links' store
  \<open>lstore\<close>, the sensors, the next free address), as they are shared through pointers.
  \<open>BodyProofs\<close> shows how \<open>updateLinkTree\<close>, \<open>setRootLink\<close> and \<open>createSensor\<close> keep the tables,
  \<open>BodyCopy\<close> what the copy constructor copies, \<open>BodyDynamics\<close> holds the loops over all links and
  the recursive inverse dynamics, and \<open>NewtonEuler\<close> the equations of motion they satisfy.
  Ids of \<open>2 ^ 31 - 1\<close>, for which the size of a table overflows, are not considered.

  The triangulation. A \<open>Triangulator\<close> (\<open>TriangulatorModel\<close>, with the vectors as the record
  \<open>tri_ops\<close>) holds the vertices, the polygon, the corners that are left and the triangles cut off
  so far; \<open>TriangulatorProofs\<close> states the clipping of ears as a relation (\<open>cuts\<close>), shows that the
  loop carries it out, and that the pieces' boundaries add up to the polygon's.

  Correspondence. A class is a record with the members under their own names (\<open>name_\<close> of the
  code is \<open>name_m\<close>), a method is a function from the object and its arguments to its result and
  the changed object. Objects that are shared through pointers, the nodes and roadmaps, live in
  a store (\<open>mach\<close> of \<open>RoadmapModel\<close>), which also counts the calls of \<open>rand\<close>; its values are a
  parameter, the function \<open>rsource\<close>. An operation that may not return normally has the result
  type option: \<open>None\<close> stands for an access outside a vector or a buffer, for a null pointer, for
  \<open>abort\<close>, or for a loop that never ends (those are \<open>partial_function\<close>s, so no fuel is needed
  anywhere). An exception is the left side of a sum. A \<open>double\<close> is \<open>Binary64.double\<close>: NaN, an
  infinity, or a finite value with the rational number it denotes, and every operation rounds
  to nearest even as IEEE 754 does. Integers have their width where the code relies on it. The
  number parsing of the C library is in \<open>CStdlib\<close>. The trigonometric functions, the collision
  detector and the kinematics of the bodies are not code of these components: they are
  parameters (arguments or record fields) of the model.

  Shared interfaces. \<open>Prelude.guarded_steps\<close> runs a sequence of requests whose every step keeps
  a relation; \<open>ScannerProofs\<close> and \<open>ScannerLines\<close> interpret it for bounds and line numbers.
  \<open>CollisionCheck.collision_oracle\<close> is the contract of the check of a posture, on which the
  check of a path rests; \<open>OptimizerModel\<close> states the reachability the short cuts rely on, and
  \<open>PathPlannerModel.path_algorithm\<close> the contract of a planning algorithm, interpreted for the
  RRT and the PRM. \<open>NewtonEuler.exact_vectors\<close> are the laws of vector arithmetic, interpreted for
  vectors of rational numbers.

  What is shown. For the planner: the collision check of a path is the check of each of its
  inner points in whatever order it visits them; reachability is exactly freedom of the
  interpolated path; the nearest node is nearest; the depth first search finds a path exactly
  when there is one and always returns; edges stay mirrored between parents and children;
  the RRT, and the engine on top of it, return only paths from start to goal on which no
  configuration collides; so does the PRM with a mobility that is not reversible. With a
  reversible one the PRM takes edges both ways after one check, so every segment of its path was
  checked in one of the two directions only; that this is not enough is shown of \<open>OmniWheel\<close>
  (\<open>MobilityModel.OmniWheel_not_reversible\<close>). The optimizers keep the ends and the freedom of the
  path; properties are read back. The properties of the engine are stated for collision checks
  whose verdict on a posture depends on the posture only (\<open>decides\<close>), with examples that show that
  such planners exist (\<open>Witnesses\<close>). For the scanner: no sequence of reads leaves the buffer as long
  as quoted strings do not span lines and NUL is not asked for, \<open>readLine\<close> and the operators \<open>>>\<close>
  aside; the line number is the number of line ends passed as long as nothing looks ahead for a
  line end; every token consumes text unless it is the end; integers are read back as printed,
  but for a 0 that the text after it makes hexadecimal. For the links
  (\<open>LinkTree\<close>, \<open>LinkPathProofs\<close>, \<open>KinematicsModel\<close>, with examples in \<open>LinkWitnesses\<close>):
  \<open>addChild\<close> moves the whole subtree; a copied tree can be deleted and leaves the store as it
  was; the walk visits every link once, its upward part first, and each link after the one its
  pose is computed from, so that forward kinematics leaves every link consistent with its
  parent; the way between two links is the tree path with the right directions, and its joints
  are those of the way; masses are summed over the subtree. For the bodies (with examples in
  \<open>BodyWitnesses\<close>): the tables are functions of the tree after every change of it; a sensor
  created is found again by name and by type and id; a copy has its own links and sensors, like the
  original's; the initial configuration is the default pose at rest; and inverse dynamics, in
  exact vector arithmetic and for rotational and fixed joints, is the Newton-Euler method. For
  polygons (\<open>TriangulatorWitnesses\<close>): the triangulation ends, and two triangles fewer than corners
  cover the outline exactly. Where the code falls short of
  this, the theorem states the input: the index past the path in the random optimizer, the dof
  of weight zero and the NaN that a space accepts, the negative type of a sensor, the
  angle on which \<open>theta_limit\<close> never ends, the unclosed string, the blank first line, the line end
  counted twice, the unknown algorithm name, the joint path that keeps the joints of an earlier
  search.

  Not modelled. CORBA servers and clients, RT components, drawing, sound and clocks (input and
  output); OPCODE, libjpeg, libpng and zlib (third party); forward dynamics, contact forces,
  inverse kinematics, mass matrices and Jacobians (numerical code over Eigen and LAPACK whose
  correctness is a matter of error bounds on real analysis); the customizers of a body (plug-ins);
  the VRML parser and writer and the shapes of VRML nodes, URLs and images; verbose messages and
  the debug modes.
\<close>

end
